(* ===== verification/Fppnet_Prelude.thy ===== *)
theory Fppnet_Prelude
  imports Main "HOL-Library.Product_Lexorder" "HOL-Library.Signed_Division"
begin

text \<open>
  What every component of the development shares: the failure values that stand for the
  ways a C++ operation of the program can stop (a failed \<open>assert\<close>, a \<open>LOG_FATAL\<close>, an
  exception, undefined behaviour), the sequencing of operations that may fail, arithmetic
  on \<open>size_t\<close> with its wrap-around, reads and writes of a contiguous memory block, and
  the strictly sorted lists that stand for \<open>std::set\<close> and the keys of \<open>std::map\<close>.
  The program is built with \<open>CMAKE_BUILD_TYPE=Debug\<close> (build.sh), so every \<open>assert\<close> of
  the source is checked at run time and is a branch of the model.
\<close>

section \<open>Failures and sequencing\<close>

text \<open>
  The number carried by a failure is the line of the source file the operation models:
  \<open>Assertion 55\<close> in the theory of Buffer.h is the \<open>assert\<close> on its line 55.
\<close>

datatype failure =
    Assertion nat
  | Fatal nat
  | Thrown nat
  | Undefined nat

type_synonym 'a result = "failure + 'a"

fun rbind :: "'a result \<Rightarrow> ('a \<Rightarrow> 'b result) \<Rightarrow> 'b result" where
  "rbind (Inl e) f = Inl e"
| "rbind (Inr x) f = f x"

definition check :: "bool \<Rightarrow> failure \<Rightarrow> 'a result \<Rightarrow> 'a result" where
  "check b e k = (if b then k else Inl e)"

named_theorems result_simps
named_theorems ops \<open>the definitions of the operations of the component at hand\<close>

lemma check_True [simp]: "b \<Longrightarrow> check b e k = k"
  by (simp add: check_def)

lemma check_False [simp]: "\<not> b \<Longrightarrow> check b e k = Inl e"
  by (simp add: check_def)

lemma check_Inr [result_simps]: "check b e k = Inr x \<longleftrightarrow> b \<and> k = Inr x"
  by (simp add: check_def)

lemma rbind_Inr [result_simps]: "rbind m f = Inr y \<longleftrightarrow> (\<exists>x. m = Inr x \<and> f x = Inr y)"
  by (cases m) auto

lemma rbind_assoc: "rbind (rbind m f) g = rbind m (\<lambda>x. rbind (f x) g)"
  by (cases m) auto

lemma rbind_right_id [simp]: "rbind m Inr = m"
  by (cases m) auto

lemma rbind_cong [fundef_cong]:
  "m = m' \<Longrightarrow> (\<And>x. m' = Inr x \<Longrightarrow> f x = g x) \<Longrightarrow> rbind m f = rbind m' g"
  by (cases m') auto

text \<open>
  \<open>for_each\<close> runs an operation over a list, left to right, and stops at the first
  failure: a range \<open>for\<close> whose body may abort.
\<close>

fun for_each :: "('b \<Rightarrow> 'a \<Rightarrow> 'a result) \<Rightarrow> 'b list \<Rightarrow> 'a \<Rightarrow> 'a result" where
  "for_each f [] s = Inr s"
| "for_each f (x # xs) s = rbind (f x s) (for_each f xs)"

lemma for_each_Nil [simp]: "for_each f [] = Inr"
  by (simp add: fun_eq_iff)

lemma for_each_map: "for_each f (map g xs) s = for_each (\<lambda>x. f (g x)) xs s"
proof (induction xs arbitrary: s)
  case (Cons x xs)
  then show ?case by (cases "f (g x) s") simp_all
qed simp

lemma for_each_append:
  "for_each f (xs @ ys) s = rbind (for_each f xs s) (for_each f ys)"
proof (induction xs arbitrary: s)
  case Nil
  then show ?case by simp
next
  case (Cons x xs)
  then show ?case by (cases "f x s") auto
qed

text \<open>An invariant the body re-establishes, and under which it never fails, is one of the loop.\<close>

lemma for_each_total:
  assumes step: "\<And>x s. x \<in> set xs \<Longrightarrow> P s \<Longrightarrow> \<exists>s'. f x s = Inr s' \<and> P s'"
    and "P s"
  shows "\<exists>s'. for_each f xs s = Inr s' \<and> P s'"
  using assms
proof (induction xs arbitrary: s)
  case Nil
  then show ?case by simp
next
  case (Cons x xs)
  from Cons.prems(1)[of x s] Cons.prems(2) obtain t where t: "f x s = Inr t" "P t"
    by auto
  then have "\<exists>s'. for_each f xs t = Inr s' \<and> P s'"
    by (intro Cons.IH) (auto intro: Cons.prems(1))
  with t show ?case by simp
qed

section \<open>Arithmetic on \<open>size_t\<close>\<close>

definition size_max :: nat where "size_max = 2 ^ 64"

definition add64 :: "nat \<Rightarrow> nat \<Rightarrow> nat" where
  "add64 a b = (a + b) mod size_max"

definition sub64 :: "nat \<Rightarrow> nat \<Rightarrow> nat" where
  "sub64 a b = (a + (size_max - b mod size_max)) mod size_max"

lemma add64_nowrap [simp]: "a + b < size_max \<Longrightarrow> add64 a b = a + b"
  by (simp add: add64_def)

lemma sub64_nowrap [simp]: "b \<le> a \<Longrightarrow> a < size_max \<Longrightarrow> sub64 a b = a - b"
proof -
  assume h: "b \<le> a" "a < size_max"
  then have "a + (size_max - b) = (a - b) + size_max" by simp
  then have "(a + (size_max - b)) mod size_max = (a - b) mod size_max"
    by (simp only: mod_add_self2)
  with h show "sub64 a b = a - b" by (simp add: sub64_def)
qed

lemma sub64_wraps: "a < b \<Longrightarrow> b < size_max \<Longrightarrow> sub64 a b = size_max - (b - a)"
  by (simp add: sub64_def)

text \<open>Signed division of C, which truncates, agrees with \<open>div\<close> on nonnegative numbers.\<close>

lemma sdiv_nonneg: "0 \<le> a \<Longrightarrow> 0 < b \<Longrightarrow> a sdiv b = a div (b::int)"
  by (cases "a = 0") (simp_all add: signed_divide_int_def)

lemma smod_nonneg: "0 \<le> a \<Longrightarrow> 0 < b \<Longrightarrow> a smod b = a mod (b::int)"
  by (cases "a = 0") (simp_all add: signed_modulo_int_def)

section \<open>Contiguous memory\<close>

definition mem_read :: "nat \<Rightarrow> nat \<Rightarrow> 'a list \<Rightarrow> 'a list" where
  "mem_read off n m = take n (drop off m)"

definition mem_write :: "nat \<Rightarrow> 'a list \<Rightarrow> 'a list \<Rightarrow> 'a list" where
  "mem_write off d m = take off m @ d @ drop (off + length d) m"

definition mem_resize :: "'a \<Rightarrow> nat \<Rightarrow> 'a list \<Rightarrow> 'a list" where
  "mem_resize z n m = take n m @ replicate (n - length m) z"

lemma length_mem_read [simp]: "length (mem_read off n m) = min n (length m - off)"
  by (simp add: mem_read_def)

lemma length_mem_write [simp]:
  "off + length d \<le> length m \<Longrightarrow> length (mem_write off d m) = length m"
  by (simp add: mem_write_def)

lemma length_mem_resize [simp]: "length (mem_resize z n m) = n"
  by (simp add: mem_resize_def)

lemma mem_read_0 [simp]: "mem_read off 0 m = []"
  by (simp add: mem_read_def)

lemma mem_read_write_same:
  "off + length d \<le> length m \<Longrightarrow> n = length d \<Longrightarrow> mem_read off n (mem_write off d m) = d"
  by (simp add: mem_read_def mem_write_def)

text \<open>Reading a range that ends with a fresh write: the old bytes, then the written ones.\<close>

lemma mem_read_write_after:
  assumes "r \<le> off" "off + length d \<le> length m" "n = off - r + length d"
  shows "mem_read r n (mem_write off d m) = mem_read r (off - r) m @ d"
  using assms by (simp add: mem_read_def mem_write_def take_drop)

text \<open>Reading a range that begins with a fresh write.\<close>

lemma mem_read_write_before:
  assumes "off + length d \<le> length m" "n = length d + k" "off + n \<le> length m"
  shows "mem_read off n (mem_write off d m) = d @ mem_read (off + length d) k m"
  using assms by (simp add: mem_read_def mem_write_def)

lemma mem_read_resize:
  "off + n \<le> length m \<Longrightarrow> length m \<le> k \<Longrightarrow> mem_read off n (mem_resize z k m) = mem_read off n m"
  by (simp add: mem_read_def mem_resize_def)

lemma mem_read_drop: "drop k (mem_read off n m) = mem_read (off + k) (n - k) m"
  by (simp add: mem_read_def drop_take add.commute)

lemma mem_read_take: "k \<le> n \<Longrightarrow> take k (mem_read off n m) = mem_read off k m"
  by (simp add: mem_read_def min_def)

section \<open>\<open>std::set\<close> as a strictly sorted list\<close>

definition oset_insert :: "'a::linorder \<Rightarrow> 'a list \<Rightarrow> 'a list \<times> bool" where
  "oset_insert x xs = (if x \<in> set xs then (xs, False) else (insort x xs, True))"

definition oset_erase :: "'a \<Rightarrow> 'a list \<Rightarrow> 'a list \<times> nat" where
  "oset_erase x xs = (if x \<in> set xs then (remove1 x xs, 1) else (xs, 0))"

definition lower_bound :: "'a::linorder \<Rightarrow> 'a list \<Rightarrow> 'a list" where
  \<comment> \<open>the iterator range from \<open>lower_bound(x)\<close> to \<open>end()\<close>\<close>
  "lower_bound x xs = dropWhile (\<lambda>y. y < x) xs"

definition below_bound :: "'a::linorder \<Rightarrow> 'a list \<Rightarrow> 'a list" where
  \<comment> \<open>the iterator range from \<open>begin()\<close> to \<open>lower_bound(x)\<close>\<close>
  "below_bound x xs = takeWhile (\<lambda>y. y < x) xs"

definition oset :: "'a::linorder list \<Rightarrow> bool" where
  "oset xs \<longleftrightarrow> sorted xs \<and> distinct xs"

lemma osetI: "sorted xs \<Longrightarrow> distinct xs \<Longrightarrow> oset xs"
  by (simp add: oset_def)

lemma oset_Nil [simp]: "oset []"
  by (simp add: oset_def)

lemma oset_insert_fresh: "x \<notin> set xs \<Longrightarrow> oset_insert x xs = (insort x xs, True)"
  by (simp add: oset_insert_def)

lemma oset_erase_present: "x \<in> set xs \<Longrightarrow> oset_erase x xs = (remove1 x xs, 1)"
  by (simp add: oset_erase_def)

lemma oset_insort: "oset xs \<Longrightarrow> x \<notin> set xs \<Longrightarrow> oset (insort x xs)"
  by (simp add: oset_def sorted_insort distinct_insort)

lemma oset_remove1: "oset xs \<Longrightarrow> oset (remove1 x xs)"
  by (simp add: oset_def sorted_remove1)

lemma set_remove1_oset: "oset xs \<Longrightarrow> set (remove1 x xs) = set xs - {x}"
  by (simp add: oset_def set_remove1_eq)

lemma below_bound_filter: "sorted xs \<Longrightarrow> below_bound x xs = filter (\<lambda>y. y < x) xs"
proof (induction xs)
  case Nil
  then show ?case by (simp add: below_bound_def)
next
  case (Cons a xs)
  have "filter (\<lambda>y. y < x) xs = []" if "\<not> a < x"
    using Cons.prems that by (auto simp: filter_empty_conv)
  with Cons show ?case by (simp add: below_bound_def)
qed

lemma lower_bound_filter: "sorted xs \<Longrightarrow> lower_bound x xs = filter (\<lambda>y. \<not> y < x) xs"
proof (induction xs)
  case Nil
  then show ?case by (simp add: lower_bound_def)
next
  case (Cons a xs)
  have "filter (\<lambda>y. \<not> y < x) xs = xs" if "\<not> a < x"
    using Cons.prems that by (auto simp: filter_id_conv)
  with Cons show ?case by (simp add: lower_bound_def)
qed

lemma set_below_bound: "sorted xs \<Longrightarrow> set (below_bound x xs) = {y \<in> set xs. y < x}"
  by (simp add: below_bound_filter)

lemma set_lower_bound: "sorted xs \<Longrightarrow> set (lower_bound x xs) = {y \<in> set xs. \<not> y < x}"
  by (simp add: lower_bound_filter)

lemma below_lower_append [simp]: "below_bound x xs @ lower_bound x xs = xs"
  by (simp add: below_bound_def lower_bound_def)

lemma oset_parts: "oset xs \<Longrightarrow> oset (below_bound x xs) \<and> oset (lower_bound x xs)"
  unfolding oset_def
  by (metis below_lower_append distinct_append sorted_append)

lemma oset_hd_least: "oset (x # xs) \<Longrightarrow> y \<in> set (x # xs) \<Longrightarrow> x \<le> y"
  by (auto simp: oset_def)

lemma image_remove_unique:
  assumes "e \<in> S" "\<And>x. x \<in> S - {e} \<Longrightarrow> f x \<noteq> f e"
  shows "f ` (S - {e}) = f ` S - {f e}"
proof (intro equalityI subsetI)
  fix y assume "y \<in> f ` (S - {e})"
  then obtain x where "x \<in> S - {e}" "y = f x" by blast
  with assms(2)[of x] show "y \<in> f ` S - {f e}" by auto
qed auto

end
