(* ===== verification/Byte_Queue.thy ===== *)
theory Byte_Queue
  imports Fppnet_Prelude
begin

text \<open>
  The interface through which a connection uses its output buffer: a first-in first-out
  queue of bytes. \<open>queue_op\<close> names the two calls, \<open>spec_op\<close> is the abstract queue, a plain
  list, and the locale \<open>byte_queue\<close> states what a provider promises. Theory Buffer
  interprets it on the model of src/net/Buffer.h; theory Tcp_Connection is the client.
\<close>

datatype queue_op = Put "char list" | Get nat

fun spec_op :: "queue_op \<Rightarrow> char list \<Rightarrow> char list option" where
  "spec_op (Put d) q = Some (q @ d)"
| "spec_op (Get n) q = (if n \<le> length q then Some (drop n q) else None)"

fun spec_ops :: "queue_op list \<Rightarrow> char list \<Rightarrow> char list option" where
  "spec_ops [] q = Some q"
| "spec_ops (x # xs) q = Option.bind (spec_op x q) (spec_ops xs)"

fun put_bytes :: "queue_op list \<Rightarrow> nat" where
  "put_bytes [] = 0"
| "put_bytes (Put d # xs) = length d + put_bytes xs"
| "put_bytes (Get n # xs) = put_bytes xs"

locale byte_queue =
  fixes invar :: "'b \<Rightarrow> bool"
    and bytes :: "'b \<Rightarrow> char list"
    and space :: "'b \<Rightarrow> nat"
    and count :: "'b \<Rightarrow> nat"
    and put :: "char list \<Rightarrow> 'b \<Rightarrow> 'b result"
    and get :: "nat \<Rightarrow> 'b \<Rightarrow> 'b result"
  assumes count_bytes: "invar b \<Longrightarrow> count b = length (bytes b)"
    and put_ok: "invar b \<Longrightarrow> length d \<le> space b \<Longrightarrow>
      \<exists>b'. put d b = Inr b' \<and> invar b' \<and> bytes b' = bytes b @ d \<and> space b - length d \<le> space b'"
    and get_ok: "invar b \<Longrightarrow> n \<le> length (bytes b) \<Longrightarrow>
      \<exists>b'. get n b = Inr b' \<and> invar b' \<and> bytes b' = drop n (bytes b) \<and> space b' = space b"
begin

lemma op_refines:
  assumes "invar b" "spec_op x (bytes b) = Some q" "put_bytes [x] \<le> space b"
  shows "\<exists>b'. (case x of Put d \<Rightarrow> put d | Get n \<Rightarrow> get n) b = Inr b' \<and> invar b' \<and> bytes b' = q
    \<and> space b - put_bytes [x] \<le> space b'"
proof (cases x)
  case (Put d)
  with assms put_ok[of b d] show ?thesis by auto
next
  case (Get n)
  with assms get_ok[of b n] show ?thesis by (auto split: if_splits)
qed

text \<open>Any run of calls the abstract queue accepts is accepted here, with the same bytes left.\<close>

lemma ops_refine:
  assumes "invar b" "spec_ops xs (bytes b) = Some q" "put_bytes xs \<le> space b"
  shows "\<exists>b'. for_each (\<lambda>x. case x of Put d \<Rightarrow> put d | Get n \<Rightarrow> get n) xs b = Inr b'
    \<and> invar b' \<and> bytes b' = q"
  using assms
proof (induction xs arbitrary: b)
  case Nil
  then show ?case by simp
next
  case (Cons x xs)
  have sum: "put_bytes (x # xs) = put_bytes [x] + put_bytes xs" by (cases x) auto
  from Cons.prems(2) obtain q1 where q1: "spec_op x (bytes b) = Some q1" "spec_ops xs q1 = Some q"
    by (cases "spec_op x (bytes b)") auto
  with op_refines[OF Cons.prems(1) q1(1)] Cons.prems(3) sum obtain c where
    c: "(case x of Put d \<Rightarrow> put d | Get n \<Rightarrow> get n) b = Inr c" "invar c" "bytes c = q1"
       "space b - put_bytes [x] \<le> space c"
    by auto
  from c q1 Cons.prems(3) sum show ?case
    using Cons.IH[of c] by simp
qed

text \<open>What was got out so far and what is still inside are, together, what was put in.\<close>

lemma put_get_stream:
  assumes "invar b" "length d \<le> space b" "n \<le> length (bytes b) + length d"
  shows "\<exists>b' b''. put d b = Inr b' \<and> get n b' = Inr b'' \<and> invar b''
    \<and> take n (bytes b @ d) @ bytes b'' = bytes b @ d"
proof -
  obtain b' where b': "put d b = Inr b'" "invar b'" "bytes b' = bytes b @ d"
    using put_ok[OF assms(1,2)] by blast
  then obtain b'' where "get n b' = Inr b''" "invar b''" "bytes b'' = drop n (bytes b @ d)"
    using get_ok[of b' n] assms(3) by auto
  with b' show ?thesis by (metis append_take_drop_id)
qed

end

end
