(* ===== verification/Buffer.thy ===== *)
theory Buffer
  imports Byte_Queue
begin

text \<open>
  The application-level buffer of a connection, \<open>Buffer\<close> of src/net/Buffer.h and
  \<open>Buffer::readFd\<close> of src/net/Buffer.cpp: one contiguous block, cut by two indices into
  prependable, readable and writable bytes. A pointer into the block (\<open>peek\<close>,
  \<open>beginWrite\<close>) is its offset. A copy that would leave the block is \<open>Undefined\<close>. The two
  buffers of \<open>append\<close> and \<open>prepend\<close> (the block and the caller's bytes) do not overlap.
\<close>

section \<open>State and accessors\<close>

record buffer =
  buf :: "char list"
  readerIndex :: nat
  writerIndex :: nat

definition kCheapPrepend :: nat where "kCheapPrepend = 8"
definition kInitialSize :: nat where "kInitialSize = 1024"

text \<open>\<open>vector::max_size()\<close> of a \<open>vector<char>\<close>: growing past it throws \<open>length_error\<close>.\<close>

definition vector_max :: nat where "vector_max = 2 ^ 63 - 1"

abbreviation zero_byte :: char where "zero_byte \<equiv> CHR 0x00"

definition readableBytes :: "buffer \<Rightarrow> nat" where
  "readableBytes b = sub64 (writerIndex b) (readerIndex b)"

definition writableBytes :: "buffer \<Rightarrow> nat" where
  "writableBytes b = sub64 (length (buf b)) (writerIndex b)"

definition prependableBytes :: "buffer \<Rightarrow> nat" where
  "prependableBytes b = readerIndex b"

definition peek :: "buffer \<Rightarrow> nat" where "peek b = readerIndex b"
definition beginWrite :: "buffer \<Rightarrow> nat" where "beginWrite b = writerIndex b"

definition new_Buffer :: "buffer result" where
  "new_Buffer =
     (let b = \<lparr>buf = replicate (kCheapPrepend + kInitialSize) zero_byte,
               readerIndex = kCheapPrepend, writerIndex = kCheapPrepend\<rparr>
      in check (readableBytes b = 0) (Assertion 35)
        (check (writableBytes b = kInitialSize) (Assertion 36)
        (check (prependableBytes b = kCheapPrepend) (Assertion 37)
        (Inr b))))"

section \<open>Operations\<close>

definition retrieve :: "nat \<Rightarrow> buffer \<Rightarrow> buffer result" where
  "retrieve len b =
     check (len \<le> readableBytes b) (Assertion 55)
       (Inr (b\<lparr>readerIndex := add64 (readerIndex b) len\<rparr>))"

definition retrieveUntil :: "nat \<Rightarrow> buffer \<Rightarrow> buffer result" where
  "retrieveUntil stop b =
     check (peek b \<le> stop) (Assertion 61)
    (check (stop \<le> beginWrite b) (Assertion 62)
    (retrieve (sub64 stop (peek b)) b))"

definition retrieveAll :: "buffer \<Rightarrow> buffer" where
  "retrieveAll b = b\<lparr>readerIndex := kCheapPrepend, writerIndex := kCheapPrepend\<rparr>"

definition retrieveAsString :: "buffer \<Rightarrow> (string \<times> buffer) result" where
  "retrieveAsString b =
     check (peek b + readableBytes b \<le> length (buf b)) (Undefined 75)
       (Inr (mem_read (peek b) (readableBytes b) (buf b), retrieveAll b))"

definition hasWritten :: "nat \<Rightarrow> buffer \<Rightarrow> buffer" where
  "hasWritten len b = b\<lparr>writerIndex := add64 (writerIndex b) len\<rparr>"

text \<open>\<open>std::copy\<close> of \<open>data\<close> into the block at an offset, at the given source line.\<close>

definition copy_to :: "nat \<Rightarrow> nat \<Rightarrow> char list \<Rightarrow> buffer \<Rightarrow> buffer result" where
  "copy_to line off data b =
     check (off + length data \<le> length (buf b)) (Undefined line)
       (Inr (b\<lparr>buf := mem_write off data (buf b)\<rparr>))"

definition makeSpace :: "nat \<Rightarrow> buffer \<Rightarrow> buffer result" where
  "makeSpace len b =
     (if add64 (writableBytes b) (prependableBytes b) < add64 len kCheapPrepend
      then let n = add64 (writerIndex b) len
           in check (n \<le> vector_max) (Thrown 151)
                (Inr (b\<lparr>buf := mem_resize zero_byte n (buf b)\<rparr>))
      else check (kCheapPrepend < readerIndex b) (Assertion 154)
             (let readable = readableBytes b
              in check (readerIndex b \<le> writerIndex b \<and> writerIndex b \<le> length (buf b))
                   (Undefined 156)
                 (rbind (copy_to 156 kCheapPrepend
                          (mem_read (readerIndex b) (writerIndex b - readerIndex b) (buf b)) b)
                   (\<lambda>b. let b = b\<lparr>readerIndex := kCheapPrepend\<rparr>;
                            b = b\<lparr>writerIndex := add64 (readerIndex b) readable\<rparr>
                        in check (readable = readableBytes b) (Assertion 159) (Inr b)))))"

definition ensureWritableBytes :: "nat \<Rightarrow> buffer \<Rightarrow> buffer result" where
  "ensureWritableBytes len b =
     rbind (if writableBytes b < len then makeSpace len b else Inr b)
       (\<lambda>b. check (writableBytes b \<ge> len) (Assertion 104) (Inr b))"

definition append :: "char list \<Rightarrow> buffer \<Rightarrow> buffer result" where
  "append data b =
     rbind (ensureWritableBytes (length data) b)
       (\<lambda>b. rbind (copy_to 89 (beginWrite b) data b)
         (\<lambda>b. Inr (hasWritten (length data) b)))"

definition prepend :: "char list \<Rightarrow> buffer \<Rightarrow> buffer result" where
  "prepend data b =
     check (length data \<le> prependableBytes b) (Assertion 120)
       (let b = b\<lparr>readerIndex := sub64 (readerIndex b) (length data)\<rparr>
        in copy_to 123 (readerIndex b) data b)"

definition shrink :: "nat \<Rightarrow> buffer \<Rightarrow> buffer result" where
  "shrink reserve b =
     (let n = add64 (add64 kCheapPrepend (readableBytes b)) reserve
      in check (n \<le> vector_max) (Thrown 128)
        (check (peek b + readableBytes b \<le> length (buf b)
                \<and> kCheapPrepend + readableBytes b \<le> n) (Undefined 129)
          (Inr (b\<lparr>buf := mem_write kCheapPrepend
                            (mem_read (peek b) (readableBytes b) (buf b))
                            (replicate n zero_byte)\<rparr>))))"

text \<open>
  \<open>readFd\<close>: \<open>readv(2)\<close> fills the writable part of the block first and the 64 KiB stack
  buffer after it. Its result is an input of the model: \<open>Inl errno\<close>, or \<open>Inr bytes\<close>, the
  bytes the kernel delivered in stream order. The value returned is \<open>n\<close> with the saved
  \<open>errno\<close>.
\<close>

definition extrabuf_size :: nat where "extrabuf_size = 65536"

definition readFd :: "int + char list \<Rightarrow> buffer \<Rightarrow> (int \<times> int option \<times> buffer) result" where
  "readFd io b =
     (let writable = writableBytes b
      in case io of
           Inl e \<Rightarrow> Inr (- 1, Some e, b)
         | Inr bytes \<Rightarrow>
             rbind (copy_to 20 (writerIndex b) (take writable bytes) b)
               (\<lambda>b. if length bytes \<le> writable
                    then Inr (int (length bytes), None,
                              b\<lparr>writerIndex := add64 (writerIndex b) (length bytes)\<rparr>)
                    else rbind (append (drop writable bytes)
                                  (b\<lparr>writerIndex := length (buf b)\<rparr>))
                           (\<lambda>b. Inr (int (length bytes), None, b))))"

section \<open>Invariant and abstraction\<close>

definition buffer_inv :: "buffer \<Rightarrow> bool" where
  "buffer_inv b \<longleftrightarrow>
     readerIndex b \<le> writerIndex b \<and> writerIndex b \<le> length (buf b)
     \<and> kCheapPrepend \<le> length (buf b) \<and> length (buf b) \<le> vector_max"

definition content :: "buffer \<Rightarrow> char list" where
  "content b = mem_read (readerIndex b) (writerIndex b - readerIndex b) (buf b)"

text \<open>The bytes that can still be appended before \<open>vector::max_size()\<close> is in reach.\<close>

definition room :: "buffer \<Rightarrow> nat" where
  "room b = vector_max - length (buf b)"

lemmas buffer_consts = kCheapPrepend_def kInitialSize_def vector_max_def size_max_def
lemmas buffer_accessors = readableBytes_def writableBytes_def prependableBytes_def
  peek_def beginWrite_def

lemma buffer_invD:
  assumes "buffer_inv b"
  shows "readerIndex b \<le> writerIndex b" "writerIndex b \<le> length (buf b)"
    "kCheapPrepend \<le> length (buf b)" "length (buf b) \<le> vector_max"
  using assms by (auto simp: buffer_inv_def)

lemma buffer_inv_bounds:
  assumes "buffer_inv b"
  shows "readerIndex b < size_max" "writerIndex b < size_max" "length (buf b) < size_max"
    "readerIndex b \<le> writerIndex b" "writerIndex b \<le> length (buf b)"
  using assms by (auto simp: buffer_inv_def buffer_consts)

lemma readableBytes_eq [simp]:
  "buffer_inv b \<Longrightarrow> readableBytes b = writerIndex b - readerIndex b"
  by (simp add: readableBytes_def buffer_inv_bounds)

lemma writableBytes_eq [simp]:
  "buffer_inv b \<Longrightarrow> writableBytes b = length (buf b) - writerIndex b"
  by (simp add: writableBytes_def buffer_inv_bounds)

lemma length_content [simp]:
  "buffer_inv b \<Longrightarrow> length (content b) = writerIndex b - readerIndex b"
  by (auto simp: content_def buffer_inv_def)

lemma new_Buffer_eq:
  "new_Buffer = Inr \<lparr>buf = replicate 1032 zero_byte, readerIndex = 8, writerIndex = 8\<rparr>"
  by (simp add: new_Buffer_def Let_def buffer_accessors buffer_consts)

lemma new_Buffer_inv: "new_Buffer = Inr b \<Longrightarrow> buffer_inv b \<and> content b = []"
  by (auto simp: new_Buffer_eq buffer_inv_def content_def buffer_consts)

lemma retrieve_total:
  assumes "buffer_inv b" "n \<le> length (content b)"
  shows "\<exists>b'. retrieve n b = Inr b' \<and> buffer_inv b' \<and> content b' = drop n (content b)
    \<and> room b' = room b"
proof -
  have "readerIndex b + n < size_max"
    using assms buffer_inv_bounds[of b] by simp
  with assms show ?thesis
    by (auto simp: retrieve_def buffer_inv_def content_def mem_read_drop room_def)
qed

lemma retrieve_fails: "buffer_inv b \<Longrightarrow> length (content b) < n \<Longrightarrow> retrieve n b = Inl (Assertion 55)"
  by (simp add: retrieve_def)

lemma retrieveAll_inv:
  "buffer_inv b \<Longrightarrow> buffer_inv (retrieveAll b) \<and> content (retrieveAll b) = []"
  by (simp add: retrieveAll_def buffer_inv_def content_def)

lemma makeSpace_total:
  assumes inv: "buffer_inv b" and short: "writableBytes b < len" and fits: "len \<le> room b"
  shows "\<exists>b'. makeSpace len b = Inr b' \<and> buffer_inv b' \<and> content b' = content b
    \<and> len \<le> writableBytes b' \<and> room b - len \<le> room b'
    \<and> (kCheapPrepend \<le> readerIndex b \<longrightarrow> kCheapPrepend \<le> readerIndex b')"
proof -
  let ?r = "readerIndex b" and ?w = "writerIndex b" and ?m = "buf b"
  note bnds = buffer_invD[OF inv]
  have len: "length ?m + len \<le> vector_max"
    using fits bnds by (simp add: room_def)
  have sum1: "add64 (writableBytes b) (prependableBytes b) = length ?m - ?w + ?r"
    and sum2: "add64 len kCheapPrepend = len + 8" and sum3: "add64 ?w len = ?w + len"
    using inv len bnds by (auto simp: prependableBytes_def buffer_consts)
  show ?thesis
  proof (cases "length ?m - ?w + ?r < len + 8")
    case True
    define b' where "b' = b\<lparr>buf := mem_resize zero_byte (?w + len) ?m\<rparr>"
    have run: "makeSpace len b = Inr b'"
      using True len bnds by (simp add: makeSpace_def sum1 sum2 sum3 b'_def)
    have inv': "buffer_inv b'"
      using len bnds short inv by (auto simp: buffer_inv_def b'_def buffer_consts)
    have "content b' = content b"
      using short inv bnds by (simp add: content_def b'_def mem_read_resize)
    moreover have "room b - len \<le> room b'"
      using bnds by (simp add: room_def b'_def)
    ultimately show ?thesis using run inv' by (auto simp: b'_def)
  next
    case False
    have r8: "8 < ?r" using False short inv by simp
    define b' where "b' = b\<lparr>buf := mem_write 8 (content b) ?m, readerIndex := 8,
      writerIndex := 8 + (?w - ?r)\<rparr>"
    have fit: "8 + length (content b) \<le> length ?m" using r8 inv bnds by simp
    have lenw: "length (mem_write 8 (content b) ?m) = length ?m" using fit by simp
    have top: "8 + (?w - ?r) \<le> length ?m" using fit inv by simp
    have inv': "buffer_inv b'"
      using top bnds unfolding buffer_inv_def b'_def by (simp add: lenw kCheapPrepend_def)
    have run: "makeSpace len b = Inr b'"
      using False r8 inv inv' bnds top
      unfolding makeSpace_def sum1 sum2
      by (simp add: copy_to_def Let_def content_def[symmetric]
          b'_def kCheapPrepend_def size_max_def vector_max_def)
    have "content b' = content b"
      using fit inv unfolding content_def[of b'] by (simp add: b'_def mem_read_write_same)
    moreover have "len \<le> writableBytes b'"
      using False inv inv' fit bnds by (simp add: b'_def)
    moreover have "room b - len \<le> room b'"
      using fit by (simp add: room_def b'_def)
    ultimately show ?thesis using run inv' by (auto simp: b'_def kCheapPrepend_def)
  qed
qed

lemma ensureWritableBytes_total:
  assumes "buffer_inv b" "len \<le> room b"
  shows "\<exists>b'. ensureWritableBytes len b = Inr b' \<and> buffer_inv b' \<and> content b' = content b
    \<and> len \<le> writableBytes b' \<and> room b - len \<le> room b'
    \<and> (kCheapPrepend \<le> readerIndex b \<longrightarrow> kCheapPrepend \<le> readerIndex b')"
proof (cases "writableBytes b < len")
  case True
  from makeSpace_total[OF assms(1) this assms(2)] show ?thesis
    using True by (auto simp: ensureWritableBytes_def)
next
  case False
  with assms show ?thesis by (simp add: ensureWritableBytes_def)
qed

text \<open>Bytes written at \<open>writerIndex\<close> and counted there extend the content.\<close>

lemma write_at_end:
  assumes inv: "buffer_inv b" and fit: "length d \<le> length (buf b) - writerIndex b"
  shows "copy_to l (writerIndex b) d b = Inr (b\<lparr>buf := mem_write (writerIndex b) d (buf b)\<rparr>)"
    and "buffer_inv (b\<lparr>buf := mem_write (writerIndex b) d (buf b),
                       writerIndex := writerIndex b + length d\<rparr>)"
    and "content (b\<lparr>buf := mem_write (writerIndex b) d (buf b),
                    writerIndex := writerIndex b + length d\<rparr>) = content b @ d"
    and "add64 (writerIndex b) (length d) = writerIndex b + length d"
proof -
  note bnds = buffer_invD[OF inv]
  have ok: "writerIndex b + length d \<le> length (buf b)" using fit bnds by simp
  show "copy_to l (writerIndex b) d b = Inr (b\<lparr>buf := mem_write (writerIndex b) d (buf b)\<rparr>)"
    using ok by (simp add: copy_to_def)
  show "buffer_inv (b\<lparr>buf := mem_write (writerIndex b) d (buf b),
                      writerIndex := writerIndex b + length d\<rparr>)"
    using ok bnds by (simp add: buffer_inv_def)
  show "content (b\<lparr>buf := mem_write (writerIndex b) d (buf b),
                   writerIndex := writerIndex b + length d\<rparr>) = content b @ d"
    using ok bnds by (simp add: content_def mem_read_write_after)
  show "add64 (writerIndex b) (length d) = writerIndex b + length d"
    using ok bnds by (simp add: buffer_consts)
qed

lemma append_total:
  assumes "buffer_inv b" "length d \<le> room b"
  shows "\<exists>b'. append d b = Inr b' \<and> buffer_inv b' \<and> content b' = content b @ d
    \<and> room b - length d \<le> room b'
    \<and> (kCheapPrepend \<le> readerIndex b \<longrightarrow> kCheapPrepend \<le> readerIndex b')"
proof -
  obtain c where c: "ensureWritableBytes (length d) b = Inr c" "buffer_inv c"
      "content c = content b" "length d \<le> writableBytes c" "room b - length d \<le> room c"
      "kCheapPrepend \<le> readerIndex b \<longrightarrow> kCheapPrepend \<le> readerIndex c"
    using ensureWritableBytes_total[OF assms] by blast
  have fit: "length d \<le> length (buf c) - writerIndex c" using c by simp
  note w = write_at_end[OF c(2) fit]
  have "length (mem_write (writerIndex c) d (buf c)) = length (buf c)"
    using fit buffer_invD[OF c(2)] by simp
  with c w show ?thesis
    by (simp add: append_def beginWrite_def hasWritten_def room_def)
qed

lemma prepend_total:
  assumes inv: "buffer_inv b" and fit: "length d \<le> prependableBytes b"
  shows "\<exists>b'. prepend d b = Inr b' \<and> buffer_inv b' \<and> content b' = d @ content b"
proof -
  note bnds = buffer_invD[OF inv]
  have r: "length d \<le> readerIndex b" using fit by (simp add: prependableBytes_def)
  have s: "sub64 (readerIndex b) (length d) = readerIndex b - length d"
    using r buffer_inv_bounds[OF inv] by simp
  define b' where "b' = b\<lparr>readerIndex := readerIndex b - length d,
    buf := mem_write (readerIndex b - length d) d (buf b)\<rparr>"
  have "prepend d b = Inr b'"
    using fit r bnds by (simp add: prepend_def s copy_to_def b'_def Let_def)
  moreover have "buffer_inv b'"
    using r bnds by (simp add: buffer_inv_def b'_def)
  moreover have "content b' = d @ content b"
  proof -
    have "content b' = mem_read (readerIndex b - length d)
        (length d + (writerIndex b - readerIndex b))
        (mem_write (readerIndex b - length d) d (buf b))"
      using r bnds by (simp add: content_def b'_def add.commute)
    also have "\<dots> = d @ mem_read (readerIndex b - length d + length d)
        (writerIndex b - readerIndex b) (buf b)"
      using r bnds by (intro mem_read_write_before) auto
    finally show ?thesis using r by (simp add: content_def)
  qed
  ultimately show ?thesis by blast
qed

lemma shrink_total:
  assumes inv: "buffer_inv b"
    and fits: "kCheapPrepend + readableBytes b + reserve \<le> vector_max"
  shows "\<exists>b'. shrink reserve b = Inr b'
    \<and> readerIndex b' = readerIndex b \<and> writerIndex b' = writerIndex b
    \<and> length (buf b') = kCheapPrepend + readableBytes b + reserve
    \<and> mem_read kCheapPrepend (readableBytes b) (buf b') = content b"
proof -
  let ?n = "kCheapPrepend + readableBytes b + reserve"
  define b' where "b' = b\<lparr>buf := mem_write kCheapPrepend (content b) (replicate ?n zero_byte)\<rparr>"
  have sum: "add64 (add64 kCheapPrepend (readableBytes b)) reserve = ?n"
    using fits by (simp add: add64_def buffer_consts)
  have rd: "mem_read (peek b) (readableBytes b) (buf b) = content b"
    using inv by (simp add: content_def peek_def)
  have "peek b + readableBytes b \<le> length (buf b)"
    using inv buffer_invD[OF inv] by (simp add: peek_def)
  then have "shrink reserve b = Inr b'"
    using fits unfolding shrink_def Let_def sum rd b'_def by simp
  moreover have "mem_read kCheapPrepend (readableBytes b) (buf b') = content b"
    using inv by (simp add: b'_def mem_read_write_same)
  ultimately show ?thesis using inv by (simp add: b'_def)
qed

section \<open>The buffer as a byte queue\<close>

interpretation bufq: byte_queue buffer_inv content room readableBytes append retrieve
proof unfold_locales
  fix b :: buffer and n :: nat and d :: "char list"
  show "buffer_inv b \<Longrightarrow> readableBytes b = length (content b)" by simp
  show "buffer_inv b \<Longrightarrow> length d \<le> room b \<Longrightarrow> \<exists>b'. append d b = Inr b' \<and> buffer_inv b'
      \<and> content b' = content b @ d \<and> room b - length d \<le> room b'"
    by (frule (1) append_total) auto
  show "buffer_inv b \<Longrightarrow> n \<le> length (content b) \<Longrightarrow> \<exists>b'. retrieve n b = Inr b' \<and> buffer_inv b'
      \<and> content b' = drop n (content b) \<and> room b' = room b"
    by (frule (1) retrieve_total) auto
qed

definition buffer_op :: "queue_op \<Rightarrow> buffer \<Rightarrow> buffer result" where
  "buffer_op x = (case x of Put d \<Rightarrow> append d | Get n \<Rightarrow> retrieve n)"

section \<open>Properties\<close>

lemma buffer_op_cases: "buffer_op = (\<lambda>x. case x of Put d \<Rightarrow> append d | Get n \<Rightarrow> retrieve n)"
  by (simp add: fun_eq_iff buffer_op_def)

lemma retrieveAsString_total:
  "buffer_inv b \<Longrightarrow> \<exists>b'. retrieveAsString b = Inr (content b, b') \<and> buffer_inv b' \<and> content b' = []"
  using retrieveAll_inv[of b] buffer_invD[of b]
  by (simp add: retrieveAsString_def content_def peek_def)

text \<open>C3: The buffer is a first-in first-out queue of bytes. Every run of \<open>append\<close> and
  \<open>retrieve\<close> calls that is possible on an abstract queue of bytes runs on the buffer without
  a failed assertion, an access outside the block or a \<open>length_error\<close> (as long as the bytes
  appended fit in a vector), keeps \<open>0 \<le> readerIndex \<le> writerIndex \<le> size\<close>, and leaves the
  same bytes readable, whether space was found by growing the block or by moving the data to
  its front.\<close>

theorem buffer_refines_byte_queue:
  assumes "buffer_inv b" "spec_ops xs (content b) = Some q" "put_bytes xs \<le> room b"
  shows "\<exists>b'. for_each buffer_op xs b = Inr b' \<and> buffer_inv b' \<and> content b' = q"
  unfolding buffer_op_cases by (rule bufq.ops_refine[OF assms])

definition wit_buffer :: buffer where
  "wit_buffer = \<lparr>buf = replicate 10 zero_byte, readerIndex = 9, writerIndex = 10\<rparr>"

lemma wit_buffer_ok: "buffer_inv wit_buffer" "content wit_buffer = [zero_byte]"
  "room wit_buffer = vector_max - 10"
  by (simp_all add: wit_buffer_def buffer_inv_def content_def buffer_consts mem_read_def room_def)

theorem buffer_refines_byte_queue_witness:
  "\<exists>b'. for_each buffer_op [Put ''ab'', Get 2] wit_buffer = Inr b' \<and> buffer_inv b'
     \<and> content b' = ''b''"
  by (rule buffer_refines_byte_queue) (simp_all add: wit_buffer_ok vector_max_def)

text \<open>C33: \<open>readFd\<close> appends to the readable bytes exactly what \<open>readv\<close> delivered, in order,
  both when the writable part of the block was large enough and when part of the data landed
  in the stack buffer and had to be appended; it returns the number of bytes. When \<open>readv\<close>
  fails it saves \<open>errno\<close>, returns -1 and leaves the buffer alone.\<close>

theorem readFd_appends:
  assumes inv: "buffer_inv b" and fits: "length d \<le> room b"
  shows "\<exists>b'. readFd (Inr d) b = Inr (int (length d), None, b') \<and> buffer_inv b'
    \<and> content b' = content b @ d
    \<and> readFd (Inl e) b = Inr (- 1, Some e, b)"
proof (cases "length d \<le> writableBytes b")
  case True
  then have fit: "length d \<le> length (buf b) - writerIndex b" using inv by simp
  note w = write_at_end[OF inv fit]
  show ?thesis
    using True w by (simp add: readFd_def)
next
  case False
  let ?n = "length (buf b) - writerIndex b"
  let ?d1 = "take ?n d" and ?d2 = "drop ?n d"
  note bnds = buffer_invD[OF inv]
  have n: "writableBytes b = ?n" using inv by simp
  have l1: "length ?d1 = ?n" using False n by simp
  have fit: "length ?d1 \<le> length (buf b) - writerIndex b" using l1 by simp
  note w = write_at_end[OF inv fit]
  define c where "c = b\<lparr>buf := mem_write (writerIndex b) ?d1 (buf b),
                       writerIndex := length (buf b)\<rparr>"
  have full: "writerIndex b + length ?d1 = length (buf b)" using l1 bnds by simp
  have c: "buffer_inv c" "content c = content b @ ?d1"
    using w(2,3) unfolding c_def full by auto
  have "length (buf c) = length (buf b)" using full by (simp add: c_def)
  then have "length ?d2 \<le> room c" using fits by (simp add: room_def)
  then obtain b' where b': "append ?d2 c = Inr b'" "buffer_inv b'"
      "content b' = content c @ ?d2"
    using append_total[OF c(1)] by blast
  have "length (buf (b\<lparr>buf := mem_write (writerIndex b) ?d1 (buf b)\<rparr>)) = length (buf b)"
    using full by simp
  with False b' w(1) n have "readFd (Inr d) b = Inr (int (length d), None, b')"
    by (simp add: readFd_def c_def)
  with b' c show ?thesis by (simp add: readFd_def)
qed


theorem readFd_appends_witness:
  "\<exists>b'. readFd (Inr ''xy'') wit_buffer = Inr (2, None, b')
     \<and> content b' = zero_byte # ''xy''"
  using readFd_appends[OF wit_buffer_ok(1), of "''xy''"] wit_buffer_ok(2,3)
  by (auto simp: vector_max_def)

text \<open>A framed message survives the buffer. A body appended to a fresh buffer, and then
  a header of at most eight bytes prepended, come out of \<open>retrieveAsString\<close> as header
  followed by body, and the buffer is empty afterwards.\<close>

theorem prepend_append_roundtrip:
  assumes h: "length h \<le> kCheapPrepend" and d: "length d \<le> vector_max - 1032"
  shows "\<exists>b0 b1 b2 b3. new_Buffer = Inr b0 \<and> append d b0 = Inr b1 \<and> prepend h b1 = Inr b2
    \<and> retrieveAsString b2 = Inr (h @ d, b3) \<and> buffer_inv b3 \<and> content b3 = []"
proof -
  obtain b0 where b0: "new_Buffer = Inr b0" "buffer_inv b0" "content b0 = []"
      "room b0 = vector_max - 1032" "readerIndex b0 = 8"
    using new_Buffer_inv[OF new_Buffer_eq] by (auto simp: new_Buffer_eq room_def)
  obtain b1 where b1: "append d b0 = Inr b1" "buffer_inv b1" "content b1 = d"
      "kCheapPrepend \<le> readerIndex b1"
    using append_total[OF b0(2), of d] b0 d by (auto simp: kCheapPrepend_def)
  obtain b2 where b2: "prepend h b1 = Inr b2" "buffer_inv b2" "content b2 = h @ d"
    using prepend_total[OF b1(2), of h] b1 h by (auto simp: prependableBytes_def)
  from retrieveAsString_total[OF b2(2)] b0 b1 b2 show ?thesis by auto
qed

theorem prepend_append_roundtrip_witness:
  "\<exists>b0 b1 b2 b3. new_Buffer = Inr b0 \<and> append ''body'' b0 = Inr b1 \<and> prepend ''hd'' b1 = Inr b2
    \<and> retrieveAsString b2 = Inr (''hdbody'', b3)"
  using prepend_append_roundtrip[of "''hd''" "''body''"] by (auto simp: buffer_consts)

text \<open>\<open>shrink\<close> moves the readable bytes to the front of a new block but leaves both
  indices as they were. The readable bytes are preserved when \<open>readerIndex\<close> is
  \<open>kCheapPrepend\<close>; and whenever it lies more than \<open>reserve\<close> bytes beyond it, \<open>writerIndex\<close>
  ends up outside the new block, so the buffer is broken.\<close>

theorem shrink_keeps_stale_indices:
  assumes inv: "buffer_inv b"
    and fits: "kCheapPrepend + readableBytes b + reserve \<le> vector_max"
  shows "\<exists>b'. shrink reserve b = Inr b'
    \<and> (buffer_inv b' \<longleftrightarrow> readerIndex b \<le> kCheapPrepend + reserve)
    \<and> (readerIndex b = kCheapPrepend \<longrightarrow> content b' = content b)"
proof -
  obtain b' where b': "shrink reserve b = Inr b'" "readerIndex b' = readerIndex b"
    "writerIndex b' = writerIndex b"
    "length (buf b') = kCheapPrepend + readableBytes b + reserve"
    "mem_read kCheapPrepend (readableBytes b) (buf b') = content b"
    using shrink_total[OF assms] by blast
  have "buffer_inv b' \<longleftrightarrow> readerIndex b \<le> kCheapPrepend + reserve"
    using b' inv fits buffer_invD[OF inv] by (auto simp: buffer_inv_def)
  with b' inv show ?thesis by (auto simp: content_def[of b'])
qed

theorem shrink_keeps_stale_indices_witness:
  "buffer_inv wit_buffer \<and> (\<exists>b'. shrink 0 wit_buffer = Inr b' \<and> \<not> buffer_inv b')"
  using shrink_keeps_stale_indices[OF wit_buffer_ok(1), of 0] wit_buffer_ok(1)
  by (auto simp: wit_buffer_def buffer_consts readableBytes_def)

end
