(* ===== verification/Timestamps.thy ===== *)
theory Timestamps
  imports Fppnet_Prelude "HOL-Library.Log_Nat"
begin

text \<open>
  Time stamps of src/base/datetime/Timestamp.h and Timestamp.cpp, and the part of
  \<open>double\<close> arithmetic that \<open>addTime\<close> and its callers use. A \<open>Timestamp\<close> is its count of
  microseconds since the epoch. A finite \<open>double\<close> is a mantissa and a binary exponent;
  \<open>dbl_round\<close> rounds a quotient of integers to 53 significant bits, ties to even, as the
  hardware does. The exponent is unbounded: the delays of the program lie far inside the
  range of \<open>double\<close>, so neither overflow to infinity nor subnormal numbers arise.
\<close>

section \<open>Doubles\<close>

datatype double = Dbl (mant: int) (expo: int)

definition int_scale :: "int \<Rightarrow> int \<Rightarrow> int" where
  \<comment> \<open>the value \<open>m * 2 ^ e\<close> truncated towards zero\<close>
  "int_scale m e = (if 0 \<le> e then m * 2 ^ nat e else sgn m * (\<bar>m\<bar> div 2 ^ nat (- e)))"

definition half_even :: "int \<Rightarrow> int \<Rightarrow> int" where
  \<comment> \<open>\<open>p / q\<close> for \<open>0 \<le> p\<close>, \<open>0 < q\<close>, rounded to the nearest integer, ties to even\<close>
  "half_even p q =
     (let d = p div q; r = p mod q
      in if 2 * r < q \<or> (2 * r = q \<and> even d) then d else d + 1)"

definition dbl_round :: "int \<Rightarrow> int \<Rightarrow> double" where
  \<comment> \<open>\<open>p / q\<close> for \<open>0 < q\<close>, rounded to 53 significant bits\<close>
  "dbl_round p q =
     (if p = 0 then Dbl 0 0
      else let a = \<bar>p\<bar>;
               k0 = bitlen a - bitlen q - 53;
               num = (\<lambda>k. a * 2 ^ nat (- k)); den = (\<lambda>k. q * 2 ^ nat k);
               k = (if 2 ^ 53 * den k0 \<le> num k0 then k0 + 1 else k0)
           in Dbl (sgn p * half_even (num k) (den k)) k)"

definition dbl_of_int :: "int \<Rightarrow> double" where
  "dbl_of_int n = dbl_round n 1"

definition dbl_mul :: "double \<Rightarrow> double \<Rightarrow> double" where
  "dbl_mul x y =
     (let e = expo x + expo y
      in dbl_round (mant x * mant y * 2 ^ nat e) (2 ^ nat (- e)))"

definition dbl_div_int :: "double \<Rightarrow> int \<Rightarrow> double" where
  \<comment> \<open>division by a positive integer constant that is itself a double\<close>
  "dbl_div_int x n = dbl_round (mant x * 2 ^ nat (expo x)) (n * 2 ^ nat (- expo x))"

definition dbl_positive :: "double \<Rightarrow> bool" where
  "dbl_positive x \<longleftrightarrow> 0 < mant x"

section \<open>Time stamps\<close>

type_synonym timestamp = int

definition kMicroSecondsPerSecond :: int where "kMicroSecondsPerSecond = 1000000"

definition invalid :: timestamp where "invalid = 0"

definition timestamp_swap :: "timestamp \<Rightarrow> timestamp \<Rightarrow> timestamp \<times> timestamp" where
  "timestamp_swap t that = (that, t)"

definition valid :: "timestamp \<Rightarrow> bool" where "valid t \<longleftrightarrow> t > 0"

definition now_of :: "int \<Rightarrow> int \<Rightarrow> timestamp" where
  \<comment> \<open>\<open>Timestamp::now()\<close> from the \<open>tv_sec\<close> and \<open>tv_usec\<close> that \<open>gettimeofday\<close> filled in\<close>
  "now_of tv_sec tv_usec = tv_sec * kMicroSecondsPerSecond + tv_usec"

definition int64 :: "int \<Rightarrow> bool" where
  "int64 x \<longleftrightarrow> - (2 ^ 63) \<le> x \<and> x < 2 ^ 63"

definition delta_of :: "double \<Rightarrow> int" where
  "delta_of seconds = (let p = dbl_mul seconds (dbl_of_int kMicroSecondsPerSecond)
                       in int_scale (mant p) (expo p))"

definition addTime :: "timestamp \<Rightarrow> double \<Rightarrow> timestamp result" where
  "addTime timestamp seconds =
     (let delta = delta_of seconds
      in check (int64 delta) (Undefined 103)
        (check (int64 (timestamp + delta)) (Undefined 104)
          (Inr (timestamp + delta))))"

definition timeDifference :: "timestamp \<Rightarrow> timestamp \<Rightarrow> double result" where
  "timeDifference high low =
     check (int64 (high - low)) (Undefined 92)
       (Inr (dbl_div_int (dbl_of_int (high - low)) kMicroSecondsPerSecond))"

section \<open>Printing\<close>

text \<open>
  Decimal digits, most significant first, for the conversions \<open>%d\<close>, \<open>%0nd\<close> and \<open>%nd\<close>
  of \<open>snprintf\<close>.
\<close>

definition digit_char :: "nat \<Rightarrow> char" where
  "digit_char d = char_of (48 + d)"

fun dec_nat :: "nat \<Rightarrow> string" where
  "dec_nat n = (if n < 10 then [digit_char n] else dec_nat (n div 10) @ [digit_char (n mod 10)])"

declare dec_nat.simps [simp del]

definition dec_int :: "int \<Rightarrow> string" where
  "dec_int i = (if i < 0 then CHR ''-'' # dec_nat (nat (- i)) else dec_nat (nat i))"

definition pad_left :: "char \<Rightarrow> nat \<Rightarrow> string \<Rightarrow> string" where
  "pad_left c w s = replicate (w - length s) c @ s"

definition dec_zero :: "nat \<Rightarrow> int \<Rightarrow> string" where
  \<comment> \<open>\<open>%0wd\<close>: zeros go between the sign and the digits\<close>
  "dec_zero w i = (if i < 0 then CHR ''-'' # pad_left (CHR ''0'') (w - 1) (dec_nat (nat (- i)))
                   else pad_left (CHR ''0'') w (dec_nat (nat i)))"

definition dec_width :: "nat \<Rightarrow> int \<Rightarrow> string" where
  "dec_width w i = pad_left (CHR '' '') w (dec_int i)"

definition toString :: "timestamp \<Rightarrow> string" where
  "toString t =
     (let seconds = t sdiv kMicroSecondsPerSecond;
          microseconds = t smod kMicroSecondsPerSecond
      in take 30 (dec_int seconds @ CHR ''.'' # dec_zero 6 microseconds))"

section \<open>Lemmas on decimal strings\<close>

definition char_digit :: "char \<Rightarrow> nat" where
  "char_digit c = of_char c - 48"

fun val_dec :: "nat \<Rightarrow> string \<Rightarrow> nat" where
  "val_dec acc [] = acc"
| "val_dec acc (c # cs) = val_dec (10 * acc + char_digit c) cs"

lemma char_digit_char [simp]: "d < 10 \<Longrightarrow> char_digit (digit_char d) = d"
  by (simp add: char_digit_def digit_char_def of_char_of take_bit_eq_mod)

lemma val_dec_append: "val_dec acc (xs @ ys) = val_dec (val_dec acc xs) ys"
  by (induction xs arbitrary: acc) auto

lemma val_dec_zeros: "val_dec 0 (replicate n (CHR ''0'') @ s) = val_dec 0 s"
  by (induction n) (auto simp: char_digit_def)

lemma dec_nat_small: "n < 10 \<Longrightarrow> dec_nat n = [digit_char n]"
  by (simp add: dec_nat.simps[of n])

lemma dec_nat_step: "10 \<le> n \<Longrightarrow> dec_nat n = dec_nat (n div 10) @ [digit_char (n mod 10)]"
  by (simp add: dec_nat.simps[of n])

text \<open>The printed digits read back as the number printed.\<close>

lemma val_dec_nat [simp]: "val_dec 0 (dec_nat n) = n"
proof (induction n rule: dec_nat.induct)
  case (1 n)
  show ?case
  proof (cases "n < 10")
    case True
    then show ?thesis by (simp add: dec_nat_small)
  next
    case False
    with 1 show ?thesis by (simp add: dec_nat_step val_dec_append)
  qed
qed

lemma dec_nat_ne [simp]: "dec_nat n \<noteq> []"
  by (subst dec_nat.simps) simp

lemma dec_nat_inj: "dec_nat m = dec_nat n \<longleftrightarrow> m = n"
  by (metis val_dec_nat)

text \<open>Number of digits: \<open>k\<close> digits suffice exactly below \<open>10 ^ k\<close>.\<close>

lemma length_dec_nat_le: "length (dec_nat n) \<le> Suc k \<longleftrightarrow> n < 10 * 10 ^ k"
proof (induction n arbitrary: k rule: dec_nat.induct)
  case (1 n)
  have one: "(1::nat) \<le> 10 ^ k" by simp
  show ?case
  proof (cases "n < 10")
    case True
    with one have "n < 10 * 10 ^ k" by linarith
    with True show ?thesis by (simp add: dec_nat_small)
  next
    case False
    then have len: "length (dec_nat n) = Suc (length (dec_nat (n div 10)))"
      by (simp add: dec_nat_step)
    show ?thesis
    proof (cases k)
      case 0
      with False len show ?thesis by simp
    next
      case (Suc j)
      have "n div 10 < 10 * 10 ^ j \<longleftrightarrow> n < 10 * (10 * 10 ^ j)"
        by (simp add: div_less_iff_less_mult mult.commute)
      with False "1.IH"[of j] len Suc show ?thesis by simp
    qed
  qed
qed

lemma dec_nat_digits: "c \<in> set (dec_nat n) \<Longrightarrow> c \<in> digit_char ` {..< 10}"
proof (induction n rule: dec_nat.induct)
  case (1 n)
  show ?case
  proof (cases "n < 10")
    case True
    with 1 show ?thesis by (simp add: dec_nat_small)
  next
    case False
    with 1 show ?thesis by (auto simp: dec_nat_step)
  qed
qed

section \<open>Lemmas on time arithmetic\<close>

lemma int_scale_exact: "0 \<le> e \<Longrightarrow> int_scale m e = m * 2 ^ nat e"
  by (simp add: int_scale_def)

lemma delta_of_half_second: "delta_of (dbl_div_int (dbl_of_int 500) 1000) = 500000"
  by code_simp

lemma delta_of_retry_delays:
  "map (\<lambda>ms. delta_of (dbl_div_int (dbl_of_int ms) 1000))
     [500, 1000, 2000, 4000, 8000, 16000, 30000]
   = [500000, 1000000, 2000000, 4000000, 8000000, 16000000, 30000000]"
  by code_simp

text \<open>An integer of at most 53 bits, given as any quotient by a power of two, is not rounded.\<close>

lemma half_even_exact: "0 < q \<Longrightarrow> half_even (x * q) q = x"
  by (simp add: half_even_def Let_def)

lemma bitlen_le: "0 < n \<Longrightarrow> n < 2 ^ k \<Longrightarrow> bitlen n \<le> int k"
  using bitlen_le_iff_power[of n k] by simp

lemma dbl_round_exact:
  assumes "0 < n" "n < 2 ^ 53"
  shows "\<exists>j. dbl_round (n * 2 ^ i) (2 ^ i) = Dbl (n * 2 ^ j) (- int j)"
proof -
  let ?k0 = "bitlen n - 54"
  have bl: "bitlen (n * 2 ^ i) = bitlen n + int i"
    using assms bitlen_pow2[of n i] by (simp add: mult.commute)
  have b1: "bitlen ((2::int) ^ i) = int i + 1"
    using bitlen_pow2[of 1 i] by (simp add: bitlen_def floorlog_def)
  have k0: "bitlen (n * 2 ^ i) - bitlen ((2::int) ^ i) - 53 = ?k0"
    by (simp add: bl b1)
  have neg: "?k0 < 0" using bitlen_le[OF assms(1), of 53] assms(2) by simp
  define k where "k = (if 2 ^ 53 * (2 ^ i * 2 ^ nat ?k0) \<le> n * 2 ^ i * 2 ^ nat (- ?k0)
                       then ?k0 + 1 else ?k0)"
  have absn: "\<bar>n * 2 ^ i\<bar> = n * 2 ^ i" using assms by (simp add: abs_mult)
  have le: "k \<le> 0" using neg by (simp add: k_def)
  have num: "n * 2 ^ i * 2 ^ nat (- k) = (n * 2 ^ nat (- k)) * 2 ^ i" by simp
  have "dbl_round (n * 2 ^ i) (2 ^ i)
      = Dbl (half_even (n * 2 ^ i * 2 ^ nat (- k)) (2 ^ i * 2 ^ nat k)) k"
    unfolding dbl_round_def Let_def absn k0 k_def[symmetric]
    using assms by (simp add: sgn_mult)
  also have "\<dots> = Dbl (n * 2 ^ nat (- k)) k"
    using le by (subst num) (simp add: half_even_exact del: mult.commute)
  finally have "dbl_round (n * 2 ^ i) (2 ^ i) = Dbl (n * 2 ^ nat (- k)) (- int (nat (- k)))"
    using le by simp
  then show ?thesis by blast
qed

lemma dbl_of_int_exact:
  assumes "0 < n" "n < 2 ^ 53"
  shows "\<exists>j. dbl_of_int n = Dbl (n * 2 ^ j) (- int j)"
  using dbl_round_exact[OF assms, of 0] by (simp add: dbl_of_int_def)

lemma int_scale_inverse: "0 < n \<Longrightarrow> int_scale (n * 2 ^ j) (- int j) = n"
  by (cases "j = 0") (auto simp: int_scale_def sgn_mult abs_mult)

lemma delta_of_whole_seconds:
  assumes "0 < n" "n * kMicroSecondsPerSecond < 2 ^ 53"
  shows "delta_of (dbl_of_int n) = n * kMicroSecondsPerSecond"
proof -
  let ?m = kMicroSecondsPerSecond
  have n: "n < 2 ^ 53" using assms by (simp add: kMicroSecondsPerSecond_def)
  obtain i where i: "dbl_of_int n = Dbl (n * 2 ^ i) (- int i)"
    using dbl_of_int_exact[OF assms(1) n] by blast
  obtain j where j: "dbl_of_int ?m = Dbl (?m * 2 ^ j) (- int j)"
    using dbl_of_int_exact[of ?m] by (auto simp: kMicroSecondsPerSecond_def)
  have "dbl_mul (dbl_of_int n) (dbl_of_int ?m) = dbl_round (n * ?m * 2 ^ (i + j)) (2 ^ (i + j))"
    by (simp add: dbl_mul_def i j Let_def nat_add_distrib power_add algebra_simps)
  moreover obtain l where "dbl_round (n * ?m * 2 ^ (i + j)) (2 ^ (i + j))
      = Dbl (n * ?m * 2 ^ l) (- int l)"
    using dbl_round_exact[of "n * ?m" "i + j"] assms by (auto simp: kMicroSecondsPerSecond_def)
  moreover have "0 < n * ?m" using assms by (simp add: kMicroSecondsPerSecond_def)
  ultimately show ?thesis
    unfolding delta_of_def Let_def by (simp only: double.sel int_scale_inverse)
qed

lemma addTime_nowrap:
  "int64 (delta_of s) \<Longrightarrow> int64 (t + delta_of s) \<Longrightarrow> addTime t s = Inr (t + delta_of s)"
  by (simp add: addTime_def Let_def)

section \<open>Properties\<close>

text \<open>Whole-second delays are exact. \<open>addTime\<close> with a delay of \<open>n\<close> seconds, given as the
  \<open>double\<close> nearest to \<open>n\<close>, adds exactly \<open>n * 1000000\<close> microseconds: neither the conversion
  of \<open>n\<close> nor the product is rounded as long as the product has at most 53 bits.\<close>

theorem addTime_whole_seconds:
  assumes "0 < n" "n * kMicroSecondsPerSecond < 2 ^ 53" "int64 (t + n * kMicroSecondsPerSecond)"
  shows "addTime t (dbl_of_int n) = Inr (t + n * kMicroSecondsPerSecond)"
proof -
  have "int64 (n * kMicroSecondsPerSecond)"
    using assms(1,2) by (simp add: int64_def kMicroSecondsPerSecond_def)
  with assms(3) show ?thesis
    by (simp add: addTime_nowrap delta_of_whole_seconds[OF assms(1,2)])
qed

theorem addTime_whole_seconds_witness:
  "addTime 1000 (dbl_of_int 30) = Inr 30001000"
  using addTime_whole_seconds[of 30 1000]
  by (simp add: kMicroSecondsPerSecond_def int64_def)

lemma val_dec_zero:
  "0 \<le> i \<Longrightarrow> val_dec 0 (dec_zero w i) = nat i"
  by (simp add: dec_zero_def pad_left_def val_dec_zeros)

lemma length_dec_zero:
  assumes "0 \<le> i" "i < 10 * 10 ^ w"
  shows "length (dec_zero (Suc w) i) = Suc w"
proof -
  have "nat i < 10 * 10 ^ w" using assms by (simp add: nat_less_iff)
  then have "length (dec_nat (nat i)) \<le> Suc w" by (simp only: length_dec_nat_le)
  with assms show ?thesis by (simp add: dec_zero_def pad_left_def)
qed

text \<open>\<open>toString\<close> loses nothing. For every time stamp at or after the epoch it prints the
  decimal seconds, a dot and exactly six digits, is never cut short by its 32-byte buffer, and
  the two numbers read back give the time stamp.\<close>

theorem toString_roundtrip:
  assumes "0 \<le> t" "int64 t"
  shows "\<exists>s u. toString t = s @ CHR ''.'' # u \<and> length u = 6
    \<and> int (val_dec 0 s) * kMicroSecondsPerSecond + int (val_dec 0 u) = t"
proof -
  let ?s = "dec_int (t div 1000000)" and ?u = "dec_zero 6 (t mod 1000000)"
  have sd: "t sdiv 1000000 = t div 1000000" "t smod 1000000 = t mod 1000000"
    using assms(1) by (simp_all add: sdiv_nonneg smod_nonneg)
  have u: "length ?u = 6" using length_dec_zero[of "t mod 1000000" 5] by simp
  have "nat (t div 1000000) < 10 * 10 ^ 13"
    using assms by (simp add: int64_def nat_less_iff)
  then have "length (dec_nat (nat (t div 1000000))) \<le> Suc 13" by (simp only: length_dec_nat_le)
  with u assms(1) have "length (?s @ CHR ''.'' # ?u) \<le> 30"
    using pos_imp_zdiv_nonneg_iff[of 1000000 t] by (simp add: dec_int_def)
  then have "toString t = ?s @ CHR ''.'' # ?u"
    by (simp add: toString_def kMicroSecondsPerSecond_def sd Let_def)
  moreover have "int (val_dec 0 ?s) * kMicroSecondsPerSecond + int (val_dec 0 ?u) = t"
    using assms(1) pos_imp_zdiv_nonneg_iff[of 1000000 t]
    by (simp add: dec_int_def val_dec_zero kMicroSecondsPerSecond_def)
  ultimately show ?thesis using u by blast
qed

theorem toString_roundtrip_witness:
  "\<exists>s u. toString 12000034 = s @ CHR ''.'' # u \<and> length u = 6
    \<and> int (val_dec 0 s) * 1000000 + int (val_dec 0 u) = 12000034"
  using toString_roundtrip[of 12000034] by (simp add: int64_def kMicroSecondsPerSecond_def)

end
