(* ===== verification/Timer_Queue.thy ===== *)
theory Timer_Queue
  imports Timestamps
begin

text \<open>
  Timers of an event loop: \<open>Timer\<close> (src/net/Timer.h, Timer.cpp), \<open>TimerId\<close>
  (src/net/TimerId.h) and \<open>TimerQueue\<close> (src/net/TimerQueue.h, TimerQueue.cpp).

  Timers are heap objects that the queue owns through raw pointers, so the model keeps
  the heap: \<open>heap\<close> maps the address of every live \<open>Timer\<close> to its fields, \<open>new\<close> adds an
  address, \<open>delete\<close> removes it, and using an address that is not live is \<open>Undefined\<close>. An
  address is a number below \<open>UINTPTR_MAX\<close>. \<open>std::set\<close>s are strictly sorted lists, ordered
  as \<open>std::pair\<close> orders them. \<open>inl\<close> is the result of \<open>isInLoopThread()\<close>; clock readings
  are arguments. What a timer callback does to the queue is an input too: a list of
  \<open>addTimer\<close> and \<open>cancel\<close> calls for every callback that runs.
\<close>

section \<open>Timers\<close>

type_synonym addr = nat
type_synonym callback = nat

record timer =
  callback :: callback
  expiration :: timestamp
  interval :: double
  repeat :: bool
  sequence :: int

record timerId =
  timer_ptr :: addr
  id_sequence :: int

definition restart :: "timestamp \<Rightarrow> timer \<Rightarrow> timer result" where
  "restart now t =
     (if repeat t
      then rbind (addTime now (interval t)) (\<lambda>e. Inr (t\<lparr>expiration := e\<rparr>))
      else Inr (t\<lparr>expiration := invalid\<rparr>))"

section \<open>The queue\<close>

type_synonym entry = "timestamp \<times> addr"
type_synonym activeTimer = "addr \<times> int"

text \<open>A \<open>timespec\<close>: seconds and nanoseconds.\<close>

type_synonym timespec = "int \<times> int"

record timerQueue =
  timers :: "entry list"
  callingExpiredTimers :: bool
  activeTimers :: "activeTimer list"
  cancelingTimers :: "activeTimer list"
  heap :: "addr \<rightharpoonup> timer"
  numCreated :: int
  armed :: "timespec option"
    \<comment> \<open>the value last given to \<open>timerfd_settime\<close>\<close>

definition uintptr_max :: nat where "uintptr_max = 2 ^ 64 - 1"

text \<open>
  The constructor \<open>Timer(cb, when, interval)\<close>, with the sequence number taken from the
  static counter \<open>s_numCreated_\<close>. \<open>alloc\<close> is \<open>operator new\<close>: the address it returns for
  the current heap, or \<open>None\<close> for \<open>bad_alloc\<close>.
\<close>

definition new_Timer ::
  "((addr \<rightharpoonup> timer) \<Rightarrow> addr option) \<Rightarrow> callback \<Rightarrow> timestamp \<Rightarrow> double \<Rightarrow> timerQueue
   \<Rightarrow> (addr \<times> timerQueue) result" where
  "new_Timer alloc cb due itv q =
     (case alloc (heap q) of
        None \<Rightarrow> Inl (Thrown 114)
      | Some a \<Rightarrow>
          let n = numCreated q + 1
          in Inr (a, q\<lparr>heap := (heap q)(a \<mapsto> \<lparr>callback = cb, expiration = due,
                        interval = itv, repeat = dbl_positive itv, sequence = n\<rparr>),
                      numCreated := n\<rparr>))"

definition howMuchTimeFromNow :: "timestamp \<Rightarrow> timestamp \<Rightarrow> timespec" where
  "howMuchTimeFromNow clock due =
     (let microseconds = due - clock;
          microseconds = (if microseconds < 100 then 100 else microseconds)
      in (microseconds sdiv kMicroSecondsPerSecond,
          (microseconds smod kMicroSecondsPerSecond) * 1000))"

definition resetTimerfd :: "timestamp \<Rightarrow> timestamp \<Rightarrow> timerQueue \<Rightarrow> timerQueue" where
  "resetTimerfd clock expiry q = q\<lparr>armed := Some (howMuchTimeFromNow clock expiry)\<rparr>"

definition new_TimerQueue :: timerQueue where
  "new_TimerQueue = \<lparr>timers = [], callingExpiredTimers = False, activeTimers = [],
     cancelingTimers = [], heap = Map.empty, numCreated = 0, armed = None\<rparr>"

text \<open>Dereferencing a \<open>Timer*\<close>, and \<open>delete\<close>.\<close>

definition deref :: "nat \<Rightarrow> addr \<Rightarrow> timerQueue \<Rightarrow> timer result" where
  "deref line a q = (case heap q a of None \<Rightarrow> Inl (Undefined line) | Some t \<Rightarrow> Inr t)"

definition delete_timer :: "nat \<Rightarrow> addr \<Rightarrow> timerQueue \<Rightarrow> timerQueue result" where
  "delete_timer line a q =
     check (a \<in> dom (heap q)) (Undefined line) (Inr (q\<lparr>heap := (heap q)(a := None)\<rparr>))"

definition same_size :: "nat \<Rightarrow> timerQueue \<Rightarrow> timerQueue result" where
  "same_size line q = check (length (timers q) = length (activeTimers q)) (Assertion line) (Inr q)"

definition insert_timer :: "bool \<Rightarrow> addr \<Rightarrow> timerQueue \<Rightarrow> (bool \<times> timerQueue) result" where
  "insert_timer inl a q =
     check inl (Fatal 248)
    (rbind (same_size 249 q) (\<lambda>q.
     rbind (deref 254 a q) (\<lambda>t.
     let due = expiration t;
         earliestChanged = (timers q = [] \<or> due < fst (hd (timers q)));
         r1 = oset_insert (due, a) (timers q)
     in check (snd r1) (Assertion 265)
       (let r2 = oset_insert (a, sequence t) (activeTimers q)
        in check (snd r2) (Assertion 271)
          (rbind (same_size 275 (q\<lparr>timers := fst r1, activeTimers := fst r2\<rparr>))
            (\<lambda>q. Inr (earliestChanged, q)))))))"

definition addTimerInLoop :: "bool \<Rightarrow> timestamp \<Rightarrow> addr \<Rightarrow> timerQueue \<Rightarrow> timerQueue result" where
  "addTimerInLoop inl clock a q =
     check inl (Fatal 123)
    (rbind (insert_timer inl a q) (\<lambda>(earliestChanged, q).
       if earliestChanged
       then rbind (deref 128 a q) (\<lambda>t. Inr (resetTimerfd clock (expiration t) q))
       else Inr q))"

definition cancelInLoop :: "bool \<Rightarrow> timerId \<Rightarrow> timerQueue \<Rightarrow> timerQueue result" where
  "cancelInLoop inl tid q =
     check inl (Fatal 140)
    (rbind (same_size 141 q) (\<lambda>q.
     let tm = (timer_ptr tid, id_sequence tid)
     in rbind
          (if tm \<in> set (activeTimers q)
           then rbind (deref 145 (timer_ptr tid) q) (\<lambda>t.
                let (ts, n) = oset_erase (expiration t, timer_ptr tid) (timers q)
                in check (n = 1) (Assertion 146)
                  (rbind (delete_timer 148 (timer_ptr tid) (q\<lparr>timers := ts\<rparr>)) (\<lambda>q.
                    Inr (q\<lparr>activeTimers := fst (oset_erase tm (activeTimers q))\<rparr>))))
           else if callingExpiredTimers q
           then Inr (q\<lparr>cancelingTimers := fst (oset_insert tm (cancelingTimers q))\<rparr>)
           else Inr q)
          (same_size 153)))"

text \<open>
  \<open>addTimer\<close> and \<open>cancel\<close> go through \<open>runInLoop\<close>: in the loop thread the work is done at
  once, elsewhere it is queued as a functor of the loop.
\<close>

datatype tq_task = AddTimerInLoop addr | CancelInLoop timerId

fun run_task :: "bool \<Rightarrow> timestamp \<Rightarrow> tq_task \<Rightarrow> timerQueue \<Rightarrow> timerQueue result" where
  "run_task inl clock (AddTimerInLoop a) q = addTimerInLoop inl clock a q"
| "run_task inl clock (CancelInLoop i) q = cancelInLoop inl i q"

definition runInLoop_task ::
  "bool \<Rightarrow> timestamp \<Rightarrow> tq_task \<Rightarrow> timerQueue \<Rightarrow> (tq_task option \<times> timerQueue) result" where
  "runInLoop_task inl clock t q =
     (if inl then rbind (run_task inl clock t q) (\<lambda>q. Inr (None, q)) else Inr (Some t, q))"

definition addTimer ::
  "((addr \<rightharpoonup> timer) \<Rightarrow> addr option) \<Rightarrow> bool \<Rightarrow> timestamp \<Rightarrow> callback \<Rightarrow> timestamp \<Rightarrow> double
   \<Rightarrow> timerQueue \<Rightarrow> (timerId \<times> tq_task option \<times> timerQueue) result" where
  "addTimer alloc inl clock cb due itv q =
     rbind (new_Timer alloc cb due itv q) (\<lambda>(a, q).
     rbind (runInLoop_task inl clock (AddTimerInLoop a) q) (\<lambda>(task, q).
     rbind (deref 117 a q) (\<lambda>t.
       Inr (\<lparr>timer_ptr = a, id_sequence = sequence t\<rparr>, task, q))))"

definition cancel ::
  "bool \<Rightarrow> timestamp \<Rightarrow> timerId \<Rightarrow> timerQueue \<Rightarrow> (tq_task option \<times> timerQueue) result" where
  "cancel inl clock tid q = runInLoop_task inl clock (CancelInLoop tid) q"

section \<open>Expiry\<close>

definition unfile :: "entry \<Rightarrow> timerQueue \<Rightarrow> timerQueue result" where
  \<comment> \<open>the body of the loop over the expired entries\<close>
  "unfile e q =
     rbind (deref 210 (snd e) q) (\<lambda>t.
     let (act, n) = oset_erase (snd e, sequence t) (activeTimers q)
     in check (n = 1) (Assertion 212) (Inr (q\<lparr>activeTimers := act\<rparr>)))"

definition getExpired :: "timestamp \<Rightarrow> timerQueue \<Rightarrow> (entry list \<times> timerQueue) result" where
  "getExpired now q =
     rbind (same_size 181 q) (\<lambda>q.
     let sentry = (now, uintptr_max);
         it = lower_bound sentry (timers q);
         expired = below_bound sentry (timers q)
     in check (it = [] \<or> now < fst (hd it)) (Assertion 190)
       (rbind
          (for_each unfile expired (q\<lparr>timers := it\<rparr>))
          (\<lambda>q. rbind (same_size 214 q) (\<lambda>q. Inr (expired, q)))))"

definition reset_entry :: "bool \<Rightarrow> timestamp \<Rightarrow> entry \<Rightarrow> timerQueue \<Rightarrow> timerQueue result" where
  "reset_entry inl now e q =
     rbind (deref 224 (snd e) q) (\<lambda>t.
       if repeat t \<and> (snd e, sequence t) \<notin> set (cancelingTimers q)
       then rbind (restart now t) (\<lambda>t.
            rbind (insert_timer inl (snd e) (q\<lparr>heap := (heap q)(snd e \<mapsto> t)\<rparr>)) (\<lambda>(_, q). Inr q))
       else delete_timer 233 (snd e) q)"

definition reset ::
  "bool \<Rightarrow> timestamp \<Rightarrow> entry list \<Rightarrow> timestamp \<Rightarrow> timerQueue \<Rightarrow> timerQueue result" where
  "reset inl clock expired now q =
     rbind (for_each (reset_entry inl now) expired q) (\<lambda>q.
     rbind (if timers q \<noteq> [] then rbind (deref 239 (snd (hd (timers q))) q) (\<lambda>t. Inr (expiration t))
            else Inr invalid) (\<lambda>nextExpire.
       Inr (if valid nextExpire then resetTimerfd clock nextExpire q else q)))"

text \<open>
  A call a timer callback makes on the queue of its own loop: \<open>addTimer\<close> (with the clock
  reading used to arm the timer descriptor) or \<open>cancel\<close>.
\<close>

datatype tq_call = CallAdd timestamp callback timestamp double | CallCancel timestamp timerId

fun do_call ::
  "((addr \<rightharpoonup> timer) \<Rightarrow> addr option) \<Rightarrow> bool \<Rightarrow> tq_call \<Rightarrow> timerQueue \<Rightarrow> timerQueue result" where
  "do_call alloc inl (CallAdd clock cb due itv) q =
     rbind (addTimer alloc inl clock cb due itv q) (\<lambda>(_, _, q). Inr q)"
| "do_call alloc inl (CallCancel clock i) q =
     rbind (cancel inl clock i q) (\<lambda>(_, q). Inr q)"

definition run_timer ::
  "((addr \<rightharpoonup> timer) \<Rightarrow> addr option) \<Rightarrow> bool \<Rightarrow> (entry \<Rightarrow> tq_call list) \<Rightarrow> entry \<Rightarrow> timerQueue
   \<Rightarrow> timerQueue result" where
  "run_timer alloc inl script e q =
     rbind (deref 172 (snd e) q) (\<lambda>_. for_each (do_call alloc inl) (script e) q)"

definition timerQueue_handleRead ::
  "((addr \<rightharpoonup> timer) \<Rightarrow> addr option) \<Rightarrow> bool \<Rightarrow> (entry \<Rightarrow> tq_call list) \<Rightarrow> timestamp
   \<Rightarrow> timestamp \<Rightarrow> timerQueue \<Rightarrow> timerQueue result" where
  "timerQueue_handleRead alloc inl script now clock q =
     check inl (Fatal 159)
    (rbind (getExpired now q) (\<lambda>(expired, q).
     rbind (for_each (run_timer alloc inl script) expired
              (q\<lparr>callingExpiredTimers := True, cancelingTimers := []\<rparr>)) (\<lambda>q.
     reset inl clock expired now (q\<lparr>callingExpiredTimers := False\<rparr>))))"

text \<open>The destructor: every timer still queued is deleted.\<close>

definition delete_TimerQueue :: "timerQueue \<Rightarrow> timerQueue result" where
  "delete_TimerQueue q = for_each (\<lambda>(w, a) q. delete_timer 104 a q) (timers q) q"

section \<open>Invariant\<close>

text \<open>
  \<open>tq_ok P q\<close>: \<open>timers\<close> and \<open>activeTimers\<close> hold the same timers, each live and filed
  under its own expiration and sequence number, and every live timer is either queued or
  in \<open>P\<close>, the addresses some other part of the program holds (a queued task, or the
  round of expired timers that is being run). So nothing leaks and nothing dangles.
\<close>

definition live :: "timerQueue \<Rightarrow> entry \<Rightarrow> bool" where
  "live q e \<longleftrightarrow> (\<exists>t. heap q (snd e) = Some t \<and> expiration t = fst e)"

definition id_of :: "(addr \<rightharpoonup> timer) \<Rightarrow> addr \<Rightarrow> activeTimer" where
  "id_of h a = (a, sequence (the (h a)))"

definition ids :: "timerQueue \<Rightarrow> entry set \<Rightarrow> activeTimer set" where
  "ids q S = (\<lambda>e. id_of (heap q) (snd e)) ` S"

definition queued :: "timerQueue \<Rightarrow> addr set" where
  "queued q = snd ` set (timers q)"

definition tq_ok :: "addr set \<Rightarrow> timerQueue \<Rightarrow> bool" where
  "tq_ok P q \<longleftrightarrow>
     oset (timers q) \<and> oset (activeTimers q)
     \<and> (\<forall>e \<in> set (timers q). live q e)
     \<and> set (activeTimers q) = ids q (set (timers q))
     \<and> dom (heap q) = queued q \<union> P \<and> queued q \<inter> P = {}
     \<and> (\<forall>a \<in> dom (heap q). a < uintptr_max)
     \<and> (\<forall>t \<in> ran (heap q). sequence t \<le> numCreated q)"

definition allocator :: "((addr \<rightharpoonup> timer) \<Rightarrow> addr option) \<Rightarrow> bool" where
  "allocator alloc \<longleftrightarrow> (\<forall>h a. alloc h = Some a \<longrightarrow> a \<notin> dom h \<and> a < uintptr_max)"

lemma tq_okD:
  assumes "tq_ok P q"
  shows "oset (timers q)" "oset (activeTimers q)" "\<And>e. e \<in> set (timers q) \<Longrightarrow> live q e"
    "set (activeTimers q) = ids q (set (timers q))" "dom (heap q) = queued q \<union> P"
    "queued q \<inter> P = {}" "\<And>a. a \<in> dom (heap q) \<Longrightarrow> a < uintptr_max"
    "\<And>a t. heap q a = Some t \<Longrightarrow> sequence t \<le> numCreated q"
  using assms by (auto simp: tq_ok_def intro: ranI)

text \<open>Two live entries with one address are the same entry.\<close>

lemma live_inj: "live q e \<Longrightarrow> live q e' \<Longrightarrow> snd e = snd e' \<Longrightarrow> e = e'"
  by (auto simp: live_def intro: prod_eqI)

lemma ids_card:
  assumes "\<And>e. e \<in> S \<Longrightarrow> live q e"
  shows "card (ids q S) = card S"
  unfolding ids_def
  by (intro card_image inj_onI live_inj[of q] assms) (auto simp: id_of_def)

lemma tq_ok_same_size: "tq_ok P q \<Longrightarrow> length (timers q) = length (activeTimers q)"
  using ids_card[of "set (timers q)" q] tq_okD[of P q]
  by (simp add: oset_def distinct_card[symmetric])

lemma same_size_ok [simp]: "tq_ok P q \<Longrightarrow> same_size l q = Inr q"
  by (simp add: same_size_def tq_ok_same_size)

lemma deref_live [simp]: "heap q a = Some t \<Longrightarrow> deref l a q = Inr t"
  by (simp add: deref_def)

lemma tq_ok_heapE:
  assumes "tq_ok P q" "a \<in> P \<union> queued q"
  obtains t where "heap q a = Some t"
  using tq_okD(5)[OF assms(1)] assms(2) by auto

lemma new_TimerQueue_ok: "tq_ok {} new_TimerQueue"
  by (simp add: tq_ok_def new_TimerQueue_def ids_def queued_def)

text \<open>Fields the invariant does not read may change.\<close>

lemma tq_ok_frame [simp]:
  "tq_ok P (q\<lparr>callingExpiredTimers := b\<rparr>) = tq_ok P q"
  "tq_ok P (q\<lparr>cancelingTimers := c\<rparr>) = tq_ok P q"
  "tq_ok P (q\<lparr>armed := r\<rparr>) = tq_ok P q"
  by (simp_all add: tq_ok_def live_def ids_def queued_def)

lemma queued_frame [simp]:
  "queued (q\<lparr>callingExpiredTimers := b\<rparr>) = queued q"
  "queued (q\<lparr>cancelingTimers := c\<rparr>) = queued q"
  "queued (q\<lparr>armed := r\<rparr>) = queued q"
  by (simp_all add: queued_def)

section \<open>Adding\<close>

lemma new_Timer_ok:
  assumes ok: "tq_ok P q" and al: "allocator alloc"
    and run: "new_Timer alloc cb due itv q = Inr (a, q')"
  shows "tq_ok (insert a P) q'" "a \<notin> dom (heap q)" "a \<notin> P" "a \<notin> queued q"
    "timers q' = timers q" "cancelingTimers q' = cancelingTimers q"
    "callingExpiredTimers q' = callingExpiredTimers q" "armed q' = armed q"
    "heap q' = (heap q)(a \<mapsto> \<lparr>callback = cb, expiration = due, interval = itv,
                repeat = dbl_positive itv, sequence = numCreated q + 1\<rparr>)"
    "numCreated q' = numCreated q + 1"
proof -
  let ?t = "\<lparr>callback = cb, expiration = due, interval = itv,
             repeat = dbl_positive itv, sequence = numCreated q + 1\<rparr>"
  from run have a: "alloc (heap q) = Some a"
    and q': "q' = q\<lparr>heap := (heap q)(a \<mapsto> ?t), numCreated := numCreated q + 1\<rparr>"
    by (auto simp: new_Timer_def Let_def split: option.splits)
  from a al show fresh: "a \<notin> dom (heap q)" by (auto simp: allocator_def)
  from a al have small: "a < uintptr_max" by (auto simp: allocator_def)
  from fresh tq_okD(5)[OF ok] show nP: "a \<notin> P" and nq: "a \<notin> queued q" by auto
  have keep: "snd e \<noteq> a" if "e \<in> set (timers q)" for e
    using that nq by (auto simp: queued_def)
  have lv: "live q' e" if "e \<in> set (timers q)" for e
    using tq_okD(3)[OF ok that] keep[OF that] by (simp add: live_def q')
  have idsq: "ids q' (set (timers q)) = ids q (set (timers q))"
    unfolding ids_def by (rule image_cong) (auto simp: id_of_def q' dest: keep)
  have seqs: "\<forall>t \<in> ran (heap q'). sequence t \<le> numCreated q'"
  proof
    fix t assume "t \<in> ran (heap q')"
    then obtain x where "heap q' x = Some t" by (auto simp: ran_def)
    then show "sequence t \<le> numCreated q'"
      using tq_okD(8)[OF ok, of x t] by (cases "x = a") (auto simp: q')
  qed
  show "tq_ok (insert a P) q'"
    unfolding tq_ok_def using tq_okD(1,2,4,5,6,7)[OF ok] lv idsq seqs nP nq small
    by (auto simp: q' queued_def)
qed (use run in \<open>auto simp: new_Timer_def Let_def split: option.splits\<close>)

lemma new_Timer_fails: "new_Timer alloc cb due itv q = Inl e \<Longrightarrow> e = Thrown 114"
  by (auto simp: new_Timer_def Let_def split: option.splits)

lemma insert_timer_ok:
  assumes ok: "tq_ok P q" and a: "a \<in> P" "heap q a = Some t"
  defines "w \<equiv> expiration t"
  shows "\<exists>q'. insert_timer True a q
      = Inr (timers q = [] \<or> w < fst (hd (timers q)), q') \<and> tq_ok (P - {a}) q'
    \<and> timers q' = insort (w, a) (timers q) \<and> heap q' = heap q
    \<and> cancelingTimers q' = cancelingTimers q \<and> numCreated q' = numCreated q
    \<and> callingExpiredTimers q' = callingExpiredTimers q \<and> armed q' = armed q"
proof -
  have nq: "a \<notin> queued q" using a tq_okD(6)[OF ok] by auto
  have n1: "(w, a) \<notin> set (timers q)" using nq by (force simp: queued_def)
  have n2: "(a, sequence t) \<notin> set (activeTimers q)"
    using nq by (auto simp: tq_okD(4)[OF ok] ids_def id_of_def queued_def)
  define q' where "q' = q\<lparr>timers := insort (w, a) (timers q),
                          activeTimers := insort (a, sequence t) (activeTimers q)\<rparr>"
  have lv: "live q' e" if "e \<in> set (timers q')" for e
    using that a tq_okD(3)[OF ok] by (auto simp: live_def q'_def set_insort_key w_def)
  have ids: "set (activeTimers q') = ids q' (set (timers q'))"
    using tq_okD(4)[OF ok] a by (auto simp: q'_def set_insort_key ids_def id_of_def)
  have ok': "tq_ok (P - {a}) q'"
    unfolding tq_ok_def
    using tq_okD[OF ok] lv ids a nq oset_insort[OF tq_okD(1)[OF ok] n1]
      oset_insort[OF tq_okD(2)[OF ok] n2]
    by (auto simp: q'_def queued_def set_insort_key ran_def)
  have "insert_timer True a q = Inr (timers q = [] \<or> w < fst (hd (timers q)), q')"
    using ok ok' a n1 n2
    by (simp add: insert_timer_def oset_insert_fresh Let_def w_def[symmetric] q'_def[symmetric])
  with ok' show ?thesis by (auto simp: q'_def)
qed

lemma addTimerInLoop_ok:
  assumes ok: "tq_ok P q" and a: "a \<in> P" "heap q a = Some t"
  shows "\<exists>q'. addTimerInLoop True clock a q = Inr q' \<and> tq_ok (P - {a}) q'
    \<and> timers q' = insort (expiration t, a) (timers q) \<and> heap q' = heap q
    \<and> cancelingTimers q' = cancelingTimers q \<and> numCreated q' = numCreated q
    \<and> callingExpiredTimers q' = callingExpiredTimers q
    \<and> armed q' = (if timers q = [] \<or> expiration t < fst (hd (timers q))
                  then Some (howMuchTimeFromNow clock (expiration t)) else armed q)"
proof -
  obtain q' where q': "insert_timer True a q
      = Inr (timers q = [] \<or> expiration t < fst (hd (timers q)), q')" "tq_ok (P - {a}) q'"
    "timers q' = insort (expiration t, a) (timers q)" "heap q' = heap q"
    "cancelingTimers q' = cancelingTimers q" "numCreated q' = numCreated q"
    "callingExpiredTimers q' = callingExpiredTimers q" "armed q' = armed q"
    using insert_timer_ok[OF assms] by blast
  from q'(4) a have t: "heap q' a = Some t" by simp
  show ?thesis
    using q' by (simp add: addTimerInLoop_def deref_live[OF t] resetTimerfd_def)
qed

lemma addTimer_ok:
  assumes ok: "tq_ok P q" and al: "allocator alloc"
  shows "addTimer alloc True clock cb due itv q = Inl (Thrown 114) \<or>
    (\<exists>a q'. addTimer alloc True clock cb due itv q
        = Inr (\<lparr>timer_ptr = a, id_sequence = numCreated q + 1\<rparr>, None, q')
      \<and> tq_ok P q' \<and> a \<notin> dom (heap q) \<and> timers q' = insort (due, a) (timers q)
      \<and> heap q' = (heap q)(a \<mapsto> \<lparr>callback = cb, expiration = due, interval = itv,
                       repeat = dbl_positive itv, sequence = numCreated q + 1\<rparr>)
      \<and> cancelingTimers q' = cancelingTimers q \<and> numCreated q' = numCreated q + 1
      \<and> callingExpiredTimers q' = callingExpiredTimers q)"
proof (cases "new_Timer alloc cb due itv q")
  case (Inl e)
  then show ?thesis using new_Timer_fails[OF Inl] by (simp add: addTimer_def)
next
  case (Inr r)
  obtain a q1 where r: "r = (a, q1)" by (cases r)
  note n = new_Timer_ok[OF ok al Inr[unfolded r]]
  let ?t = "\<lparr>callback = cb, expiration = due, interval = itv,
             repeat = dbl_positive itv, sequence = numCreated q + 1\<rparr>"
  have t1: "heap q1 a = Some ?t" by (simp add: n(9))
  obtain q2 where q2: "addTimerInLoop True clock a q1 = Inr q2" "tq_ok (insert a P - {a}) q2"
    "timers q2 = insort (due, a) (timers q1)" "heap q2 = heap q1"
    "cancelingTimers q2 = cancelingTimers q1" "numCreated q2 = numCreated q1"
    "callingExpiredTimers q2 = callingExpiredTimers q1"
    using addTimerInLoop_ok[OF n(1) _ t1] by auto
  have P: "insert a P - {a} = P" using n(3) by auto
  have t2: "heap q2 a = Some ?t" by (simp add: q2(4) t1)
  have "addTimer alloc True clock cb due itv q
      = Inr (\<lparr>timer_ptr = a, id_sequence = numCreated q + 1\<rparr>, None, q2)"
    by (simp add: addTimer_def Inr r runInLoop_task_def q2(1) deref_live[OF t2])
  with q2 n P show ?thesis by auto
qed

section \<open>Cancelling\<close>

lemma cancel_active_ok:
  assumes ok: "tq_ok P q" and act: "(timer_ptr i, id_sequence i) \<in> set (activeTimers q)"
  shows "\<exists>t q'. cancelInLoop True i q = Inr q' \<and> tq_ok P q'
    \<and> heap q (timer_ptr i) = Some t \<and> sequence t = id_sequence i
    \<and> timers q' = remove1 (expiration t, timer_ptr i) (timers q)
    \<and> heap q' = (heap q)(timer_ptr i := None) \<and> timer_ptr i \<notin> P
    \<and> cancelingTimers q' = cancelingTimers q \<and> numCreated q' = numCreated q
    \<and> callingExpiredTimers q' = callingExpiredTimers q \<and> armed q' = armed q"
proof -
  let ?a = "timer_ptr i" and ?tm = "(timer_ptr i, id_sequence i)"
  from act obtain e where e: "e \<in> set (timers q)" "snd e = ?a"
      "sequence (the (heap q ?a)) = id_sequence i"
    by (auto simp: tq_okD(4)[OF ok] ids_def id_of_def)
  obtain t where t: "heap q ?a = Some t" "expiration t = fst e"
    using tq_okD(3)[OF ok e(1)] e(2) by (auto simp: live_def)
  have e': "(expiration t, ?a) = e" using e t by (simp add: prod_eq_iff)
  have nP: "?a \<notin> P" using e tq_okD(6)[OF ok] by (force simp: queued_def)
  define q' where "q' = q\<lparr>timers := remove1 e (timers q), heap := (heap q)(?a := None),
                          activeTimers := remove1 ?tm (activeTimers q)\<rparr>"
  have ts': "set (timers q') = set (timers q) - {e}"
    by (simp add: q'_def set_remove1_oset tq_okD(1)[OF ok])
  have keep: "snd x \<noteq> ?a" if "x \<in> set (timers q')" for x
    using that ts' e live_inj[OF tq_okD(3)[OF ok, of x] tq_okD(3)[OF ok e(1)]] by auto
  have lv: "live q' x" if "x \<in> set (timers q')" for x
    using that ts' keep[OF that] tq_okD(3)[OF ok, of x] by (simp add: live_def q'_def)
  have uniq: "snd x \<noteq> snd e" if "x \<in> set (timers q) - {e}" for x
    using keep[of x] that e(2) ts' by simp
  have qd: "queued q' = queued q - {?a}"
    using image_remove_unique[OF e(1), of snd] uniq by (simp add: queued_def ts' e(2))
  have same: "id_of (heap q') (snd x) = id_of (heap q) (snd x)" if "x \<in> set (timers q')" for x
    using keep[OF that] by (simp add: id_of_def q'_def)
  have "set (activeTimers q') = ids q (set (timers q)) - {?tm}"
    by (simp add: q'_def set_remove1_oset tq_okD(2,4)[OF ok])
  also have "\<dots> = ids q (set (timers q'))"
    using image_remove_unique[OF e(1), of "\<lambda>x. id_of (heap q) (snd x)"] uniq e(2,3)
    by (simp add: ids_def ts' id_of_def)
  also have "\<dots> = ids q' (set (timers q'))"
    using same by (simp add: ids_def)
  finally have act': "set (activeTimers q') = ids q' (set (timers q'))" .
  have ok': "tq_ok P q'"
    unfolding tq_ok_def
    using tq_okD[OF ok] lv act' qd nP oset_remove1[OF tq_okD(1)[OF ok], of e]
      oset_remove1[OF tq_okD(2)[OF ok], of ?tm]
    by (auto simp: q'_def ran_def split: if_splits)
  have "cancelInLoop True i q = Inr q'"
    using ok ok' act t e(1) e'
    by (simp add: cancelInLoop_def Let_def oset_erase_present delete_timer_def q'_def[symmetric]
        domIff)
  with ok' t e e' nP show ?thesis by (auto simp: q'_def)
qed

lemma cancel_inactive_ok:
  assumes ok: "tq_ok P q" and act: "(timer_ptr i, id_sequence i) \<notin> set (activeTimers q)"
  shows "cancelInLoop True i q
    = Inr (if callingExpiredTimers q
           then q\<lparr>cancelingTimers := fst (oset_insert (timer_ptr i, id_sequence i) (cancelingTimers q))\<rparr>
           else q)"
  using ok act by (simp add: cancelInLoop_def Let_def)

lemma set_oset_insert [simp]: "set (fst (oset_insert x xs)) = insert x (set xs)"
  by (auto simp: oset_insert_def set_insort_key)

section \<open>What callbacks may do\<close>

text \<open>
  The frame of a callback that runs while the addresses \<open>P\<close> are held elsewhere and makes
  calls that cancel the ids in \<open>C\<close>: the held timers are untouched, and of their ids
  exactly those in \<open>C\<close> are remembered as cancelled.
\<close>

fun cancels :: "tq_call \<Rightarrow> activeTimer set" where
  "cancels (CallAdd clock cb due itv) = {}"
| "cancels (CallCancel clock i) = {(timer_ptr i, id_sequence i)}"

definition callback_frame :: "addr set \<Rightarrow> activeTimer set \<Rightarrow> timerQueue \<Rightarrow> timerQueue \<Rightarrow> bool" where
  "callback_frame P C q q' \<longleftrightarrow>
     (\<forall>a \<in> P. heap q' a = heap q a) \<and> callingExpiredTimers q' = callingExpiredTimers q
     \<and> (callingExpiredTimers q \<longrightarrow>
         (\<forall>a \<in> P. \<forall>n. (a, n) \<in> set (cancelingTimers q')
             \<longleftrightarrow> (a, n) \<in> set (cancelingTimers q) \<or> (a, n) \<in> C))"

lemma callback_frame_refl: "callback_frame P {} q q"
  by (simp add: callback_frame_def)

lemma callback_frame_trans:
  "callback_frame P C q q' \<Longrightarrow> callback_frame P D q' q'' \<Longrightarrow> callback_frame P (C \<union> D) q q''"
  by (auto simp: callback_frame_def)

lemma do_call_ok:
  assumes ok: "tq_ok P q" and al: "allocator alloc"
  shows "do_call alloc True c q = Inl (Thrown 114) \<or>
    (\<exists>q'. do_call alloc True c q = Inr q' \<and> tq_ok P q' \<and> callback_frame P (cancels c) q q')"
proof (cases c)
  case (CallAdd clock cb due itv)
  have P: "b \<in> dom (heap q)" if "b \<in> P" for b using tq_okD(5)[OF ok] that by simp
  from addTimer_ok[OF ok al, of clock cb due itv] show ?thesis
  proof (elim disjE exE conjE)
    fix a q' assume q': "addTimer alloc True clock cb due itv q
        = Inr (\<lparr>timer_ptr = a, id_sequence = numCreated q + 1\<rparr>, None, q')"
      and rest: "tq_ok P q'" "a \<notin> dom (heap q)" "heap q' = (heap q)(a \<mapsto> \<lparr>callback = cb,
        expiration = due, interval = itv, repeat = dbl_positive itv, sequence = numCreated q + 1\<rparr>)"
        "cancelingTimers q' = cancelingTimers q" "callingExpiredTimers q' = callingExpiredTimers q"
    have "callback_frame P {} q q'"
      unfolding callback_frame_def using rest P by auto
    with q' rest(1) show ?thesis by (simp add: CallAdd)
  qed (simp add: CallAdd)
next
  case (CallCancel clock i)
  show ?thesis
  proof (cases "(timer_ptr i, id_sequence i) \<in> set (activeTimers q)")
    case True
    from cancel_active_ok[OF ok True] CallCancel show ?thesis
      by (auto simp: cancel_def runInLoop_task_def callback_frame_def)
  next
    case False
    from cancel_inactive_ok[OF ok False] CallCancel ok show ?thesis
      by (auto simp: cancel_def runInLoop_task_def callback_frame_def)
  qed
qed

lemma do_calls_ok:
  assumes "tq_ok P q" and al: "allocator alloc"
  shows "for_each (do_call alloc True) cs q = Inl (Thrown 114) \<or>
    (\<exists>q'. for_each (do_call alloc True) cs q = Inr q' \<and> tq_ok P q'
       \<and> callback_frame P (\<Union>(cancels ` set cs)) q q')"
  using assms(1)
proof (induction cs arbitrary: q)
  case Nil
  then show ?case by (simp add: callback_frame_refl)
next
  case (Cons c cs)
  from do_call_ok[OF Cons.prems al, of c] show ?case
  proof (elim disjE exE conjE)
    fix q' assume q': "do_call alloc True c q = Inr q'" "tq_ok P q'"
      "callback_frame P (cancels c) q q'"
    from Cons.IH[OF q'(2)] q' show ?thesis by (auto intro: callback_frame_trans)
  qed simp
qed

text \<open>The whole round of expired timers: each is live when it runs.\<close>

lemma run_timers_ok:
  assumes "tq_ok P q" and al: "allocator alloc" and "snd ` set es \<subseteq> P"
  shows "for_each (run_timer alloc True script) es q = Inl (Thrown 114) \<or>
    (\<exists>q'. for_each (run_timer alloc True script) es q = Inr q' \<and> tq_ok P q'
       \<and> callback_frame P (\<Union>e \<in> set es. \<Union>(cancels ` set (script e))) q q')"
  using assms(1,3)
proof (induction es arbitrary: q)
  case Nil
  then show ?case by (simp add: callback_frame_refl)
next
  case (Cons e es)
  from Cons.prems(2) have "snd e \<in> P \<union> queued q" by simp
  from tq_ok_heapE[OF Cons.prems(1) this] obtain t where t: "heap q (snd e) = Some t" .
  then have run: "run_timer alloc True script e q = for_each (do_call alloc True) (script e) q"
    by (simp add: run_timer_def)
  from do_calls_ok[OF Cons.prems(1) al, of "script e"] show ?case
  proof (elim disjE exE conjE)
    fix q' assume q': "for_each (do_call alloc True) (script e) q = Inr q'" "tq_ok P q'"
      "callback_frame P (\<Union>(cancels ` set (script e))) q q'"
    from Cons.IH[OF q'(2)] Cons.prems(2) q' run show ?thesis
      by (auto intro: callback_frame_trans)
  qed (simp add: run)
qed

section \<open>Expiry\<close>

definition due_by :: "timestamp \<Rightarrow> timerQueue \<Rightarrow> entry list" where
  "due_by now q = filter (\<lambda>e. fst e \<le> now) (timers q)"

definition due_after :: "timestamp \<Rightarrow> timerQueue \<Rightarrow> entry list" where
  "due_after now q = filter (\<lambda>e. now < fst e) (timers q)"

text \<open>The sentry, the largest pair with first component \<open>now\<close>, splits off what is due.\<close>

lemma sentry_splits:
  assumes ok: "tq_ok P q"
  shows "below_bound (now, uintptr_max) (timers q) = due_by now q"
    and "lower_bound (now, uintptr_max) (timers q) = due_after now q"
proof -
  have lt: "e < (now, uintptr_max) \<longleftrightarrow> fst e \<le> now" if "e \<in> set (timers q)" for e
  proof -
    have "snd e < uintptr_max"
      using that tq_okD(5,7)[OF ok] by (auto simp: queued_def)
    then show ?thesis by (cases e) auto
  qed
  have srt: "sorted (timers q)" using tq_okD(1)[OF ok] by (simp add: oset_def)
  show "below_bound (now, uintptr_max) (timers q) = due_by now q"
    unfolding below_bound_filter[OF srt] due_by_def by (rule filter_cong) (auto simp: lt)
  show "lower_bound (now, uintptr_max) (timers q) = due_after now q"
    unfolding lower_bound_filter[OF srt] due_after_def by (rule filter_cong) (auto simp: lt)
qed

lemma set_due: "set (timers q) = set (due_by now q) \<union> set (due_after now q)"
  by (auto simp: due_by_def due_after_def)

lemma oset_filter: "oset xs \<Longrightarrow> oset (filter P xs)"
  by (simp add: oset_def sorted_wrt_filter)

lemma tq_ok_distinct_addrs:
  assumes ok: "tq_ok P q" and sub: "set es \<subseteq> set (timers q)" and d: "distinct es"
  shows "distinct (map snd es)"
proof -
  have "inj_on snd (set es)"
    by (intro inj_onI live_inj[of q] tq_okD(3)[OF ok]) (use sub in auto)
  with d show ?thesis by (simp add: distinct_map)
qed

lemma unfile_loop:
  assumes "distinct (map snd xs)" "\<And>e. e \<in> set xs \<Longrightarrow> live q e"
    and "oset (activeTimers q)" "set (activeTimers q) = ids q (set xs) \<union> A"
    and "ids q (set xs) \<inter> A = {}"
  shows "\<exists>act. for_each unfile xs q = Inr (q\<lparr>activeTimers := act\<rparr>) \<and> oset act \<and> set act = A"
  using assms
proof (induction xs arbitrary: q)
  case Nil
  then show ?case by (intro exI[of _ "activeTimers q"]) (simp add: ids_def)
next
  case (Cons e xs)
  let ?id = "id_of (heap q) (snd e)"
  define q1 where "q1 = q\<lparr>activeTimers := remove1 ?id (activeTimers q)\<rparr>"
  from Cons.prems(2)[of e] obtain t where t: "heap q (snd e) = Some t" by (auto simp: live_def)
  have id: "?id = (snd e, sequence t)" by (simp add: id_of_def t)
  have mem: "?id \<in> set (activeTimers q)" using Cons.prems(4) by (simp add: ids_def)
  have run: "unfile e q = Inr q1"
    using mem by (simp add: unfile_def t id oset_erase_present q1_def)
  have ids1: "ids q1 S = ids q S" for S by (simp add: ids_def q1_def)
  have "?id \<notin> ids q (set xs)"
    using Cons.prems(1) by (auto simp: ids_def id_of_def)
  moreover have "?id \<notin> A" using Cons.prems(5) by (auto simp: ids_def)
  ultimately have act1: "set (activeTimers q1) = ids q1 (set xs) \<union> A"
    unfolding ids1 using Cons.prems(3,4) by (auto simp: q1_def set_remove1_oset ids_def)
  have "ids q1 (set xs) \<inter> A = {}" using Cons.prems(5) unfolding ids1 by (auto simp: ids_def)
  moreover have "live q1 x" if "x \<in> set xs" for x
    using Cons.prems(2)[of x] that by (simp add: live_def q1_def)
  ultimately obtain act where "for_each unfile xs q1 = Inr (q1\<lparr>activeTimers := act\<rparr>)"
      "oset act" "set act = A"
    using Cons.IH[of q1] Cons.prems(1,3) act1 by (auto simp: q1_def oset_remove1)
  with run show ?case by (auto simp: q1_def)
qed

lemma getExpired_ok:
  assumes ok: "tq_ok P q"
  shows "\<exists>q'. getExpired now q = Inr (due_by now q, q')
    \<and> tq_ok (P \<union> snd ` set (due_by now q)) q' \<and> timers q' = due_after now q
    \<and> heap q' = heap q \<and> distinct (map snd (due_by now q)) \<and> snd ` set (due_by now q) \<inter> P = {}
    \<and> callingExpiredTimers q' = callingExpiredTimers q \<and> numCreated q' = numCreated q
    \<and> armed q' = armed q"
proof -
  let ?E = "due_by now q" and ?R = "due_after now q"
  define q1 where "q1 = q\<lparr>timers := ?R\<rparr>"
  have sub: "set ?E \<subseteq> set (timers q)" "set ?R \<subseteq> set (timers q)" by (auto simp: set_due[of q now])
  have oE: "oset ?E" "oset ?R"
    using tq_okD(1)[OF ok] by (auto simp: due_by_def due_after_def oset_filter)
  have dE: "distinct (map snd ?E)"
    using tq_ok_distinct_addrs[OF ok sub(1)] oE by (simp add: oset_def)
  have apart: "snd e \<noteq> snd r" if "e \<in> set ?E" "r \<in> set ?R" for e r
  proof
    assume "snd e = snd r"
    then have "e = r" using that sub by (intro live_inj[of q] tq_okD(3)[OF ok]) auto
    with that show False by (auto simp: due_by_def due_after_def)
  qed
  have ids1: "ids q1 S = ids q S" for S by (simp add: ids_def q1_def)
  have act: "set (activeTimers q1) = ids q1 (set ?E) \<union> ids q (set ?R)"
    unfolding ids1 using tq_okD(4)[OF ok] by (simp add: q1_def set_due[of q now] ids_def image_Un)
  have disj: "ids q1 (set ?E) \<inter> ids q (set ?R) = {}"
    unfolding ids1 by (auto simp: ids_def id_of_def dest: apart)
  have lv: "live q1 e" if "e \<in> set ?E" for e
    using tq_okD(3)[OF ok, of e] that sub by (auto simp: live_def q1_def)
  obtain a where a: "for_each unfile ?E q1 = Inr (q1\<lparr>activeTimers := a\<rparr>)" "oset a"
      "set a = ids q (set ?R)"
    using unfile_loop[OF dE lv _ act disj] tq_okD(2)[OF ok] by (auto simp: q1_def)
  define q' where "q' = q1\<lparr>activeTimers := a\<rparr>"
  have qd: "queued q = queued q' \<union> snd ` set ?E"
    by (auto simp: queued_def q'_def q1_def set_due[of q now] image_Un)
  have disjq: "queued q' \<inter> snd ` set ?E = {}"
    by (auto simp: queued_def q'_def q1_def dest: apart)
  have ok': "tq_ok (P \<union> snd ` set ?E) q'"
    unfolding tq_ok_def
    using tq_okD[OF ok] a oE sub qd disjq
    by (auto simp: q'_def q1_def live_def ids_def queued_def ran_def)
  have asrt: "?R = [] \<or> now < fst (hd ?R)"
    by (cases ?R) (auto simp: due_after_def filter_eq_Cons_iff)
  have "getExpired now q = Inr (?E, q')"
    using ok ok' a(1) asrt
    unfolding getExpired_def by (simp add: sentry_splits[OF ok] q1_def[symmetric] q'_def Let_def)
  moreover have "snd ` set ?E \<inter> P = {}" using tq_okD(6)[OF ok] qd by auto
  ultimately show ?thesis using ok' dE by (auto simp: q'_def q1_def)
qed

section \<open>Resetting the expired timers\<close>

definition restarted :: "timestamp \<Rightarrow> timer \<Rightarrow> timer" where
  "restarted now t = t\<lparr>expiration := now + delta_of (interval t)\<rparr>"

definition restarts :: "timerQueue \<Rightarrow> addr \<Rightarrow> bool" where
  "restarts q a \<longleftrightarrow> (case heap q a of None \<Rightarrow> False
     | Some t \<Rightarrow> repeat t \<and> (a, sequence t) \<notin> set (cancelingTimers q))"

text \<open>No repeating timer overflows the clock when it is restarted at \<open>now\<close>.\<close>

definition can_restart :: "timestamp \<Rightarrow> timer \<Rightarrow> bool" where
  "can_restart now t \<longleftrightarrow>
     repeat t \<longrightarrow> int64 (delta_of (interval t)) \<and> int64 (now + delta_of (interval t))"

lemma heap_update_ok:
  assumes ok: "tq_ok P q" and a: "a \<in> P" "heap q a = Some t" "sequence t' = sequence t"
  shows "tq_ok P (q\<lparr>heap := (heap q)(a \<mapsto> t')\<rparr>)"
proof -
  let ?q = "q\<lparr>heap := (heap q)(a \<mapsto> t')\<rparr>"
  have ne: "snd e \<noteq> a" if "e \<in> set (timers q)" for e
    using that a(1) tq_okD(6)[OF ok] by (auto simp: queued_def)
  have lv: "live ?q e" if "e \<in> set (timers q)" for e
    using tq_okD(3)[OF ok that] ne[OF that] by (simp add: live_def)
  have ids: "ids ?q (set (timers q)) = ids q (set (timers q))"
    unfolding ids_def by (rule image_cong) (auto simp: id_of_def dest: ne)
  show ?thesis
    unfolding tq_ok_def using tq_okD[OF ok] lv ids a
    by (auto simp: queued_def ran_def split: if_splits)
qed

lemma delete_ok:
  assumes ok: "tq_ok P q" and a: "a \<in> P"
  shows "delete_timer l a q = Inr (q\<lparr>heap := (heap q)(a := None)\<rparr>)"
    and "tq_ok (P - {a}) (q\<lparr>heap := (heap q)(a := None)\<rparr>)"
proof -
  let ?q = "q\<lparr>heap := (heap q)(a := None)\<rparr>"
  have ne: "snd e \<noteq> a" if "e \<in> set (timers q)" for e
    using that a tq_okD(6)[OF ok] by (auto simp: queued_def)
  have lv: "live ?q e" if "e \<in> set (timers q)" for e
    using tq_okD(3)[OF ok that] ne[OF that] by (simp add: live_def)
  have ids: "ids ?q (set (timers q)) = ids q (set (timers q))"
    unfolding ids_def by (rule image_cong) (auto simp: id_of_def dest: ne)
  have "a \<notin> queued q" using a tq_okD(6)[OF ok] by auto
  then show "tq_ok (P - {a}) ?q"
    unfolding tq_ok_def using tq_okD[OF ok] lv ids
    by (auto simp: queued_def ran_def split: if_splits)
  show "delete_timer l a q = Inr ?q"
    using a tq_okD(5)[OF ok] by (simp add: delete_timer_def)
qed

lemma reset_entry_ok:
  assumes ok: "tq_ok P q" and a: "snd e \<in> P" "heap q (snd e) = Some t" and can: "can_restart now t"
  shows "\<exists>q'. reset_entry True now e q = Inr q' \<and> tq_ok (P - {snd e}) q'
    \<and> heap q' = (heap q)(snd e := if restarts q (snd e) then Some (restarted now t) else None)
    \<and> set (timers q') = set (timers q) \<union>
        (if restarts q (snd e) then {(expiration (restarted now t), snd e)} else {})
    \<and> cancelingTimers q' = cancelingTimers q
    \<and> callingExpiredTimers q' = callingExpiredTimers q"
proof (cases "restarts q (snd e)")
  case True
  let ?t = "restarted now t" and ?a = "snd e"
  let ?q = "q\<lparr>heap := (heap q)(?a \<mapsto> ?t)\<rparr>"
  from True a have rep: "repeat t" "(?a, sequence t) \<notin> set (cancelingTimers q)"
    by (auto simp: restarts_def)
  have rs: "restart now t = Inr ?t"
    using rep can by (simp add: restart_def can_restart_def addTime_nowrap restarted_def)
  have ok1: "tq_ok P ?q" by (rule heap_update_ok[OF ok a]) (simp add: restarted_def)
  obtain q' where q': "insert_timer True ?a ?q
      = Inr (timers ?q = [] \<or> expiration ?t < fst (hd (timers ?q)), q')" "tq_ok (P - {?a}) q'"
    "timers q' = insort (expiration ?t, ?a) (timers ?q)" "heap q' = heap ?q"
    "cancelingTimers q' = cancelingTimers ?q" "callingExpiredTimers q' = callingExpiredTimers ?q"
    using insert_timer_ok[OF ok1 a(1), of ?t] by auto
  have "reset_entry True now e q = Inr q'"
    using a rep rs q'(1) by (simp add: reset_entry_def)
  with q' True show ?thesis by (auto simp: set_insort_key)
next
  case False
  with a have "reset_entry True now e q = delete_timer 233 (snd e) q"
    by (auto simp: reset_entry_def restarts_def)
  with delete_ok(1)[OF ok a(1), of 233] delete_ok(2)[OF ok a(1)] False show ?thesis by simp
qed

lemma reset_loop_ok:
  assumes "tq_ok P q" "snd ` set es \<subseteq> P" "distinct (map snd es)"
    and "\<And>e t. e \<in> set es \<Longrightarrow> heap q (snd e) = Some t \<Longrightarrow> can_restart now t"
  shows "\<exists>q'. for_each (reset_entry True now) es q = Inr q' \<and> tq_ok (P - snd ` set es) q'
    \<and> (\<forall>a. heap q' a = (if a \<in> snd ` set es
          then if restarts q a then map_option (restarted now) (heap q a) else None
          else heap q a))
    \<and> callingExpiredTimers q' = callingExpiredTimers q"
  using assms
proof (induction es arbitrary: P q)
  case Nil
  then show ?case by simp
next
  case (Cons e es)
  have aP: "snd e \<in> P" using Cons.prems(2) by simp
  then obtain t where t: "heap q (snd e) = Some t"
    using tq_ok_heapE[OF Cons.prems(1), of "snd e"] by auto
  have can: "can_restart now t" using Cons.prems(4)[of e t] t by simp
  obtain q1 where q1: "reset_entry True now e q = Inr q1" "tq_ok (P - {snd e}) q1"
    "heap q1 = (heap q)(snd e := if restarts q (snd e) then Some (restarted now t) else None)"
    "cancelingTimers q1 = cancelingTimers q" "callingExpiredTimers q1 = callingExpiredTimers q"
    using reset_entry_ok[OF Cons.prems(1) aP t can] by blast
  have ne: "snd x \<noteq> snd e" if "x \<in> set es" for x
    using that Cons.prems(3) by (auto simp: image_iff)
  have same: "heap q1 (snd x) = heap q (snd x)" if "x \<in> set es" for x
    using ne[OF that] by (simp add: q1(3))
  have sub: "snd ` set es \<subseteq> P - {snd e}" using Cons.prems(2) ne by auto
  obtain q2 where q2: "for_each (reset_entry True now) es q1 = Inr q2"
    "tq_ok (P - {snd e} - snd ` set es) q2"
    "\<forall>a. heap q2 a = (if a \<in> snd ` set es
       then if restarts q1 a then map_option (restarted now) (heap q1 a) else None else heap q1 a)"
    "callingExpiredTimers q2 = callingExpiredTimers q1"
    using Cons.IH[OF q1(2) sub] Cons.prems(3,4) same by auto
  have rst: "restarts q1 (snd x) = restarts q (snd x)" if "x \<in> set es" for x
    unfolding restarts_def same[OF that] q1(4) ..
  have hp: "heap q2 a = (if a \<in> snd ` set (e # es)
      then if restarts q a then map_option (restarted now) (heap q a) else None else heap q a)" for a
  proof (cases "a \<in> snd ` set es")
    case True
    then obtain x where "x \<in> set es" "a = snd x" by blast
    with True q2(3) same rst show ?thesis by simp
  next
    case False
    with q2(3) q1(3) t show ?thesis by simp
  qed
  have "P - {snd e} - snd ` set es = P - snd ` set (e # es)" by auto
  with q1(1,5) q2(1,2,4) hp show ?case by auto
qed

lemma hd_timers_live:
  assumes "tq_ok P q" "timers q \<noteq> []"
  shows "\<exists>t. heap q (snd (hd (timers q))) = Some t \<and> expiration t = fst (hd (timers q))"
  using tq_okD(3)[OF assms(1), of "hd (timers q)"] assms(2) by (simp add: live_def)

lemma reset_ok:
  assumes "tq_ok P q" "snd ` set es \<subseteq> P" "distinct (map snd es)"
    and "\<And>e t. e \<in> set es \<Longrightarrow> heap q (snd e) = Some t \<Longrightarrow> can_restart now t"
  shows "\<exists>q'. reset True clock es now q = Inr q' \<and> tq_ok (P - snd ` set es) q'
    \<and> (\<forall>a. heap q' a = (if a \<in> snd ` set es
          then if restarts q a then map_option (restarted now) (heap q a) else None
          else heap q a))
    \<and> callingExpiredTimers q' = callingExpiredTimers q
    \<and> (timers q' \<noteq> [] \<and> valid (fst (hd (timers q')))
         \<longrightarrow> armed q' = Some (howMuchTimeFromNow clock (fst (hd (timers q')))))"
proof -
  obtain q1 where q1: "for_each (reset_entry True now) es q = Inr q1" "tq_ok (P - snd ` set es) q1"
    "\<forall>a. heap q1 a = (if a \<in> snd ` set es
          then if restarts q a then map_option (restarted now) (heap q a) else None
          else heap q a)" "callingExpiredTimers q1 = callingExpiredTimers q"
    using reset_loop_ok[OF assms(1-3), of now] assms(4) by auto
  show ?thesis
  proof (cases "timers q1 = []")
    case True
    with q1 show ?thesis by (simp add: reset_def valid_def invalid_def)
  next
    case False
    from hd_timers_live[OF q1(2) False] obtain t where
      "heap q1 (snd (hd (timers q1))) = Some t" "expiration t = fst (hd (timers q1))" by blast
    with q1 False show ?thesis by (simp add: reset_def resetTimerfd_def)
  qed
qed

section \<open>The whole handler\<close>

text \<open>The ids that the callbacks of one round cancel.\<close>

definition cancelled_in :: "(entry \<Rightarrow> tq_call list) \<Rightarrow> entry list \<Rightarrow> activeTimer set" where
  "cancelled_in script es = (\<Union>e \<in> set es. \<Union>(cancels ` set (script e)))"

text \<open>C1: Handling an expiry is safe and exact whatever the callbacks do. In a well-formed
  queue (every live timer queued or held by \<open>P\<close>), \<open>timerQueue_handleRead\<close> with any script of
  \<open>addTimer\<close> and \<open>cancel\<close> calls made by the expiring callbacks never fails an assertion,
  never touches a freed timer and leaks none: unless \<open>operator new\<close> throws it ends in a
  well-formed queue. An expired timer is re-queued, due one interval after \<open>now\<close>, exactly
  if it repeats and no callback of the round cancelled it, itself included; otherwise it is
  freed. The timer descriptor ends up armed for the earliest queued expiration.\<close>

theorem handleRead_safe:
  assumes ok: "tq_ok P q" and al: "allocator alloc"
    and can: "\<And>e t. e \<in> set (due_by now q) \<Longrightarrow> heap q (snd e) = Some t \<Longrightarrow> can_restart now t"
  shows "timerQueue_handleRead alloc True script now clock q = Inl (Thrown 114) \<or>
    (\<exists>q'. timerQueue_handleRead alloc True script now clock q = Inr q' \<and> tq_ok P q'
      \<and> \<not> callingExpiredTimers q'
      \<and> (\<forall>e t. e \<in> set (due_by now q) \<and> heap q (snd e) = Some t \<longrightarrow>
          heap q' (snd e)
          = (if repeat t \<and> (snd e, sequence t) \<notin> cancelled_in script (due_by now q)
             then Some (restarted now t) else None))
      \<and> (timers q' \<noteq> [] \<and> valid (fst (hd (timers q')))
          \<longrightarrow> armed q' = Some (howMuchTimeFromNow clock (fst (hd (timers q'))))))"
proof -
  let ?E = "due_by now q" and ?A = "snd ` set (due_by now q)"
  obtain q1 where q1: "getExpired now q = Inr (?E, q1)" "tq_ok (P \<union> ?A) q1" "heap q1 = heap q"
      "distinct (map snd ?E)" "?A \<inter> P = {}"
    using getExpired_ok[OF ok, of now] by blast
  define q2 where "q2 = q1\<lparr>callingExpiredTimers := True, cancelingTimers := []\<rparr>"
  have ok2: "tq_ok (P \<union> ?A) q2" using q1(2) by (simp add: q2_def)
  from run_timers_ok[OF ok2 al Un_upper2, of script] show ?thesis
  proof (elim disjE exE conjE)
    fix q3 assume q3: "for_each (run_timer alloc True script) ?E q2 = Inr q3" "tq_ok (P \<union> ?A) q3"
      and fr: "callback_frame (P \<union> ?A) (\<Union>e \<in> set ?E. \<Union>(cancels ` set (script e))) q2 q3"
    define q4 where "q4 = q3\<lparr>callingExpiredTimers := False\<rparr>"
    have ok4: "tq_ok (P \<union> ?A) q4" using q3(2) by (simp add: q4_def)
    have hp: "heap q4 a = heap q a" if "a \<in> ?A" for a
      using fr that q1(3) by (simp add: callback_frame_def q4_def q2_def)
    have cn: "(a, n) \<in> set (cancelingTimers q4) \<longleftrightarrow> (a, n) \<in> cancelled_in script ?E"
      if "a \<in> ?A" for a n
      using fr that by (simp add: callback_frame_def q4_def q2_def cancelled_in_def)
    have can4: "can_restart now t" if "e \<in> set ?E" "heap q4 (snd e) = Some t" for e t
      using can[OF that(1)] that hp[of "snd e"] by simp
    obtain q' where q': "reset True clock ?E now q4 = Inr q'" "tq_ok (P \<union> ?A - ?A) q'"
      "\<forall>a. heap q' a = (if a \<in> ?A
          then if restarts q4 a then map_option (restarted now) (heap q4 a) else None
          else heap q4 a)"
      "callingExpiredTimers q' = callingExpiredTimers q4"
      "timers q' \<noteq> [] \<and> valid (fst (hd (timers q')))
         \<longrightarrow> armed q' = Some (howMuchTimeFromNow clock (fst (hd (timers q'))))"
      using reset_ok[OF ok4 _ q1(4), of now clock] can4 by auto
    have "P \<union> ?A - ?A = P" using q1(5) by auto
    then have ok': "tq_ok P q'" using q'(2) by simp
    have res: "heap q' (snd e) = (if repeat t \<and> (snd e, sequence t) \<notin> cancelled_in script ?E
        then Some (restarted now t) else None)"
      if "e \<in> set ?E" "heap q (snd e) = Some t" for e t
    proof -
      have a: "snd e \<in> ?A" using that(1) by simp
      show ?thesis
        using q'(3)[rule_format, of "snd e"] a hp[OF a] that(2) cn[OF a]
        by (simp add: restarts_def)
    qed
    have "timerQueue_handleRead alloc True script now clock q = Inr q'"
      using q1(1) q3(1) q'(1) by (simp add: timerQueue_handleRead_def q2_def q4_def)
    with ok' res q'(4,5) show ?thesis by (auto simp: q4_def)
  next
    assume "for_each (run_timer alloc True script) ?E q2 = Inl (Thrown 114)"
    with q1(1) show ?thesis by (simp add: timerQueue_handleRead_def q2_def)
  qed
qed


definition wit_alloc :: "(addr \<rightharpoonup> timer) \<Rightarrow> addr option" where
  "wit_alloc h = find (\<lambda>a. h a = None) [1, 2, 3, 4]"

definition wit_once :: timer where
  "wit_once = \<lparr>callback = 7, expiration = 5, interval = Dbl 0 0, repeat = False, sequence = 1\<rparr>"

definition wit_every :: timer where
  "wit_every = \<lparr>callback = 8, expiration = 6, interval = Dbl 1 0, repeat = True, sequence = 2\<rparr>"

definition wit_queue :: timerQueue where
  "wit_queue = \<lparr>timers = [(5, 1), (6, 2)], callingExpiredTimers = False,
     activeTimers = [(1, 1), (2, 2)], cancelingTimers = [],
     heap = [1 \<mapsto> wit_once, 2 \<mapsto> wit_every], numCreated = 2, armed = None\<rparr>"

definition wit_script :: "entry \<Rightarrow> tq_call list" where
  "wit_script e = (if snd e = 1 then [CallAdd 10 9 20 (Dbl 0 0)] else [])"

lemma wit_allocator: "allocator wit_alloc"
  by (auto simp: allocator_def wit_alloc_def uintptr_max_def split: if_splits)

lemma wit_queue_ok: "tq_ok {} wit_queue"
  by (auto simp: tq_ok_def wit_queue_def wit_once_def wit_every_def oset_def live_def ids_def
      id_of_def queued_def ran_def uintptr_max_def split: if_splits)

lemma wit_delta: "delta_of (Dbl 1 0) = 1000000"
  by code_simp

lemma wit_can_restart:
  "e \<in> set (due_by 10 wit_queue) \<Longrightarrow> heap wit_queue (snd e) = Some t \<Longrightarrow> can_restart 10 t"
  by (auto simp: due_by_def wit_queue_def wit_once_def wit_every_def can_restart_def int64_def
      wit_delta split: if_splits)

theorem handleRead_safe_witness:
  "tq_ok {} wit_queue \<and> allocator wit_alloc \<and>
   (timerQueue_handleRead wit_alloc True wit_script 10 11 wit_queue = Inl (Thrown 114) \<or>
    (\<exists>q'. timerQueue_handleRead wit_alloc True wit_script 10 11 wit_queue = Inr q' \<and> tq_ok {} q'
      \<and> heap q' 1 = None \<and> heap q' 2 = Some (restarted 10 wit_every)))"
proof -
  have "(6, 2) \<in> set (due_by 10 wit_queue)" "(5, 1) \<in> set (due_by 10 wit_queue)"
    "heap wit_queue 2 = Some wit_every" "heap wit_queue 1 = Some wit_once"
    "due_by 10 wit_queue = [(5, 1), (6, 2)]"
    by (simp_all add: due_by_def wit_queue_def)
  moreover have "cancelled_in wit_script [(5, 1), (6, 2)] = {}"
    by (simp add: cancelled_in_def wit_script_def)
  ultimately show ?thesis
    using handleRead_safe[OF wit_queue_ok wit_allocator wit_can_restart,
        where script = wit_script and clock = 11]
      wit_queue_ok wit_allocator
    by (fastforce simp: wit_once_def wit_every_def)
qed

text \<open>C35: \<open>getExpired\<close> takes out of the queue exactly the timers whose expiration has been
  reached, in the order of their expirations, and leaves exactly those still in the future;
  the assertions on the sentry and on the two sets hold.\<close>

theorem getExpired_exact:
  assumes "tq_ok P q"
  shows "\<exists>es q'. getExpired now q = Inr (es, q')
    \<and> set es = {e \<in> set (timers q). fst e \<le> now} \<and> sorted es \<and> distinct (map snd es)
    \<and> set (timers q') = {e \<in> set (timers q). now < fst e}
    \<and> tq_ok (P \<union> snd ` set es) q'"
proof -
  have "sorted (due_by now q)"
    using tq_okD(1)[OF assms] by (simp add: due_by_def oset_def sorted_wrt_filter)
  then show ?thesis
    using getExpired_ok[OF assms, of now] by (auto simp: due_by_def due_after_def)
qed

theorem getExpired_exact_witness:
  "tq_ok {} wit_queue \<and> (\<exists>es q'. getExpired 5 wit_queue = Inr (es, q') \<and> set es = {(5, 1)}
     \<and> set (timers q') = {(6, 2)})"
proof -
  have "{e \<in> set (timers wit_queue). fst e \<le> 5} = {(5, 1)}"
    "{e \<in> set (timers wit_queue). 5 < fst e} = {(6, 2)}"
    by (auto simp: wit_queue_def)
  then show ?thesis using getExpired_exact[OF wit_queue_ok, of 5] wit_queue_ok by auto
qed

text \<open>C34: \<open>cancelInLoop\<close> cancels by identity. If the id names a queued timer (its address is
  live and queued and carries the id's sequence number), that timer is removed and freed
  and no other timer is touched; a stale id, even of an address that has been reused, leaves
  timers and heap as they were. No assertion fails and the invariant is kept.\<close>

theorem cancelInLoop_exact:
  assumes ok: "tq_ok P q"
  shows "\<exists>q'. cancelInLoop True i q = Inr q' \<and> tq_ok P q' \<and>
    (if \<exists>t. heap q (timer_ptr i) = Some t \<and> sequence t = id_sequence i \<and> timer_ptr i \<in> queued q
     then heap q' = (heap q)(timer_ptr i := None)
       \<and> set (timers q') = {e \<in> set (timers q). snd e \<noteq> timer_ptr i}
     else heap q' = heap q \<and> timers q' = timers q)"
proof (cases "(timer_ptr i, id_sequence i) \<in> set (activeTimers q)")
  case True
  obtain t q' where q': "cancelInLoop True i q = Inr q'" "tq_ok P q'" "heap q (timer_ptr i) = Some t"
    "sequence t = id_sequence i" "timers q' = remove1 (expiration t, timer_ptr i) (timers q)"
    "heap q' = (heap q)(timer_ptr i := None)" "timer_ptr i \<notin> P"
    using cancel_active_ok[OF ok True] by blast
  have qd: "timer_ptr i \<in> queued q" using q'(3,7) tq_okD(5)[OF ok] by auto
  have "set (timers q') = {e \<in> set (timers q). snd e \<noteq> timer_ptr i}"
    using q'(3,5) tq_okD(1,3)[OF ok] by (fastforce simp: set_remove1_oset live_def)
  with q' qd show ?thesis by auto
next
  case False
  have "\<not> (\<exists>t. heap q (timer_ptr i) = Some t \<and> sequence t = id_sequence i \<and> timer_ptr i \<in> queued q)"
  proof
    assume "\<exists>t. heap q (timer_ptr i) = Some t \<and> sequence t = id_sequence i \<and> timer_ptr i \<in> queued q"
    then obtain t e where "heap q (timer_ptr i) = Some t" "sequence t = id_sequence i"
      "e \<in> set (timers q)" "snd e = timer_ptr i" by (auto simp: queued_def)
    then have "(timer_ptr i, id_sequence i) \<in> ids q (set (timers q))"
      by (force simp: ids_def id_of_def)
    with False show False by (simp add: tq_okD(4)[OF ok])
  qed
  with cancel_inactive_ok[OF ok False] ok show ?thesis by auto
qed

theorem cancelInLoop_exact_witness:
  "tq_ok {} wit_queue \<and> (\<exists>q'. cancelInLoop True \<lparr>timer_ptr = 2, id_sequence = 1\<rparr> wit_queue = Inr q'
     \<and> heap q' = heap wit_queue)
   \<and> (\<exists>q'. cancelInLoop True \<lparr>timer_ptr = 2, id_sequence = 2\<rparr> wit_queue = Inr q' \<and> heap q' 2 = None)"
  using cancelInLoop_exact[OF wit_queue_ok, of "\<lparr>timer_ptr = 2, id_sequence = 1\<rparr>"]
    cancelInLoop_exact[OF wit_queue_ok, of "\<lparr>timer_ptr = 2, id_sequence = 2\<rparr>"] wit_queue_ok
  by (auto simp: wit_queue_def queued_def wit_every_def split: if_splits)

text \<open>The time given to \<open>timerfd_settime\<close> is a valid relative time that never disarms
  the descriptor: nanoseconds in range, and in total the distance from the clock to the
  expiration, but at least 100 microseconds.\<close>

theorem howMuchTimeFromNow_bounds:
  "(case howMuchTimeFromNow clock due of (s, ns) \<Rightarrow>
      0 \<le> s \<and> 0 \<le> ns \<and> ns < 1000000000 \<and> 0 < s + ns
      \<and> s * 1000000000 + ns = 1000 * max 100 (due - clock))"
proof -
  define d where "d = max 100 (due - clock)"
  have d: "100 \<le> d" by (simp add: d_def)
  have "howMuchTimeFromNow clock due = (d sdiv 1000000, (d smod 1000000) * 1000)"
    by (auto simp: howMuchTimeFromNow_def kMicroSecondsPerSecond_def d_def max_def Let_def)
  also have "\<dots> = (d div 1000000, (d mod 1000000) * 1000)"
    using d by (simp add: signed_divide_int_def signed_modulo_int_def minus_div_mult_eq_mod)
  finally have eq: "howMuchTimeFromNow clock due = (d div 1000000, (d mod 1000000) * 1000)" .
  have "d = d div 1000000 * 1000000 + d mod 1000000" by simp
  moreover have "0 \<le> d mod 1000000" "d mod 1000000 < 1000000" "0 \<le> d div 1000000"
    using d by simp_all
  ultimately show ?thesis
    unfolding eq d_def[symmetric] using d by (auto simp only: prod.case; linarith)
qed

section \<open>Identifiers, and a race\<close>



text \<open>
  From another thread \<open>addTimer\<close> is two steps: it creates the timer and queues
  \<open>addTimerInLoop\<close>, and then, back in its own thread, reads \<open>timer->sequence()\<close> for the id
  it returns (line 117). The loop thread may run in between.
\<close>

text \<open>C40: The read of \<open>timer->sequence()\<close> at the end of \<open>addTimer\<close> is not safe across
  threads. For a one-shot timer that is already due there is an interleaving in which the
  loop thread runs the queued \<open>addTimerInLoop\<close> and then its expiry handler, which frees the
  timer, before the calling thread reads the sequence number of the freed object.\<close>

theorem addTimer_cross_thread_use_after_free:
  "\<exists>alloc a q1 q2 q3. allocator alloc
    \<and> new_Timer alloc 9 5 (Dbl 0 0) new_TimerQueue = Inr (a, q1)
    \<and> runInLoop_task False 0 (AddTimerInLoop a) q1 = Inr (Some (AddTimerInLoop a), q1)
    \<and> run_task True 0 (AddTimerInLoop a) q1 = Inr q2
    \<and> timerQueue_handleRead alloc True (\<lambda>_. []) 10 11 q2 = Inr q3
    \<and> deref 117 a q3 = Inl (Undefined 117)"
proof -
  have ok: "tq_ok {} new_TimerQueue" by (rule new_TimerQueue_ok)
  obtain q1 where q1: "new_Timer wit_alloc 9 5 (Dbl 0 0) new_TimerQueue = Inr (1, q1)"
    by (simp add: new_Timer_def wit_alloc_def new_TimerQueue_def Let_def)
  note n = new_Timer_ok[OF ok wit_allocator q1]
  obtain q2 where q2: "addTimerInLoop True 0 1 q1 = Inr q2" "tq_ok {} q2"
    "timers q2 = [(5, 1)]" "heap q2 = heap q1"
    using addTimerInLoop_ok[OF n(1), of 1 _ 0] n(5,9) by (auto simp: new_TimerQueue_def)
  have E: "due_by 10 q2 = [(5, 1)]" by (simp add: due_by_def q2(3))
  have t: "heap q2 1 = Some \<lparr>callback = 9, expiration = 5, interval = Dbl 0 0,
      repeat = False, sequence = 1\<rparr>"
    by (simp add: q2(4) n(9) new_TimerQueue_def dbl_positive_def)
  obtain q1' where g: "getExpired 10 q2 = Inr ([(5, 1)], q1')" "tq_ok {1} q1'" "heap q1' = heap q2"
    using getExpired_ok[OF q2(2), of 10] by (auto simp: E)
  define q4 where "q4 = q1'\<lparr>cancelingTimers := [], callingExpiredTimers := False\<rparr>"
  have ok4: "tq_ok {1} q4" using g(2) by (simp add: q4_def)
  have h4: "heap q4 1 = Some \<lparr>callback = 9, expiration = 5, interval = Dbl 0 0,
      repeat = False, sequence = 1\<rparr>"
  proof -
    have "heap q4 = heap q2" by (simp add: q4_def g(3))
    then show ?thesis by (simp only: t)
  qed
  have can: "can_restart 10 u" if "heap q4 1 = Some u" for u
    using that h4 by (auto simp: can_restart_def)
  have nr: "\<not> restarts q4 1" using h4 by (simp add: restarts_def)
  obtain q3 where q3: "reset True 11 [(5, 1)] 10 q4 = Inr q3" "heap q3 1 = None"
    using reset_ok[OF ok4, of "[(5, 1)]" 10 11] can nr by auto
  have "timerQueue_handleRead wit_alloc True (\<lambda>_. []) 10 11 q2 = Inr q3"
    using g q3(1) t by (simp add: timerQueue_handleRead_def run_timer_def deref_def q4_def)
  then show ?thesis
    using wit_allocator q1 q2(1) q3(2) by (fastforce simp: runInLoop_task_def deref_def)
qed

end
