(* ===== verification/Channels.thy ===== *)
theory Channels
  imports Timestamps "HOL-Library.Word"
begin

text \<open>
  \<open>Channel\<close> (src/net/Channel.h, Channel.cpp): the registration of one file descriptor with
  an event loop, and the dispatch of the events that were reported for it. Channels are
  objects that the poller and the loop reach through raw pointers, so a \<open>reactor\<close> holds
  them in a heap, \<open>chans\<close>; the states of the pollers and of the loop extend it. A callback
  is a \<open>task\<close> that \<open>call\<close>, an argument of \<open>handleEvent\<close>, interprets: it may change the
  whole state, the channel included. Last come the contracts that the pollers keep.
\<close>

unbundle bit_operations_syntax

section \<open>State\<close>

type_synonym events = "32 word"
type_synonym chan_addr = nat

text \<open>
  A \<open>std::function<void()>\<close>: one of the calls the program binds, with the object it is bound
  to and its arguments, or a function of the user. Objects are named by their addresses.
\<close>

datatype task =
    User nat
  | TimerQueueRead                 \<comment> \<open>\<open>TimerQueue::handleRead\<close>\<close>
  | LoopRead                       \<comment> \<open>\<open>EventLoop::handleRead\<close>\<close>
  | ConnRead nat | ConnWrite nat | ConnClose nat | ConnError nat
  | SendInLoop nat string | ShutdownInLoop nat | WriteComplete nat nat
  | ConnectEstablished nat | ConnectDestroyed nat
  | AcceptorRead nat | AcceptorListen nat | RemoveConnectionInLoop nat
  | ConnectorWrite nat | ConnectorError nat | ConnectorStart nat | ConnectorStop nat
  | ConnectorReset nat
  | SetCloseCallback nat nat | RemoveConnector


definition POLLIN :: events where "POLLIN = 0x01"
definition POLLPRI :: events where "POLLPRI = 0x02"
definition POLLOUT :: events where "POLLOUT = 0x04"
definition POLLERR :: events where "POLLERR = 0x08"
definition POLLHUP :: events where "POLLHUP = 0x10"
definition POLLNVAL :: events where "POLLNVAL = 0x20"

definition kNoneEvent :: events where "kNoneEvent = 0"
definition kReadEvent :: events where "kReadEvent = POLLIN OR POLLPRI"
definition kWriteEvent :: events where "kWriteEvent = POLLOUT"

definition has :: "events \<Rightarrow> events \<Rightarrow> bool" where
  "has e bits \<longleftrightarrow> e AND bits \<noteq> 0"

lemmas poll_bits = POLLIN_def POLLPRI_def POLLOUT_def POLLERR_def POLLHUP_def POLLNVAL_def
  kNoneEvent_def kReadEvent_def kWriteEvent_def

record channel =
  loop :: nat \<comment> \<open>the \<open>EventLoop\<close> the channel belongs to\<close>
  fd :: int
  events :: events
  revents :: events
  index :: int
  eventHandling :: bool
  readCallback :: "task option"
  writeCallback :: "task option"
  errorCallback :: "task option"
  closeCallback :: "task option"

record reactor =
  chans :: "chan_addr \<rightharpoonup> channel"

definition new_Channel :: "nat \<Rightarrow> int \<Rightarrow> channel" where
  "new_Channel l n = \<lparr>loop = l, fd = n, events = 0, revents = 0, index = - 1,
     eventHandling = False, readCallback = None, writeCallback = None,
     errorCallback = None, closeCallback = None\<rparr>"

text \<open>Dereferencing a \<open>Channel*\<close> at a line of the source, and writing to the object.\<close>

definition chan_at :: "nat \<Rightarrow> chan_addr \<Rightarrow> 'a reactor_scheme \<Rightarrow> channel result" where
  "chan_at line a w = (case chans w a of None \<Rightarrow> Inl (Undefined line) | Some c \<Rightarrow> Inr c)"

definition put_chan :: "chan_addr \<Rightarrow> channel \<Rightarrow> 'a reactor_scheme \<Rightarrow> 'a reactor_scheme" where
  "put_chan a c w = w\<lparr>chans := (chans w)(a \<mapsto> c)\<rparr>"

definition delete_Channel :: "chan_addr \<Rightarrow> 'a reactor_scheme \<Rightarrow> 'a reactor_scheme result" where
  "delete_Channel a w =
     rbind (chan_at 25 a w) (\<lambda>c.
       check (\<not> eventHandling c) (Assertion 25) (Inr (w\<lparr>chans := (chans w)(a := None)\<rparr>)))"

section \<open>Setters\<close>

definition setReadCallback :: "task \<Rightarrow> channel \<Rightarrow> channel" where
  "setReadCallback cb c = c\<lparr>readCallback := Some cb\<rparr>"
definition setWriteCallback :: "task \<Rightarrow> channel \<Rightarrow> channel" where
  "setWriteCallback cb c = c\<lparr>writeCallback := Some cb\<rparr>"
definition setErrorCallback :: "task \<Rightarrow> channel \<Rightarrow> channel" where
  "setErrorCallback cb c = c\<lparr>errorCallback := Some cb\<rparr>"
definition setCloseCallback :: "task \<Rightarrow> channel \<Rightarrow> channel" where
  "setCloseCallback cb c = c\<lparr>closeCallback := Some cb\<rparr>"

definition isNoneEvent :: "channel \<Rightarrow> bool" where
  "isNoneEvent c \<longleftrightarrow> events c = kNoneEvent"

definition isWriting :: "channel \<Rightarrow> bool" where
  "isWriting c \<longleftrightarrow> has (events c) kWriteEvent"

text \<open>
  The operations that change the set of events: the new set is stored in the channel and
  handed on by \<open>upd\<close>, which stands for \<open>loop_->updateChannel(this)\<close>.
\<close>

definition change_events ::
  "nat \<Rightarrow> (chan_addr \<Rightarrow> 'a reactor_scheme \<Rightarrow> 'a reactor_scheme result) \<Rightarrow> (events \<Rightarrow> events)
   \<Rightarrow> chan_addr \<Rightarrow> 'a reactor_scheme \<Rightarrow> 'a reactor_scheme result" where
  "change_events line upd f a w =
     rbind (chan_at line a w) (\<lambda>c. upd a (put_chan a (c\<lparr>events := f (events c)\<rparr>) w))"

definition enableReading ::
  "(chan_addr \<Rightarrow> 'a reactor_scheme \<Rightarrow> 'a reactor_scheme result) \<Rightarrow> chan_addr
   \<Rightarrow> 'a reactor_scheme \<Rightarrow> 'a reactor_scheme result" where
  "enableReading upd = change_events 72 upd (\<lambda>e. e OR kReadEvent)"

definition enableWriting ::
  "(chan_addr \<Rightarrow> 'a reactor_scheme \<Rightarrow> 'a reactor_scheme result) \<Rightarrow> chan_addr
   \<Rightarrow> 'a reactor_scheme \<Rightarrow> 'a reactor_scheme result" where
  "enableWriting upd = change_events 77 upd (\<lambda>e. e OR kWriteEvent)"

definition disableWriting ::
  "(chan_addr \<Rightarrow> 'a reactor_scheme \<Rightarrow> 'a reactor_scheme result) \<Rightarrow> chan_addr
   \<Rightarrow> 'a reactor_scheme \<Rightarrow> 'a reactor_scheme result" where
  "disableWriting upd = change_events 82 upd (\<lambda>e. e AND NOT kWriteEvent)"

definition disableAll ::
  "(chan_addr \<Rightarrow> 'a reactor_scheme \<Rightarrow> 'a reactor_scheme result) \<Rightarrow> chan_addr
   \<Rightarrow> 'a reactor_scheme \<Rightarrow> 'a reactor_scheme result" where
  "disableAll upd = change_events 87 upd (\<lambda>e. kNoneEvent)"

section \<open>Dispatch\<close>

text \<open>
  One \<open>if\<close> of \<open>handleEvent\<close>: when the test on \<open>revents_\<close> holds and the callback is set, it
  is called. The channel is looked up again every time, since a callback may have changed
  or destroyed it.
\<close>

definition dispatch ::
  "(task \<Rightarrow> 'a reactor_scheme \<Rightarrow> 'a reactor_scheme result) \<Rightarrow> chan_addr \<Rightarrow> nat
   \<Rightarrow> (events \<Rightarrow> bool) \<Rightarrow> (channel \<Rightarrow> task option)
   \<Rightarrow> 'a reactor_scheme \<Rightarrow> 'a reactor_scheme result" where
  "dispatch call a line test cb w =
     rbind (chan_at line a w) (\<lambda>c.
       if test (revents c) then (case cb c of None \<Rightarrow> Inr w | Some f \<Rightarrow> call f w) else Inr w)"

definition wants_close :: "events \<Rightarrow> bool" where
  "wants_close r \<longleftrightarrow> has r POLLHUP \<and> \<not> has r POLLIN"
definition wants_error :: "events \<Rightarrow> bool" where
  "wants_error r \<longleftrightarrow> has r (POLLERR OR POLLNVAL)"
definition wants_read :: "events \<Rightarrow> bool" where
  "wants_read r \<longleftrightarrow> has r (POLLIN OR POLLPRI OR POLLHUP)"
definition wants_write :: "events \<Rightarrow> bool" where
  "wants_write r \<longleftrightarrow> has r POLLOUT"

text \<open>
  \<open>call\<close> runs a callback without arguments, \<open>callr t\<close> a read callback with the time \<open>poll\<close>
  returned.
\<close>

definition handleEvent ::
  "(task \<Rightarrow> 'a reactor_scheme \<Rightarrow> 'a reactor_scheme result)
   \<Rightarrow> (timestamp \<Rightarrow> task \<Rightarrow> 'a reactor_scheme \<Rightarrow> 'a reactor_scheme result)
   \<Rightarrow> timestamp \<Rightarrow> chan_addr \<Rightarrow> 'a reactor_scheme \<Rightarrow> 'a reactor_scheme result" where
  "handleEvent call callr receiveTime a w =
     rbind (chan_at 38 a w) (\<lambda>c.
     rbind (dispatch call a 43 wants_close closeCallback
              (put_chan a (c\<lparr>eventHandling := True\<rparr>) w)) (\<lambda>w.
     rbind (dispatch call a 48 wants_error errorCallback w) (\<lambda>w.
     rbind (dispatch (callr receiveTime) a 52 wants_read readCallback w) (\<lambda>w.
     rbind (dispatch call a 56 wants_write writeCallback w) (\<lambda>w.
     rbind (chan_at 60 a w) (\<lambda>c.
       Inr (put_chan a (c\<lparr>eventHandling := False\<rparr>) w)))))))"

section \<open>Lemmas on dispatch\<close>

lemma chan_at_live [simp]: "chans w a = Some c \<Longrightarrow> chan_at l a w = Inr c"
  by (simp add: chan_at_def)

lemma chan_at_dead [simp]: "chans w a = None \<Longrightarrow> chan_at l a w = Inl (Undefined l)"
  by (simp add: chan_at_def)

lemma chan_at_Inr [result_simps]: "chan_at l a w = Inr c \<longleftrightarrow> chans w a = Some c"
  by (simp add: chan_at_def split: option.splits)

lemma chans_put_chan [simp]: "chans (put_chan a c w) = (chans w)(a \<mapsto> c)"
  by (simp add: put_chan_def)

text \<open>
  What \<open>handleEvent\<close> owes a channel: the callbacks that are set and that the reported
  events call for, in the order close, error, read, write.
\<close>

datatype callback_kind = CloseCb task | ErrorCb task | ReadCb task | WriteCb task

definition due_callbacks :: "channel \<Rightarrow> callback_kind list" where
  "due_callbacks c =
     (let some = (\<lambda>k f b. if b then (case f of None \<Rightarrow> [] | Some x \<Rightarrow> [k x]) else [])
      in some CloseCb (closeCallback c) (wants_close (revents c))
       @ some ErrorCb (errorCallback c) (wants_error (revents c))
       @ some ReadCb (readCallback c) (wants_read (revents c))
       @ some WriteCb (writeCallback c) (wants_write (revents c)))"

fun run_callback ::
  "(task \<Rightarrow> 'w \<Rightarrow> 'w result) \<Rightarrow> (timestamp \<Rightarrow> task \<Rightarrow> 'w \<Rightarrow> 'w result) \<Rightarrow> timestamp
   \<Rightarrow> callback_kind \<Rightarrow> 'w \<Rightarrow> 'w result" where
  "run_callback call callr t (CloseCb f) = call f"
| "run_callback call callr t (ErrorCb f) = call f"
| "run_callback call callr t (ReadCb f) = callr t f"
| "run_callback call callr t (WriteCb f) = call f"

text \<open>The part of a channel that \<open>handleEvent\<close> reads.\<close>

definition dispatch_view :: "channel \<Rightarrow> events \<times> task option \<times> task option \<times> task option \<times> task option" where
  "dispatch_view c = (revents c, closeCallback c, errorCallback c, readCallback c, writeCallback c)"

definition keeps_view :: "chan_addr \<Rightarrow> ('a reactor_scheme \<Rightarrow> 'a reactor_scheme result) \<Rightarrow> bool" where
  "keeps_view a g \<longleftrightarrow> (\<forall>w w'. g w = Inr w' \<longrightarrow>
     map_option dispatch_view (chans w' a) = map_option dispatch_view (chans w a))"

lemma keeps_viewD:
  "keeps_view a g \<Longrightarrow> g w = Inr w' \<Longrightarrow> map_option dispatch_view (chans w a) = Some v
   \<Longrightarrow> map_option dispatch_view (chans w' a) = Some v"
  by (simp add: keeps_view_def)

lemma dispatch_eq:
  assumes "map_option dispatch_view (chans w a) = Some (dispatch_view c)"
    and "\<And>d. dispatch_view d = dispatch_view c \<Longrightarrow> test (revents d) = test (revents c) \<and> cb d = cb c"
  shows "dispatch g a l test cb w
    = (if test (revents c) then (case cb c of None \<Rightarrow> Inr w | Some f \<Rightarrow> g f w) else Inr w)"
proof -
  from assms(1) obtain d where d: "chans w a = Some d" "dispatch_view d = dispatch_view c"
    by auto
  with assms(2)[OF d(2)] show ?thesis by (simp add: dispatch_def)
qed

definition due_if :: "(task \<Rightarrow> callback_kind) \<Rightarrow> task option \<Rightarrow> bool \<Rightarrow> callback_kind list" where
  "due_if k f b = (if b then (case f of None \<Rightarrow> [] | Some x \<Rightarrow> [k x]) else [])"

lemma due_callbacks_parts:
  "due_callbacks c = due_if CloseCb (closeCallback c) (wants_close (revents c))
     @ due_if ErrorCb (errorCallback c) (wants_error (revents c))
     @ due_if ReadCb (readCallback c) (wants_read (revents c))
     @ due_if WriteCb (writeCallback c) (wants_write (revents c))"
  by (simp add: due_callbacks_def due_if_def)

lemma keeps_view_for_each:
  assumes "\<And>x. x \<in> set xs \<Longrightarrow> keeps_view a (g x)"
    and "for_each g xs w = Inr w'" "map_option dispatch_view (chans w a) = Some v"
  shows "map_option dispatch_view (chans w' a) = Some v"
  using assms
proof (induction xs arbitrary: w)
  case Nil
  then show ?case by simp
next
  case (Cons x xs)
  from Cons.prems(2) obtain w1 where w1: "g x w = Inr w1" "for_each g xs w1 = Inr w'"
    by (auto simp: result_simps)
  have "map_option dispatch_view (chans w1 a) = Some v"
    by (rule keeps_viewD[OF Cons.prems(1) w1(1) Cons.prems(3)]) simp
  with w1(2) Cons show ?case by simp
qed

lemma dispatch_due:
  assumes "map_option dispatch_view (chans w a) = Some (dispatch_view c)"
    and "\<And>d. dispatch_view d = dispatch_view c \<Longrightarrow> test (revents d) = test (revents c) \<and> cb d = cb c"
    and "\<And>x. run (k x) = g x"
  shows "dispatch g a l test cb w = for_each run (due_if k (cb c) (test (revents c))) w"
proof -
  have "dispatch g a l test cb w
    = (if test (revents c) then (case cb c of None \<Rightarrow> Inr w | Some f \<Rightarrow> g f w) else Inr w)"
    using assms(1,2) by (rule dispatch_eq)
  then show ?thesis by (simp add: due_if_def assms(3) split: option.splits)
qed

text \<open>Two runs that go on alike from every state in which the first part may end.\<close>

lemma rbind_for_each_cong:
  assumes "\<And>x. x \<in> set xs \<Longrightarrow> keeps_view a (g x)"
    and "map_option dispatch_view (chans w a) = Some v"
    and "\<And>w'. map_option dispatch_view (chans w' a) = Some v \<Longrightarrow> f w' = h w'"
  shows "rbind (for_each g xs w) f = rbind (for_each g xs w) h"
proof (cases "for_each g xs w")
  case (Inr w')
  with keeps_view_for_each[OF assms(1) this assms(2)] assms(3)[of w'] show ?thesis by simp
qed simp

section \<open>Properties\<close>

text \<open>\<open>handleEvent\<close> runs exactly the callbacks the reported events call for, in the order
  close, error, read, write. Provided no callback destroys the channel, changes its reported events
  or replaces its callbacks, one call of \<open>handleEvent\<close> is the run of \<open>due_callbacks\<close> with the
  flag \<open>eventHandling_\<close> raised around it, and it fails only where a callback fails.\<close>

theorem handleEvent_runs_due_callbacks:
  assumes c: "chans w a = Some c"
    and k: "\<And>f. keeps_view a (call f)" "\<And>f. keeps_view a (callr t f)"
  shows "handleEvent call callr t a w =
    rbind (for_each (run_callback call callr t) (due_callbacks c)
             (put_chan a (c\<lparr>eventHandling := True\<rparr>) w))
      (\<lambda>w'. Inr (put_chan a ((the (chans w' a))\<lparr>eventHandling := False\<rparr>) w'))"
proof -
  let ?run = "run_callback call callr t"
  let ?v = "dispatch_view c"
  let ?w0 = "put_chan a (c\<lparr>eventHandling := True\<rparr>) w"
  have v0: "map_option dispatch_view (chans ?w0 a) = Some ?v" by (simp add: dispatch_view_def)
  have D: "dispatch call a 43 wants_close closeCallback u
      = for_each ?run (due_if CloseCb (closeCallback c) (wants_close (revents c))) u"
    "dispatch call a 48 wants_error errorCallback u
      = for_each ?run (due_if ErrorCb (errorCallback c) (wants_error (revents c))) u"
    "dispatch (callr t) a 52 wants_read readCallback u
      = for_each ?run (due_if ReadCb (readCallback c) (wants_read (revents c))) u"
    "dispatch call a 56 wants_write writeCallback u
      = for_each ?run (due_if WriteCb (writeCallback c) (wants_write (revents c))) u"
    if "map_option dispatch_view (chans u a) = Some ?v" for u
    by (rule dispatch_due[OF that]; simp add: dispatch_view_def)+
  have kr: "keeps_view a (?run x)" for x using k by (cases x) auto
  have last: "rbind (chan_at 60 a u) (\<lambda>d. Inr (put_chan a (d\<lparr>eventHandling := False\<rparr>) u))
      = Inr (put_chan a ((the (chans u a))\<lparr>eventHandling := False\<rparr>) u)"
    if "map_option dispatch_view (chans u a) = Some ?v" for u
    using that by auto
  show ?thesis
    unfolding handleEvent_def chan_at_live[OF c] rbind.simps due_callbacks_parts
      for_each_append rbind_assoc D(1)[OF v0]
    apply (rule rbind_for_each_cong[OF kr v0])
    apply (simp only: D(2) rbind_assoc)
    apply (rule rbind_for_each_cong[OF kr], assumption)
    apply (simp only: D(3) rbind_assoc)
    apply (rule rbind_for_each_cong[OF kr], assumption)
    apply (simp only: D(4) rbind_assoc)
    apply (rule rbind_for_each_cong[OF kr], assumption)
    apply (rule last, assumption)
    done
qed

definition wit_chan :: channel where
  "wit_chan = (new_Channel 0 5)\<lparr>revents := POLLIN OR POLLOUT, readCallback := Some (User 1),
     writeCallback := Some (User 2), closeCallback := Some (User 3)\<rparr>"

definition wit_reactor :: reactor where
  "wit_reactor = \<lparr>chans = [7 \<mapsto> wit_chan]\<rparr>"

lemma wit_chan_due: "due_callbacks wit_chan = [ReadCb (User 1), WriteCb (User 2)]"
  by code_simp

theorem handleEvent_runs_due_callbacks_witness:
  "chans wit_reactor 7 = Some wit_chan \<and> due_callbacks wit_chan = [ReadCb (User 1), WriteCb (User 2)]
   \<and> handleEvent (\<lambda>f. Inr) (\<lambda>t f. Inr) 0 7 wit_reactor
      = Inr (put_chan 7 (wit_chan\<lparr>eventHandling := False\<rparr>)
              (put_chan 7 (wit_chan\<lparr>eventHandling := True\<rparr>) wit_reactor))"
  using handleEvent_runs_due_callbacks[of wit_reactor 7 wit_chan "\<lambda>f. Inr" "\<lambda>t f. Inr" 0]
  by (simp add: wit_reactor_def keeps_view_def wit_chan_due)

end
