(* ===== verification/Pollers.thy ===== *)
theory Pollers
  imports Channels
begin

text \<open>
  The contracts of an I/O multiplexer, stated over the operations its clients call: a change
  of a channel's events followed by \<open>updateChannel\<close>, and \<open>removeChannel\<close>. \<open>registry\<close> is what
  both the \<open>epoll(4)\<close> and the \<open>poll(2)\<close> implementation promise: which channel a descriptor
  belongs to; \<open>fresh\<close> says which unregistered channels may be registered, \<open>quiet\<close> which
  registered ones may be removed. \<open>event_poller\<close> adds that the kernel is asked for exactly the events of the
  channel; theories EPoller and Poller show that only the first one keeps it.
\<close>

text \<open>Two channels that differ at most in the index the poller keeps in them.\<close>

definition same_but_index :: "channel option \<Rightarrow> channel option \<Rightarrow> bool" where
  "same_but_index x y \<longleftrightarrow>
     map_option (\<lambda>c. c\<lparr>index := 0\<rparr>) x = map_option (\<lambda>c. c\<lparr>index := 0\<rparr>) y"

lemma same_but_index_refl [simp]: "same_but_index x x"
  by (simp add: same_but_index_def)

lemma same_but_index_trans: "same_but_index x y \<Longrightarrow> same_but_index y z \<Longrightarrow> same_but_index x z"
  by (simp add: same_but_index_def)

lemma same_but_index_None [simp]: "same_but_index None y \<longleftrightarrow> y = None"
  by (cases y) (auto simp: same_but_index_def)

lemma same_but_index_upd [simp]: "same_but_index (Some c) (Some (c\<lparr>index := i\<rparr>))"
  by (simp add: same_but_index_def)

lemma same_but_index_Some:
  "same_but_index (Some c) y \<longleftrightarrow> (\<exists>i. y = Some (c\<lparr>index := i\<rparr>))"
proof
  assume "same_but_index (Some c) y"
  then obtain d where d: "y = Some d" "c\<lparr>index := 0\<rparr> = d\<lparr>index := 0\<rparr>"
    by (cases y) (auto simp: same_but_index_def)
  then have "d = c\<lparr>index := index d\<rparr>" by (cases c; cases d) simp
  with d show "\<exists>i. y = Some (c\<lparr>index := i\<rparr>)" by metis
qed (auto simp: same_but_index_def)

text \<open>
  What a client may do with its channels, and the abstract effect: \<open>board\<close> holds, for the
  channels of one loop, the descriptor and the wanted events of each, and the owner of each
  descriptor that is registered.
\<close>

datatype chan_op = SetEvents "events \<Rightarrow> events" chan_addr | Remove chan_addr

record board =
  fd_of :: "chan_addr \<rightharpoonup> int"
  wanted :: "chan_addr \<Rightarrow> events"
  owner :: "int \<rightharpoonup> chan_addr"

fun board_op :: "chan_op \<Rightarrow> board \<Rightarrow> board option" where
  "board_op (SetEvents f a) s =
     (case fd_of s a of
        None \<Rightarrow> None
      | Some n \<Rightarrow> if owner s n \<in> {None, Some a}
                  then Some (s\<lparr>wanted := (wanted s)(a := f (wanted s a)), owner := (owner s)(n \<mapsto> a)\<rparr>)
                  else None)"
| "board_op (Remove a) s =
     (case fd_of s a of
        None \<Rightarrow> None
      | Some n \<Rightarrow> if owner s n = Some a \<and> wanted s a = kNoneEvent
                  then Some (s\<lparr>owner := (owner s)(n := None)\<rparr>)
                  else None)"

fun board_ops :: "chan_op list \<Rightarrow> board \<Rightarrow> board option" where
  "board_ops [] s = Some s"
| "board_ops (x # xs) s = Option.bind (board_op x s) (board_ops xs)"

definition board_of :: "('w \<Rightarrow> chan_addr \<rightharpoonup> channel) \<Rightarrow> ('w \<Rightarrow> int \<rightharpoonup> chan_addr) \<Rightarrow> 'w \<Rightarrow> board" where
  "board_of chan own w = \<lparr>fd_of = (\<lambda>a. map_option fd (chan w a)),
     wanted = (\<lambda>a. case chan w a of None \<Rightarrow> 0 | Some c \<Rightarrow> events c), owner = own w\<rparr>"

locale registry =
  fixes invar :: "'w \<Rightarrow> bool"
    and chan :: "'w \<Rightarrow> chan_addr \<rightharpoonup> channel"
    and own :: "'w \<Rightarrow> int \<rightharpoonup> chan_addr"
    and fresh :: "'w \<Rightarrow> chan_addr \<Rightarrow> bool"
    and quiet :: "'w \<Rightarrow> chan_addr \<Rightarrow> bool"
    and change :: "(events \<Rightarrow> events) \<Rightarrow> chan_addr \<Rightarrow> 'w \<Rightarrow> 'w result"
    and remove :: "chan_addr \<Rightarrow> 'w \<Rightarrow> 'w result"
  assumes change_ok:
    "invar w \<Longrightarrow> chan w a = Some c \<Longrightarrow>
      own w (fd c) = Some a \<or> own w (fd c) = None \<and> fresh w a \<Longrightarrow>
      \<exists>w'. change f a w = Inr w' \<and> invar w' \<and> own w' = (own w)(fd c \<mapsto> a)
        \<and> same_but_index (Some (c\<lparr>events := f (events c)\<rparr>)) (chan w' a)
        \<and> (\<forall>b. b \<noteq> a \<longrightarrow> chan w' b = chan w b)
        \<and> (own w (fd c) = Some a \<and> f (events c) = kNoneEvent \<longrightarrow> quiet w' a)"
    and remove_ok:
    "invar w \<Longrightarrow> chan w a = Some c \<Longrightarrow> own w (fd c) = Some a \<Longrightarrow> events c = kNoneEvent \<Longrightarrow> quiet w a \<Longrightarrow>
      \<exists>w'. remove a w = Inr w' \<and> invar w' \<and> own w' = (own w)(fd c := None)
        \<and> (\<forall>b. same_but_index (chan w b) (chan w' b))"
begin

text \<open>
  The life of a registration: any changes of events, then \<open>disableAll\<close> and \<open>remove\<close>, as the
  connections, the acceptor and the connector do it. Nothing fails, and afterwards the
  descriptor is free and every channel is as before except for events and index.
\<close>

lemma retire_ok:
  assumes "invar w" "chan w a = Some c" "own w (fd c) = Some a"
  shows "\<exists>w1 w2. change (\<lambda>_. kNoneEvent) a w = Inr w1 \<and> remove a w1 = Inr w2 \<and> invar w2
    \<and> own w2 = (own w)(fd c := None) \<and> (\<forall>b. b \<noteq> a \<longrightarrow> same_but_index (chan w b) (chan w2 b))"
proof -
  obtain w1 where w1: "change (\<lambda>_. kNoneEvent) a w = Inr w1" "invar w1"
      "own w1 = (own w)(fd c \<mapsto> a)"
      "same_but_index (Some (c\<lparr>events := kNoneEvent\<rparr>)) (chan w1 a)"
      "\<forall>b. b \<noteq> a \<longrightarrow> chan w1 b = chan w b" "quiet w1 a"
    using change_ok[OF assms(1,2) disjI1[OF assms(3)], of "\<lambda>_. kNoneEvent"] assms(3) by auto
  from w1(4) obtain i where i: "chan w1 a = Some (c\<lparr>events := kNoneEvent, index := i\<rparr>)"
    by (auto simp: same_but_index_Some)
  from remove_ok[OF w1(2) i] w1 obtain w2 where w2: "remove a w1 = Inr w2" "invar w2"
    "own w2 = (own w1)(fd c := None)" "\<forall>b. same_but_index (chan w1 b) (chan w2 b)" by auto
  from w2(3) w1(3) have o: "own w2 = (own w)(fd c := None)" by simp
  have "\<forall>b. b \<noteq> a \<longrightarrow> same_but_index (chan w b) (chan w2 b)" using w1(5) w2(4) by metis
  with w1(1) w2(1,2) o show ?thesis by blast
qed

end

text \<open>
  A multiplexer whose view of a channel is never stale: every channel may be registered
  again after its removal, a channel that wants no events may always be removed, and \<open>asked\<close>, the events the kernel watches a descriptor for, are the wanted ones.
\<close>

locale event_poller = registry invar chan own "\<lambda>w a. True" "\<lambda>w a. True" change remove
  for invar :: "'w \<Rightarrow> bool" and chan :: "'w \<Rightarrow> chan_addr \<rightharpoonup> channel"
    and own :: "'w \<Rightarrow> int \<rightharpoonup> chan_addr"
    and change :: "(events \<Rightarrow> events) \<Rightarrow> chan_addr \<Rightarrow> 'w \<Rightarrow> 'w result"
    and remove :: "chan_addr \<Rightarrow> 'w \<Rightarrow> 'w result" +
  fixes asked :: "'w \<Rightarrow> int \<Rightarrow> events"
  assumes asked_ok:
    "invar w \<Longrightarrow> asked w n = (case own w n of None \<Rightarrow> kNoneEvent
       | Some a \<Rightarrow> (case chan w a of None \<Rightarrow> kNoneEvent | Some c \<Rightarrow> events c))"
begin

definition run_op :: "chan_op \<Rightarrow> 'w \<Rightarrow> 'w result" where
  "run_op x = (case x of SetEvents f a \<Rightarrow> change f a | Remove a \<Rightarrow> remove a)"

lemma op_refines:
  assumes inv: "invar w" and op: "board_op x (board_of chan own w) = Some s"
  shows "\<exists>w'. run_op x w = Inr w' \<and> invar w' \<and> board_of chan own w' = s"
proof (cases x)
  case (SetEvents f a)
  with op obtain c where c: "chan w a = Some c" "own w (fd c) \<in> {None, Some a}"
    by (auto simp: board_of_def split: option.splits if_splits)
  from change_ok[OF inv this(1), of f] this obtain w' where w': "change f a w = Inr w'" "invar w'"
    "own w' = (own w)(fd c \<mapsto> a)"
    "same_but_index (Some (c\<lparr>events := f (events c)\<rparr>)) (chan w' a)"
    "\<forall>b. b \<noteq> a \<longrightarrow> chan w' b = chan w b" by auto
  from w'(4) obtain i where i: "chan w' a = Some (c\<lparr>events := f (events c), index := i\<rparr>)"
    by (auto simp: same_but_index_Some)
  have "map_option fd (chan w' b) = map_option fd (chan w b)" for b
    using w'(5) i c by (cases "b = a") auto
  then have "board_of chan own w' = s"
    using op SetEvents c w'(3,5) i by (auto simp: board_of_def fun_eq_iff)
  with w' SetEvents show ?thesis by (simp add: run_op_def)
next
  case (Remove a)
  with op obtain c where c: "chan w a = Some c" "own w (fd c) = Some a" "events c = kNoneEvent"
    by (auto simp: board_of_def split: option.splits if_splits)
  from remove_ok[OF inv this] obtain w' where w': "remove a w = Inr w'" "invar w'"
    "own w' = (own w)(fd c := None)" "\<forall>b. same_but_index (chan w b) (chan w' b)" by auto
  have same: "map_option fd (chan w' b) = map_option fd (chan w b)
      \<and> (case chan w' b of None \<Rightarrow> 0 | Some c \<Rightarrow> events c)
        = (case chan w b of None \<Rightarrow> 0 | Some c \<Rightarrow> events c)" for b
    using w'(4)[rule_format, of b]
    by (cases "chan w b") (auto simp: same_but_index_Some)
  have "board_of chan own w' = s"
    using op Remove c w'(3) same by (auto simp: board_of_def fun_eq_iff)
  with w' Remove show ?thesis by (simp add: run_op_def)
qed

lemma ops_refine:
  assumes "invar w" "board_ops xs (board_of chan own w) = Some s"
  shows "\<exists>w'. for_each run_op xs w = Inr w' \<and> invar w' \<and> board_of chan own w' = s
    \<and> (\<forall>n. asked w' n = (case owner s n of None \<Rightarrow> kNoneEvent | Some a \<Rightarrow> wanted s a))"
  using assms
proof (induction xs arbitrary: w)
  case Nil
  then show ?case
    using asked_ok[of w] by (auto simp: board_of_def kNoneEvent_def split: option.splits)
next
  case (Cons x xs)
  from Cons.prems(2) obtain t where t: "board_op x (board_of chan own w) = Some t"
    "board_ops xs t = Some s" by (cases "board_op x (board_of chan own w)") auto
  from op_refines[OF Cons.prems(1) t(1)] obtain w1 where w1: "run_op x w = Inr w1" "invar w1"
    "board_of chan own w1 = t" by auto
  with Cons.IH[of w1] t(2) show ?case by simp
qed

end

end
