(* ===== verification/Poll_Pollers.thy ===== *)
theory Poll_Pollers
  imports Pollers
begin

text \<open>
  \<open>Poller\<close> (src/net/Poller.h, Poller.cpp), the \<open>poll(2)\<close> multiplexer: an array of \<open>pollfd\<close>
  whose entries the channels refer to by position. A descriptor is ignored by writing
  \<open>-fd-1\<close> into its entry. The result of \<open>poll(2)\<close>, the number of ready entries and the
  \<open>revents\<close> it stored, is an input. \<open>inl\<close> is the result of \<open>isInLoopThread()\<close>.
\<close>

section \<open>State and operations\<close>

record pollfd =
  pfd_fd :: int
  pfd_events :: "16 word"
  pfd_revents :: "16 word"

record poller = reactor +
  pollfds :: "pollfd list"
  pchannels :: "int \<rightharpoonup> chan_addr"

definition new_Poller :: poller where
  "new_Poller = \<lparr>chans = Map.empty, pollfds = [], pchannels = Map.empty\<rparr>"

text \<open>The position a nonnegative index denotes, and whether it lies in the array.\<close>

definition in_array :: "int \<Rightarrow> 'a poller_scheme \<Rightarrow> bool" where
  "in_array idx w \<longleftrightarrow> 0 \<le> idx \<and> idx < int (length (pollfds w))"

definition entry_at :: "int \<Rightarrow> 'a poller_scheme \<Rightarrow> pollfd" where
  "entry_at idx w = pollfds w ! nat idx"

definition put_entry :: "int \<Rightarrow> pollfd \<Rightarrow> 'a poller_scheme \<Rightarrow> 'a poller_scheme" where
  "put_entry idx p w = w\<lparr>pollfds := (pollfds w)[nat idx := p]\<rparr>"

definition poller_updateChannel ::
  "bool \<Rightarrow> chan_addr \<Rightarrow> 'a poller_scheme \<Rightarrow> 'a poller_scheme result" where
  "poller_updateChannel inl a w =
     check inl (Fatal 62)
    (rbind (chan_at 63 a w) (\<lambda>c.
     if index c < 0
     then check (pchannels w (fd c) = None) (Assertion 66)
         (let pfd = \<lparr>pfd_fd = fd c, pfd_events = ucast (events c), pfd_revents = 0\<rparr>;
              w = w\<lparr>pollfds := pollfds w @ [pfd]\<rparr>;
              idx = int (length (pollfds w)) - 1;
              w = put_chan a (c\<lparr>index := idx\<rparr>) w
          in Inr (w\<lparr>pchannels := (pchannels w)(fd c \<mapsto> a)\<rparr>))
     else check (pchannels w (fd c) \<noteq> None) (Assertion 77)
         (check (pchannels w (fd c) = Some a) (Assertion 78)
         (let idx = index c
          in check (in_array idx w) (Assertion 80)
            (let pfd = entry_at idx w
             in check (pfd_fd pfd = fd c \<or> pfd_fd pfd = - fd c - 1) (Assertion 82)
               (let pfd = pfd\<lparr>pfd_events := ucast (events c), pfd_revents := 0\<rparr>;
                    pfd = (if isNoneEvent c then pfd\<lparr>pfd_fd := - fd c - 1\<rparr> else pfd)
                in Inr (put_entry idx pfd w)))))))"

definition poller_removeChannel ::
  "bool \<Rightarrow> chan_addr \<Rightarrow> 'a poller_scheme \<Rightarrow> 'a poller_scheme result" where
  "poller_removeChannel inl a w =
     check inl (Fatal 95)
    (rbind (chan_at 96 a w) (\<lambda>c.
     check (pchannels w (fd c) \<noteq> None) (Assertion 98)
    (check (pchannels w (fd c) = Some a) (Assertion 99)
    (check (isNoneEvent c) (Assertion 100)
    (let idx = index c
     in check (in_array idx w) (Assertion 103)
       (let pfd = entry_at idx w
        in check (pfd_fd pfd = - fd c - 1 \<and> scast (pfd_events pfd) = events c) (Assertion 106)
          (let w = w\<lparr>pchannels := (pchannels w)(fd c := None)\<rparr>
           in if idx = int (length (pollfds w)) - 1
              then Inr (w\<lparr>pollfds := butlast (pollfds w)\<rparr>)
              else let channelAtEnd = pfd_fd (last (pollfds w));
                       moved = (pollfds w)[nat idx := last (pollfds w),
                                           length (pollfds w) - 1 := pfd];
                       w = w\<lparr>pollfds := moved\<rparr>;
                       channelAtEnd = (if channelAtEnd < 0 then - channelAtEnd - 1
                                       else channelAtEnd)
                   in case pchannels w channelAtEnd of
                        None \<Rightarrow> Inl (Undefined 124)
                      | Some b \<Rightarrow>
                          rbind (chan_at 124 b w) (\<lambda>d.
                            let w = put_chan b (d\<lparr>index := idx\<rparr>) w
                            in Inr (w\<lparr>pollfds := butlast (pollfds w)\<rparr>)))))))))"

text \<open>
  The loop of \<open>fillActiveChannels\<close>: it stops when \<open>n\<close> ready entries have been seen, \<open>n\<close>
  being what \<open>poll(2)\<close> returned.
\<close>

fun poller_fill ::
  "int \<Rightarrow> pollfd list \<Rightarrow> chan_addr list \<Rightarrow> 'a poller_scheme
   \<Rightarrow> (chan_addr list \<times> 'a poller_scheme) result" where
  "poller_fill n [] active w = Inr (active, w)"
| "poller_fill n (pfd # pfds) active w =
     (if n \<le> 0 then Inr (active, w)
      else if 0 < sint (pfd_revents pfd)
      then (case pchannels w (pfd_fd pfd) of
              None \<Rightarrow> Inl (Assertion 49)
            | Some a \<Rightarrow>
                rbind (chan_at 51 a w) (\<lambda>c.
                check (fd c = pfd_fd pfd) (Assertion 51)
                  (poller_fill (n - 1) pfds (active @ [a])
                     (put_chan a (c\<lparr>revents := scast (pfd_revents pfd)\<rparr>) w))))
      else poller_fill n pfds active w)"

text \<open>The kernel stores one \<open>revents\<close> per entry; \<open>io\<close> is its \<open>errno\<close> or its answer.\<close>

definition store_revents :: "16 word list \<Rightarrow> pollfd list \<Rightarrow> pollfd list" where
  "store_revents rs ps = map2 (\<lambda>r p. p\<lparr>pfd_revents := r\<rparr>) rs ps"

definition poller_poll ::
  "timestamp \<Rightarrow> int + int \<times> 16 word list \<Rightarrow> chan_addr list \<Rightarrow> 'a poller_scheme
   \<Rightarrow> (timestamp \<times> chan_addr list \<times> 'a poller_scheme) result" where
  "poller_poll now io active w =
     (case io of
        Inl e \<Rightarrow> Inr (now, active, w)
      | Inr (numEvents, rs) \<Rightarrow>
          let w = w\<lparr>pollfds := store_revents rs (pollfds w)\<rparr>
          in if numEvents > 0
             then rbind (poller_fill numEvents (pollfds w) active w)
                    (\<lambda>(active, w). Inr (now, active, w))
             else Inr (now, active, w))"

section \<open>Invariant\<close>

text \<open>
  Every registered channel knows the position of its entry, the entry carries its descriptor,
  possibly complemented, and its events, and every entry belongs to a registered channel.
\<close>

definition entry_ok :: "channel \<Rightarrow> pollfd \<Rightarrow> bool" where
  "entry_ok c p \<longleftrightarrow> (pfd_fd p = fd c \<or> pfd_fd p = - fd c - 1) \<and> pfd_events p = ucast (events c)"

definition pl_ok :: "'a poller_scheme \<Rightarrow> bool" where
  "pl_ok w \<longleftrightarrow>
     (\<forall>n a. pchannels w n = Some a \<longrightarrow> (\<exists>c. chans w a = Some c \<and> fd c = n \<and> 0 \<le> n
        \<and> in_array (index c) w \<and> entry_ok c (entry_at (index c) w)))
     \<and> (\<forall>i < length (pollfds w). \<exists>a c. chans w a = Some c \<and> pchannels w (fd c) = Some a
        \<and> index c = int i)"

definition pl_fresh :: "'a poller_scheme \<Rightarrow> chan_addr \<Rightarrow> bool" where
  "pl_fresh w a \<longleftrightarrow> (\<exists>c. chans w a = Some c \<and> index c < 0 \<and> 0 \<le> fd c)"

definition pl_quiet :: "'a poller_scheme \<Rightarrow> chan_addr \<Rightarrow> bool" where
  "pl_quiet w a \<longleftrightarrow> (\<exists>c. chans w a = Some c \<and> pfd_fd (entry_at (index c) w) = - fd c - 1)"

definition poller_change ::
  "(events \<Rightarrow> events) \<Rightarrow> chan_addr \<Rightarrow> 'a poller_scheme \<Rightarrow> 'a poller_scheme result" where
  "poller_change = change_events 83 (poller_updateChannel True)"

lemma new_Poller_ok: "pl_ok new_Poller"
  by (simp add: pl_ok_def new_Poller_def)

lemma pl_okD:
  assumes "pl_ok w"
  shows "pchannels w n = Some a \<Longrightarrow> \<exists>c. chans w a = Some c \<and> fd c = n \<and> 0 \<le> n
        \<and> in_array (index c) w \<and> entry_ok c (entry_at (index c) w)"
    and "i < length (pollfds w) \<Longrightarrow> \<exists>a c. chans w a = Some c \<and> pchannels w (fd c) = Some a
        \<and> index c = int i"
  using assms unfolding pl_ok_def by blast+

lemma pl_ok_owned:
  assumes "pl_ok w" "chans w a = Some c" "pchannels w (fd c) = Some a"
  shows "0 \<le> fd c" "in_array (index c) w" "entry_ok c (entry_at (index c) w)"
  using pl_okD(1)[OF assms(1,3)] assms(2) by auto

text \<open>Positions are not shared.\<close>

lemma pl_index_inj:
  assumes ok: "pl_ok w" and a: "chans w a = Some c" "pchannels w (fd c) = Some a"
    and b: "chans w b = Some d" "pchannels w (fd d) = Some b" and i: "index c = index d"
  shows "a = b"
proof -
  have "entry_ok c (entry_at (index c) w)" "0 \<le> fd c" using pl_ok_owned[OF ok a] by auto
  moreover have "entry_ok d (entry_at (index c) w)" "0 \<le> fd d" using pl_ok_owned[OF ok b] i by auto
  ultimately have "fd c = fd d" by (auto simp: entry_ok_def)
  with a b show ?thesis by simp
qed

lemma poller_frames [simp]:
  "pollfds (put_chan a c w) = pollfds w" "pchannels (put_chan a c w) = pchannels w"
  "chans (put_entry i p w) = chans w" "pchannels (put_entry i p w) = pchannels w"
  "pollfds (put_entry i p w) = (pollfds w)[nat i := p]"
  "in_array i (put_entry j p w) = in_array i w"
  "in_array i (put_chan a c w) = in_array i w"
  "entry_at i (put_chan a c w) = entry_at i w"
  by (simp_all add: put_chan_def put_entry_def in_array_def entry_at_def)

lemma poller_register_ok:
  assumes ok: "pl_ok w" and c: "chans w a = Some c" "pchannels w (fd c) = None" "pl_fresh w a"
  shows "\<exists>w'. poller_change f a w = Inr w' \<and> pl_ok w'
    \<and> pchannels w' = (pchannels w)(fd c \<mapsto> a)
    \<and> (\<exists>i. chans w' = (chans w)(a \<mapsto> c\<lparr>events := f (events c), index := i\<rparr>))"
proof -
  let ?len = "length (pollfds w)"
  let ?d = "c\<lparr>events := f (events c), index := int ?len\<rparr>"
  let ?p = "\<lparr>pfd_fd = fd c, pfd_events = ucast (f (events c)), pfd_revents = 0\<rparr>"
  define w' where "w' = w\<lparr>chans := (chans w)(a \<mapsto> ?d), pollfds := pollfds w @ [?p],
    pchannels := (pchannels w)(fd c \<mapsto> a)\<rparr>"
  have idx: "index c < 0" "0 \<le> fd c" using c by (auto simp: pl_fresh_def)
  have run: "poller_change f a w = Inr w'"
    using c idx by (simp add: poller_change_def change_events_def poller_updateChannel_def
        put_chan_def w'_def)
  have "pl_ok w'" unfolding pl_ok_def
  proof (intro conjI allI impI)
    fix n b assume n: "pchannels w' n = Some b"
    show "\<exists>c. chans w' b = Some c \<and> fd c = n \<and> 0 \<le> n \<and> in_array (index c) w'
        \<and> entry_ok c (entry_at (index c) w')"
    proof (cases "n = fd c")
      case True
      with n have "b = a" by (simp add: w'_def)
      with True idx show ?thesis
        by (simp add: w'_def in_array_def entry_at_def entry_ok_def nth_append)
    next
      case False
      with n have o: "pchannels w n = Some b" by (simp add: w'_def)
      from pl_okD(1)[OF ok o] obtain d where d: "chans w b = Some d" "fd d = n" "0 \<le> n"
        "in_array (index d) w" "entry_ok d (entry_at (index d) w)" by blast
      with False c have "b \<noteq> a" by auto
      with d show ?thesis by (auto simp: w'_def in_array_def entry_at_def nth_append nat_less_iff)
    qed
  next
    fix i assume i: "i < length (pollfds w')"
    show "\<exists>b d. chans w' b = Some d \<and> pchannels w' (fd d) = Some b \<and> index d = int i"
    proof (cases "i = ?len")
      case True
      then show ?thesis by (intro exI[of _ a] exI[of _ ?d]) (simp add: w'_def)
    next
      case False
      with i have "i < ?len" by (simp add: w'_def)
      from pl_okD(2)[OF ok this] obtain b d where d: "chans w b = Some d"
        "pchannels w (fd d) = Some b" "index d = int i" by blast
      with c idx have "b \<noteq> a" "fd d \<noteq> fd c" by auto
      with d show ?thesis by (intro exI[of _ b] exI[of _ d]) (simp add: w'_def)
    qed
  qed
  with run show ?thesis by (auto simp: w'_def)
qed

text \<open>An update of a registered channel only rewrites its own entry.\<close>

lemma poller_modify_ok:
  assumes ok: "pl_ok w" and c: "chans w a = Some c" "pchannels w (fd c) = Some a"
  shows "\<exists>w'. poller_change f a w = Inr w' \<and> pl_ok w' \<and> pchannels w' = pchannels w
    \<and> chans w' = (chans w)(a \<mapsto> c\<lparr>events := f (events c)\<rparr>)
    \<and> pfd_fd (entry_at (index c) w')
      = (if f (events c) = kNoneEvent then - fd c - 1 else pfd_fd (entry_at (index c) w))"
proof -
  note own = pl_ok_owned[OF ok c]
  let ?d = "c\<lparr>events := f (events c)\<rparr>"
  let ?p = "entry_at (index c) w"
  let ?q = "?p\<lparr>pfd_events := ucast (f (events c)), pfd_revents := 0,
    pfd_fd := if f (events c) = kNoneEvent then - fd c - 1 else pfd_fd ?p\<rparr>"
  define w' where "w' = put_entry (index c) ?q (put_chan a ?d w)"
  have ge: "\<not> index c < 0" using own(2) by (simp add: in_array_def)
  have "pfd_fd ?p = fd c \<or> pfd_fd ?p = - fd c - 1" using own(3) by (simp add: entry_ok_def)
  then have run: "poller_change f a w = Inr w'"
    using c own(2) ge by (auto simp: poller_change_def change_events_def poller_updateChannel_def
        w'_def isNoneEvent_def Let_def)
  have q: "entry_at (index c) w' = ?q"
    using own(2) by (simp add: w'_def entry_at_def put_entry_def in_array_def nat_less_iff)
  have "pl_ok w'" unfolding pl_ok_def
  proof (intro conjI allI impI)
    fix n b assume "pchannels w' n = Some b"
    then have o: "pchannels w n = Some b" by (simp add: w'_def)
    from pl_okD(1)[OF ok o] obtain d where d: "chans w b = Some d" "fd d = n" "0 \<le> n"
      "in_array (index d) w" "entry_ok d (entry_at (index d) w)" by blast
    show "\<exists>c. chans w' b = Some c \<and> fd c = n \<and> 0 \<le> n \<and> in_array (index c) w'
        \<and> entry_ok c (entry_at (index c) w')"
    proof (cases "b = a")
      case True
      with d c own q show ?thesis by (auto simp: w'_def entry_ok_def)
    next
      case False
      have "index d \<noteq> index c"
        using pl_index_inj[OF ok c, of b d] d o False by auto
      then have "nat (index d) \<noteq> nat (index c)"
        using d(4) own(2) by (auto simp: in_array_def)
      then have "entry_at (index d) w' = entry_at (index d) w"
        by (simp add: w'_def entry_at_def put_entry_def in_array_def put_chan_def)
      with d False show ?thesis by (simp add: w'_def)
    qed
  next
    fix i assume "i < length (pollfds w')"
    then have "i < length (pollfds w)" by (simp add: w'_def)
    from pl_okD(2)[OF ok this] obtain b d where "chans w b = Some d"
      "pchannels w (fd d) = Some b" "index d = int i" by blast
    with c show "\<exists>b d. chans w' b = Some d \<and> pchannels w' (fd d) = Some b \<and> index d = int i"
      by (cases "b = a") (auto simp: w'_def)
  qed
  with run q show ?thesis by (simp add: w'_def)
qed

text \<open>Removal: the last entry moves into the gap and its channel learns its new position.\<close>

lemma last_entry: "pollfds w \<noteq> [] \<Longrightarrow> last (pollfds w) = entry_at (int (length (pollfds w)) - 1) w"
proof -
  have "nat (int (length (pollfds w)) - 1) = length (pollfds w) - 1" by arith
  then show "pollfds w \<noteq> [] \<Longrightarrow> ?thesis" by (simp add: entry_at_def last_conv_nth)
qed

lemma poller_remove_run:
  assumes c: "chans w a = Some c" "pchannels w (fd c) = Some a" "in_array (index c) w"
    and e: "events c = kNoneEvent" "pfd_fd (entry_at (index c) w) = - fd c - 1"
      "entry_ok c (entry_at (index c) w)"
    and xs: "xs = pollfds w" and own: "own = (pchannels w)(fd c := None)"
  shows "poller_removeChannel True a w =
    (if index c = int (length xs) - 1 then Inr (w\<lparr>pchannels := own, pollfds := butlast xs\<rparr>)
     else case own (if pfd_fd (last xs) < 0 then - pfd_fd (last xs) - 1 else pfd_fd (last xs)) of
            None \<Rightarrow> Inl (Undefined 124)
          | Some b \<Rightarrow> rbind (chan_at 124 b w) (\<lambda>d.
              Inr (w\<lparr>chans := (chans w)(b \<mapsto> d\<lparr>index := index c\<rparr>),
                     pollfds := (butlast xs)[nat (index c) := last xs], pchannels := own\<rparr>)))"
proof -
  have "pfd_events (entry_at (index c) w) = ucast (events c)" using e(3) by (simp add: entry_ok_def)
  then have ev: "scast (pfd_events (entry_at (index c) w)) = events c"
    using e(1) by (simp add: kNoneEvent_def)
  show ?thesis
  proof (cases "index c = int (length xs) - 1")
    case True
    then show ?thesis
      using c e(1,2) ev unfolding xs own
      by (simp add: poller_removeChannel_def isNoneEvent_def Let_def)
  next
    case False
    then have "nat (index c) \<noteq> length (pollfds w) - Suc 0"
      using c(3) xs by (auto simp: in_array_def)
    with False show ?thesis
      using c e(1,2) ev unfolding xs own
      by (simp add: poller_removeChannel_def isNoneEvent_def Let_def butlast_list_update
          put_chan_def chan_at_def split: option.split)
  qed
qed

lemma pl_ok_drop_last:
  assumes ok: "pl_ok w" and c: "chans w a = Some c" "pchannels w (fd c) = Some a"
    and last: "index c = int (length (pollfds w)) - 1"
  shows "pl_ok (w\<lparr>pchannels := (pchannels w)(fd c := None), pollfds := butlast (pollfds w)\<rparr>)"
    (is "pl_ok ?w")
  unfolding pl_ok_def
proof (intro conjI allI impI)
  note own = pl_ok_owned[OF ok c]
  fix m b assume "pchannels ?w m = Some b"
  then have o: "pchannels w m = Some b" "m \<noteq> fd c" by (auto split: if_splits)
  from pl_okD(1)[OF ok o(1)] obtain d where d: "chans w b = Some d" "fd d = m" "0 \<le> m"
    "in_array (index d) w" "entry_ok d (entry_at (index d) w)" by blast
  have "b \<noteq> a" using d o c by auto
  then have "index d \<noteq> index c" using pl_index_inj[OF ok c, of b d] d o by auto
  then have "nat (index d) < length (pollfds w) - 1" "0 \<le> index d"
    using d(4) last own(2) by (auto simp: in_array_def)
  with d show "\<exists>c. chans ?w b = Some c \<and> fd c = m \<and> 0 \<le> m \<and> in_array (index c) ?w
      \<and> entry_ok c (entry_at (index c) ?w)"
    by (auto simp: in_array_def entry_at_def nth_butlast)
next
  fix k assume "k < length (pollfds ?w)"
  then have k: "k < length (pollfds w)" "int k \<noteq> index c" using last by auto
  from pl_okD(2)[OF ok k(1)] obtain b d where d: "chans w b = Some d"
    "pchannels w (fd d) = Some b" "index d = int k" by blast
  with k c have "fd d \<noteq> fd c" by auto
  with d show "\<exists>b d. chans ?w b = Some d \<and> pchannels ?w (fd d) = Some b \<and> index d = int k"
    by auto
qed

lemma pl_ok_move_last:
  assumes ok: "pl_ok w" and c: "chans w a = Some c" "pchannels w (fd c) = Some a"
    and d: "chans w b = Some d" "pchannels w (fd d) = Some b"
      "index d = int (length (pollfds w)) - 1" and less: "index c < index d"
  shows "pl_ok (w\<lparr>chans := (chans w)(b \<mapsto> d\<lparr>index := index c\<rparr>),
      pollfds := (butlast (pollfds w))[nat (index c) := last (pollfds w)],
      pchannels := (pchannels w)(fd c := None)\<rparr>)" (is "pl_ok ?w")
  unfolding pl_ok_def
proof (intro conjI allI impI)
  let ?xs = "pollfds w"
  note ownc = pl_ok_owned[OF ok c] and ownd = pl_ok_owned[OF ok d(1,2)]
  have ic: "nat (index c) < length ?xs - 1" "0 \<le> index c"
    using ownc(2) less d(3) by (auto simp: in_array_def)
  have last: "last ?xs = entry_at (index d) w"
    using d(3) ic last_entry[of w] by (cases "pollfds w = []") auto
  {
    fix m g assume "pchannels ?w m = Some g"
    then have o: "pchannels w m = Some g" "m \<noteq> fd c" by (auto split: if_splits)
    from pl_okD(1)[OF ok o(1)] obtain h where h: "chans w g = Some h" "fd h = m" "0 \<le> m"
      "in_array (index h) w" "entry_ok h (entry_at (index h) w)" by blast
    show "\<exists>c. chans ?w g = Some c \<and> fd c = m \<and> 0 \<le> m \<and> in_array (index c) ?w
        \<and> entry_ok c (entry_at (index c) ?w)"
    proof (cases "g = b")
      case True
      then have "h = d" using h d by simp
      then have "entry_ok (d\<lparr>index := index c\<rparr>) (last ?xs)" using ownd(3) last by (simp add: entry_ok_def)
      with True h \<open>h = d\<close> ic show ?thesis
        by (auto simp: in_array_def entry_at_def nat_less_iff)
    next
      case F: False
      have "g \<noteq> a" using h o c by auto
      then have k: "index h \<noteq> index c" "index h \<noteq> index d"
        using pl_index_inj[OF ok c, of g h] pl_index_inj[OF ok d(1,2), of g h] h o F by auto
      then have "nat (index h) < length ?xs - 1" "0 \<le> index h" "nat (index h) \<noteq> nat (index c)"
        using h(4) d(3) ic by (auto simp: in_array_def)
      with h F show ?thesis by (auto simp: in_array_def entry_at_def nth_butlast)
    qed
  next
    fix k assume "k < length (pollfds ?w)"
    then have k: "k < length ?xs" "int k \<noteq> index d" using d(3) by auto
    show "\<exists>b d. chans ?w b = Some d \<and> pchannels ?w (fd d) = Some b \<and> index d = int k"
    proof (cases "int k = index c")
      case True
      have "fd d \<noteq> fd c" using less c d by auto
      with True d show ?thesis by (intro exI[of _ b] exI[of _ "d\<lparr>index := index c\<rparr>"]) auto
    next
      case F: False
      from pl_okD(2)[OF ok k(1)] obtain g h where h: "chans w g = Some h"
        "pchannels w (fd h) = Some g" "index h = int k" by blast
      have "g \<noteq> b" "fd h \<noteq> fd c" using h d k F c by auto
      with h show ?thesis by auto
    qed
  }
qed

lemma poller_remove_ok:
  assumes ok: "pl_ok w" and c: "chans w a = Some c" "pchannels w (fd c) = Some a"
    and quiet: "events c = kNoneEvent" "pl_quiet w a"
  shows "\<exists>w'. poller_removeChannel True a w = Inr w' \<and> pl_ok w'
    \<and> pchannels w' = (pchannels w)(fd c := None)
    \<and> (\<forall>b. same_but_index (chans w b) (chans w' b)) \<and> chans w' a = Some c"
proof -
  note own = pl_ok_owned[OF ok c]
  have "pfd_fd (entry_at (index c) w) = - fd c - 1" using quiet(2) c by (simp add: pl_quiet_def)
  note run = poller_remove_run[OF c own(2) quiet(1) this own(3) refl refl]
  show ?thesis
  proof (cases "index c = int (length (pollfds w)) - 1")
    case True
    with run pl_ok_drop_last[OF ok c] c(1) show ?thesis by simp
  next
    case False
    then have less: "index c < int (length (pollfds w)) - 1" "0 < length (pollfds w)"
      using own(2) by (auto simp: in_array_def)
    from pl_okD(2)[OF ok, of "length (pollfds w) - 1"] less obtain b d where d: "chans w b = Some d"
      "pchannels w (fd d) = Some b" "index d = int (length (pollfds w)) - 1" by auto
    note ownd = pl_ok_owned[OF ok d(1,2)]
    have "last (pollfds w) = entry_at (index d) w"
      using d(3) less last_entry[of w] by auto
    then have "(if pfd_fd (last (pollfds w)) < 0 then - pfd_fd (last (pollfds w)) - 1
        else pfd_fd (last (pollfds w))) = fd d"
      using ownd by (auto simp: entry_ok_def)
    moreover have "fd d \<noteq> fd c" "b \<noteq> a" using c d less by auto
    ultimately have "poller_removeChannel True a w
      = Inr (w\<lparr>chans := (chans w)(b \<mapsto> d\<lparr>index := index c\<rparr>),
          pollfds := (butlast (pollfds w))[nat (index c) := last (pollfds w)],
          pchannels := (pchannels w)(fd c := None)\<rparr>)"
      using run False d by simp
    with pl_ok_move_last[OF ok c d] c(1) d less show ?thesis by auto
  qed
qed

section \<open>The contract\<close>

interpretation polls: registry pl_ok chans pchannels pl_fresh pl_quiet poller_change
    "poller_removeChannel True"
proof
  fix w :: "'a poller_scheme" and a c f
  assume ok: "pl_ok w" and c: "chans w a = Some c"
    and o: "pchannels w (fd c) = Some a \<or> pchannels w (fd c) = None \<and> pl_fresh w a"
  show "\<exists>w'. poller_change f a w = Inr w' \<and> pl_ok w' \<and> pchannels w' = (pchannels w)(fd c \<mapsto> a)
      \<and> same_but_index (Some (c\<lparr>events := f (events c)\<rparr>)) (chans w' a)
      \<and> (\<forall>b. b \<noteq> a \<longrightarrow> chans w' b = chans w b)
      \<and> (pchannels w (fd c) = Some a \<and> f (events c) = kNoneEvent \<longrightarrow> pl_quiet w' a)"
  proof (cases "pchannels w (fd c) = Some a")
    case True
    from poller_modify_ok[OF ok c True, of f] obtain w' where w': "poller_change f a w = Inr w'"
      "pl_ok w'" "pchannels w' = pchannels w" "chans w' = (chans w)(a \<mapsto> c\<lparr>events := f (events c)\<rparr>)"
      "pfd_fd (entry_at (index c) w')
      = (if f (events c) = kNoneEvent then - fd c - 1 else pfd_fd (entry_at (index c) w))" by blast
    moreover have "pchannels w' = (pchannels w)(fd c \<mapsto> a)" using w'(3) True by (simp add: fun_upd_idem)
    moreover have "same_but_index (Some (c\<lparr>events := f (events c)\<rparr>)) (chans w' a)"
      using w'(4) by (simp add: same_but_index_def)
    ultimately show ?thesis by (simp add: pl_quiet_def)
  next
    case False
    with o have "pchannels w (fd c) = None" "pl_fresh w a" by auto
    from poller_register_ok[OF ok c this, of f] False show ?thesis by auto
  qed
next
  fix w :: "'a poller_scheme" and a c
  assume "pl_ok w" "chans w a = Some c" "pchannels w (fd c) = Some a" "events c = kNoneEvent"
    "pl_quiet w a"
  from poller_remove_ok[OF this] show
    "\<exists>w'. poller_removeChannel True a w = Inr w' \<and> pl_ok w'
      \<and> pchannels w' = (pchannels w)(fd c := None)
      \<and> (\<forall>b. same_but_index (chans w b) (chans w' b))" by blast
qed

section \<open>Properties\<close>

text \<open>Taking a channel out of the \<open>poll\<close> array is safe wherever its entry lies. For any
  registered channel, \<open>disableAll\<close> followed by \<open>removeChannel\<close> passes every assertion; the
  entry that moves into the gap, if any, keeps serving its channel, whose index is corrected,
  so that every remaining channel still finds its own descriptor and events at its index.\<close>

theorem poller_retire_compacts:
  assumes "pl_ok w" "chans w a = Some c" "pchannels w (fd c) = Some a"
  shows "\<exists>w1 w2. poller_change (\<lambda>_. kNoneEvent) a w = Inr w1
    \<and> poller_removeChannel True a w1 = Inr w2 \<and> pl_ok w2
    \<and> pchannels w2 = (pchannels w)(fd c := None)
    \<and> (\<forall>b. b \<noteq> a \<longrightarrow> same_but_index (chans w b) (chans w2 b))"
  by (rule polls.retire_ok[OF assms])

definition wit_c5 :: channel where
  "wit_c5 = (new_Channel 0 5)\<lparr>events := kReadEvent, index := 0\<rparr>"
definition wit_c6 :: channel where
  "wit_c6 = (new_Channel 0 6)\<lparr>events := kReadEvent, index := 1\<rparr>"

definition wit_poller :: poller where
  "wit_poller = \<lparr>chans = [7 \<mapsto> wit_c5, 8 \<mapsto> wit_c6],
     pollfds = [\<lparr>pfd_fd = 5, pfd_events = ucast kReadEvent, pfd_revents = 0\<rparr>,
                \<lparr>pfd_fd = 6, pfd_events = ucast kReadEvent, pfd_revents = 0\<rparr>],
     pchannels = [5 \<mapsto> 7, 6 \<mapsto> 8]\<rparr>"

lemmas wit_poller_defs = wit_poller_def wit_c5_def wit_c6_def new_Channel_def

lemma wit_poller_ok: "pl_ok wit_poller"
  unfolding pl_ok_def
proof (intro conjI allI impI)
  fix n a assume "pchannels wit_poller n = Some a"
  then have "n = 5 \<and> a = 7 \<or> n = 6 \<and> a = 8" by (auto simp: wit_poller_defs split: if_splits)
  then show "\<exists>c. chans wit_poller a = Some c \<and> fd c = n \<and> 0 \<le> n
      \<and> in_array (index c) wit_poller \<and> entry_ok c (entry_at (index c) wit_poller)"
    by (auto simp: wit_poller_defs in_array_def entry_ok_def entry_at_def)
next
  fix i assume "i < length (pollfds wit_poller)"
  then consider "i = 0" | "i = 1" by (fastforce simp: wit_poller_def)
  then show "\<exists>a c. chans wit_poller a = Some c \<and> pchannels wit_poller (fd c) = Some a
      \<and> index c = int i"
    by cases (rule exI[of _ 7] exI[of _ 8], simp add: wit_poller_defs)+
qed

lemma wit_poller_registered: "chans wit_poller 7 = Some wit_c5" "pchannels wit_poller (fd wit_c5) = Some 7"
  by (simp_all add: wit_poller_defs)

theorem poller_retire_compacts_witness:
  "\<exists>w1 w2. poller_change (\<lambda>_. kNoneEvent) 7 wit_poller = Inr w1
    \<and> poller_removeChannel True 7 w1 = Inr w2 \<and> pl_ok w2 \<and> pchannels w2 = [6 \<mapsto> 8]"
proof -
  have "(pchannels wit_poller)(fd wit_c5 := None) = [6 \<mapsto> 8]"
    by (auto simp: wit_poller_defs fun_eq_iff)
  with poller_retire_compacts[OF wit_poller_ok wit_poller_registered] show ?thesis by auto
qed

text \<open>A descriptor that has been disabled in the \<open>poll\<close> array is never watched again.
  \<open>disableAll\<close> complements the descriptor in the channel's entry, and no later change of its
  events restores it: \<open>updateChannel\<close> succeeds, but the entry keeps a negative descriptor,
  which \<open>poll(2)\<close> ignores, whatever events the channel wants.\<close>

theorem poller_never_rewatches:
  assumes ok: "pl_ok w" and c: "chans w a = Some c" "pchannels w (fd c) = Some a"
  shows "\<exists>w1 w2 c2. poller_change (\<lambda>_. kNoneEvent) a w = Inr w1 \<and> poller_change f a w1 = Inr w2
    \<and> chans w2 a = Some c2 \<and> events c2 = f kNoneEvent \<and> pfd_fd (entry_at (index c2) w2) < 0"
proof -
  from poller_modify_ok[OF ok c, of "\<lambda>_. kNoneEvent"] obtain w1 where
    w1: "poller_change (\<lambda>_. kNoneEvent) a w = Inr w1" "pl_ok w1" "pchannels w1 = pchannels w"
    "chans w1 = (chans w)(a \<mapsto> c\<lparr>events := kNoneEvent\<rparr>)"
    "pfd_fd (entry_at (index c) w1) = - fd c - 1" by auto
  from poller_modify_ok[OF w1(2), of a "c\<lparr>events := kNoneEvent\<rparr>" f] w1 c obtain w2 where
    w2: "poller_change f a w1 = Inr w2"
    "chans w2 = (chans w1)(a \<mapsto> c\<lparr>events := f kNoneEvent\<rparr>)"
    "pfd_fd (entry_at (index c) w2) = - fd c - 1" by auto
  from pl_ok_owned(1)[OF ok c] w1(1) w2 show ?thesis by auto
qed

theorem poller_never_rewatches_witness:
  "\<exists>w1 w2 c2. poller_change (\<lambda>_. kNoneEvent) 7 wit_poller = Inr w1
    \<and> poller_change (\<lambda>e. e OR kReadEvent) 7 w1 = Inr w2
    \<and> chans w2 7 = Some c2 \<and> events c2 = kNoneEvent OR kReadEvent
    \<and> pfd_fd (entry_at (index c2) w2) < 0"
  by (rule poller_never_rewatches[OF wit_poller_ok wit_poller_registered])

text \<open>A channel removed from the \<open>poll\<close> array cannot be registered again. \<open>removeChannel\<close>
  leaves the old position in the channel's index, so the next \<open>updateChannel\<close> takes the
  channel for a registered one and its first assertion fails.\<close>

theorem poller_removed_channel_stuck:
  assumes ok: "pl_ok w" and c: "chans w a = Some c" "pchannels w (fd c) = Some a"
  shows "\<exists>w1 w2. poller_change (\<lambda>_. kNoneEvent) a w = Inr w1
    \<and> poller_removeChannel True a w1 = Inr w2 \<and> poller_change f a w2 = Inl (Assertion 77)"
proof -
  from poller_modify_ok[OF ok c, of "\<lambda>_. kNoneEvent"] obtain w1 where
    w1: "poller_change (\<lambda>_. kNoneEvent) a w = Inr w1" "pl_ok w1" "pchannels w1 = pchannels w"
    "chans w1 = (chans w)(a \<mapsto> c\<lparr>events := kNoneEvent\<rparr>)"
    "pfd_fd (entry_at (index c) w1) = - fd c - 1" by auto
  from poller_remove_ok[OF w1(2), of a "c\<lparr>events := kNoneEvent\<rparr>"] w1 c obtain w2 where
    w2: "poller_removeChannel True a w1 = Inr w2" "pchannels w2 = (pchannels w)(fd c := None)"
    "chans w2 a = Some (c\<lparr>events := kNoneEvent\<rparr>)" by (auto simp: pl_quiet_def)
  have "\<not> index c < 0" using pl_ok_owned(2)[OF ok c] by (simp add: in_array_def)
  then have "poller_change f a w2 = Inl (Assertion 77)"
    using w2 by (simp add: poller_change_def change_events_def poller_updateChannel_def)
  with w1(1) w2(1) show ?thesis by blast
qed

theorem poller_removed_channel_stuck_witness:
  "\<exists>w1 w2. poller_change (\<lambda>_. kNoneEvent) 7 wit_poller = Inr w1
    \<and> poller_removeChannel True 7 w1 = Inr w2
    \<and> poller_change (\<lambda>e. e OR kReadEvent) 7 w2 = Inl (Assertion 77)"
  by (rule poller_removed_channel_stuck[OF wit_poller_ok wit_poller_registered])

end
