(* ===== verification/EPollers.thy ===== *)
theory EPollers
  imports Pollers
begin

text \<open>
  \<open>EPoller\<close> (src/net/EPoller.h, EPoller.cpp), the \<open>epoll(4)\<close> multiplexer of the event loop.
  The state is the heap of channels, the map from descriptors to channels, the length of
  the event array, and the interest list of the kernel. \<open>epoll_ctl\<close> is a parameter, with
  its documented behaviour as a hypothesis; the result of \<open>epoll_wait\<close> is an input. \<open>inl\<close>
  is the result of \<open>isInLoopThread()\<close>; a call from another thread aborts in
  \<open>assertInLoopThread\<close>.
\<close>

section \<open>State and operations\<close>

datatype epoll_op = EPOLL_CTL_ADD | EPOLL_CTL_DEL | EPOLL_CTL_MOD

text \<open>An \<open>epoll_event\<close>: the event bits and \<open>data.ptr\<close>.\<close>

type_synonym epoll_event = "events \<times> chan_addr"
type_synonym interest = "int \<rightharpoonup> epoll_event"
type_synonym epoll_ctl = "epoll_op \<Rightarrow> int \<Rightarrow> epoll_event \<Rightarrow> interest \<Rightarrow> int \<times> interest"

record epoller = reactor +
  channels :: "int \<rightharpoonup> chan_addr"
  events_size :: nat
  kernel :: interest

definition kInitEventListSize :: nat where "kInitEventListSize = 16"
definition kNew :: int where "kNew = - 1"
definition kAdded :: int where "kAdded = 1"
definition kDeleted :: int where "kDeleted = 2"

lemmas index_consts = kNew_def kAdded_def kDeleted_def

definition new_EPoller :: epoller where
  "new_EPoller = \<lparr>chans = Map.empty, channels = Map.empty,
     events_size = kInitEventListSize, kernel = Map.empty\<rparr>"

definition epoll_update ::
  "epoll_ctl \<Rightarrow> epoll_op \<Rightarrow> chan_addr \<Rightarrow> 'a epoller_scheme \<Rightarrow> 'a epoller_scheme result" where
  "epoll_update ctl operation a w =
     rbind (chan_at 157 a w) (\<lambda>c.
     let (r, k) = ctl operation (fd c) (events c, a) (kernel w);
         w = w\<lparr>kernel := k\<rparr>
     in if r < 0
        then (if operation = EPOLL_CTL_DEL then Inr w else Inl (Fatal 165))
        else Inr w)"

definition set_index :: "int \<Rightarrow> chan_addr \<Rightarrow> 'a epoller_scheme \<Rightarrow> 'a epoller_scheme" where
  "set_index i a w =
     w\<lparr>chans := (chans w)(a := map_option (\<lambda>c. c\<lparr>index := i\<rparr>) (chans w a))\<rparr>"

definition epoll_updateChannel ::
  "epoll_ctl \<Rightarrow> bool \<Rightarrow> chan_addr \<Rightarrow> 'a epoller_scheme \<Rightarrow> 'a epoller_scheme result" where
  "epoll_updateChannel ctl inl a w =
     check inl (Fatal 89)
    (rbind (chan_at 93 a w) (\<lambda>c.
     if index c = kNew \<or> index c = kDeleted
     then rbind
            (if index c = kNew
             then check (channels w (fd c) = None) (Assertion 100)
                    (Inr (w\<lparr>channels := (channels w)(fd c \<mapsto> a)\<rparr>))
             else check (channels w (fd c) \<noteq> None) (Assertion 105)
                 (check (channels w (fd c) = Some a) (Assertion 106) (Inr w)))
            (\<lambda>w. epoll_update ctl EPOLL_CTL_ADD a (set_index kAdded a w))
     else check (channels w (fd c) \<noteq> None) (Assertion 116)
         (check (channels w (fd c) = Some a) (Assertion 117)
         (check (index c = kAdded) (Assertion 118)
         (if isNoneEvent c
          then rbind (epoll_update ctl EPOLL_CTL_DEL a w) (\<lambda>w. Inr (set_index kDeleted a w))
          else epoll_update ctl EPOLL_CTL_MOD a w)))))"

definition epoll_removeChannel ::
  "epoll_ctl \<Rightarrow> bool \<Rightarrow> chan_addr \<Rightarrow> 'a epoller_scheme \<Rightarrow> 'a epoller_scheme result" where
  "epoll_removeChannel ctl inl a w =
     check inl (Fatal 133)
    (rbind (chan_at 134 a w) (\<lambda>c.
     check (channels w (fd c) \<noteq> None) (Assertion 136)
    (check (channels w (fd c) = Some a) (Assertion 137)
    (check (isNoneEvent c) (Assertion 138)
    (check (index c = kAdded \<or> index c = kDeleted) (Assertion 140)
    (let w = w\<lparr>channels := (channels w)(fd c := None)\<rparr>
     in rbind (if index c = kAdded then epoll_update ctl EPOLL_CTL_DEL a w else Inr w)
          (\<lambda>w. Inr (set_index kNew a w))))))))"

definition report_event ::
  "epoll_event \<Rightarrow> chan_addr list \<times> 'a epoller_scheme \<Rightarrow> (chan_addr list \<times> 'a epoller_scheme) result" where
  "report_event ev s = (case (ev, s) of ((r, a), (active, w)) \<Rightarrow>
     rbind (chan_at 77 a w) (\<lambda>c.
     check (channels w (fd c) \<noteq> None) (Assertion 79)
    (check (channels w (fd c) = Some a) (Assertion 80)
      (Inr (active @ [a], put_chan a (c\<lparr>revents := r\<rparr>) w)))))"

definition epoll_fillActiveChannels ::
  "epoll_event list \<Rightarrow> chan_addr list \<Rightarrow> 'a epoller_scheme
   \<Rightarrow> (chan_addr list \<times> 'a epoller_scheme) result" where
  "epoll_fillActiveChannels evs active w =
     check (length evs \<le> events_size w) (Assertion 71)
       (for_each report_event evs (active, w))"

text \<open>
  \<open>poll\<close>: the reported events, or the \<open>errno\<close> of a failed \<open>epoll_wait\<close>, are the input \<open>io\<close>;
  the time stamp returned is the clock reading \<open>now\<close>.
\<close>

definition epoll_poll ::
  "timestamp \<Rightarrow> int + epoll_event list \<Rightarrow> chan_addr list \<Rightarrow> 'a epoller_scheme
   \<Rightarrow> (timestamp \<times> chan_addr list \<times> 'a epoller_scheme) result" where
  "epoll_poll now io active w =
     (case io of
        Inl e \<Rightarrow> Inr (now, active, w)
      | Inr evs \<Rightarrow>
          if evs = [] then Inr (now, active, w)
          else rbind (epoll_fillActiveChannels evs active w) (\<lambda>(active, w).
                 Inr (now, active,
                   if length evs = events_size w then w\<lparr>events_size := 2 * events_size w\<rparr> else w)))"

section \<open>The kernel\<close>

text \<open>
  What epoll_ctl(2) documents and the program relies on: an addition fails only if the
  descriptor is registered already, a change or a deletion only if it is not, and the
  interest list changes accordingly. (Running out of memory or of watches is excluded.)
\<close>

definition epoll_documented :: "epoll_ctl \<Rightarrow> bool" where
  "epoll_documented ctl \<longleftrightarrow> (\<forall>n ev k.
     (k n = None \<longrightarrow> fst (ctl EPOLL_CTL_ADD n ev k) \<ge> 0
        \<and> snd (ctl EPOLL_CTL_ADD n ev k) = k(n \<mapsto> ev)
        \<and> fst (ctl EPOLL_CTL_MOD n ev k) < 0 \<and> fst (ctl EPOLL_CTL_DEL n ev k) < 0)
     \<and> (k n \<noteq> None \<longrightarrow> fst (ctl EPOLL_CTL_ADD n ev k) < 0
        \<and> fst (ctl EPOLL_CTL_MOD n ev k) \<ge> 0 \<and> snd (ctl EPOLL_CTL_MOD n ev k) = k(n \<mapsto> ev)
        \<and> fst (ctl EPOLL_CTL_DEL n ev k) \<ge> 0 \<and> snd (ctl EPOLL_CTL_DEL n ev k) = k(n := None))
     \<and> (\<forall>x. fst (ctl x n ev k) < 0 \<longrightarrow> snd (ctl x n ev k) = k))"

fun linux_ctl :: epoll_ctl where
  "linux_ctl EPOLL_CTL_ADD n ev k = (if k n = None then (0, k(n \<mapsto> ev)) else (- 1, k))"
| "linux_ctl EPOLL_CTL_MOD n ev k = (if k n = None then (- 1, k) else (0, k(n \<mapsto> ev)))"
| "linux_ctl EPOLL_CTL_DEL n ev k = (if k n = None then (- 1, k) else (0, k(n := None)))"

lemma linux_ctl_documented: "epoll_documented linux_ctl"
proof -
  have "\<forall>n ev k x. fst (linux_ctl x n ev k) < 0 \<longrightarrow> snd (linux_ctl x n ev k) = k"
    by (intro allI, rename_tac x, case_tac x) auto
  then show ?thesis unfolding epoll_documented_def by auto
qed

lemma epoll_documentedD:
  assumes "epoll_documented ctl"
  shows "k n = None \<Longrightarrow> \<exists>r \<ge> 0. ctl EPOLL_CTL_ADD n ev k = (r, k(n \<mapsto> ev))"
    and "k n \<noteq> None \<Longrightarrow> \<exists>r \<ge> 0. ctl EPOLL_CTL_MOD n ev k = (r, k(n \<mapsto> ev))"
    and "k n \<noteq> None \<Longrightarrow> \<exists>r \<ge> 0. ctl EPOLL_CTL_DEL n ev k = (r, k(n := None))"
  using assms unfolding epoll_documented_def
  by (metis (no_types, lifting) prod.collapse)+

lemma epoll_add:
  assumes "epoll_documented ctl" "chans w a = Some c" "kernel w (fd c) = None"
  shows "epoll_update ctl EPOLL_CTL_ADD a w = Inr (w\<lparr>kernel := (kernel w)(fd c \<mapsto> (events c, a))\<rparr>)"
  using epoll_documentedD(1)[OF assms(1), of "kernel w" "fd c" "(events c, a)"] assms(2,3)
  by (auto simp: epoll_update_def)

lemma epoll_mod:
  assumes "epoll_documented ctl" "chans w a = Some c" "kernel w (fd c) \<noteq> None"
  shows "epoll_update ctl EPOLL_CTL_MOD a w = Inr (w\<lparr>kernel := (kernel w)(fd c \<mapsto> (events c, a))\<rparr>)"
  using epoll_documentedD(2)[of ctl "kernel w" "fd c" "(events c, a)"] assms
  by (auto simp: epoll_update_def)

lemma epoll_del:
  assumes "epoll_documented ctl" "chans w a = Some c" "kernel w (fd c) \<noteq> None"
  shows "epoll_update ctl EPOLL_CTL_DEL a w = Inr (w\<lparr>kernel := (kernel w)(fd c := None)\<rparr>)"
  using epoll_documentedD(3)[of ctl "kernel w" "fd c" "(events c, a)"] assms
  by (auto simp: epoll_update_def)

section \<open>Invariant\<close>

text \<open>
  A registered descriptor belongs to a live channel that watches it; the index tells whether
  the kernel watches it too, and then the kernel has the channel's events and address.
\<close>

definition ep_ok :: "'a epoller_scheme \<Rightarrow> bool" where
  "ep_ok w \<longleftrightarrow>
     (\<forall>n a. channels w n = Some a \<longrightarrow> (\<exists>c. chans w a = Some c \<and> fd c = n
        \<and> (index c = kAdded \<and> kernel w n = Some (events c, a)
           \<or> index c = kDeleted \<and> events c = kNoneEvent \<and> kernel w n = None)))
     \<and> (\<forall>n. channels w n = None \<longrightarrow> kernel w n = None)
     \<and> (\<forall>a c. chans w a = Some c \<longrightarrow> channels w (fd c) \<noteq> Some a \<longrightarrow> index c = kNew)"

lemma ep_okD:
  assumes "ep_ok w"
  shows "channels w n = Some a \<Longrightarrow> \<exists>c. chans w a = Some c \<and> fd c = n
        \<and> (index c = kAdded \<and> kernel w n = Some (events c, a)
           \<or> index c = kDeleted \<and> events c = kNoneEvent \<and> kernel w n = None)"
    and "channels w n = None \<Longrightarrow> kernel w n = None"
    and "chans w a = Some c \<Longrightarrow> channels w (fd c) \<noteq> Some a \<Longrightarrow> index c = kNew"
  using assms unfolding ep_ok_def by blast+

lemma ep_ok_owned:
  assumes "ep_ok w" "chans w a = Some c" "channels w (fd c) = Some a"
  shows "index c = kAdded \<and> kernel w (fd c) = Some (events c, a)
    \<or> index c = kDeleted \<and> events c = kNoneEvent \<and> kernel w (fd c) = None"
  using ep_okD(1)[OF assms(1,3)] assms(2) by auto

lemma new_EPoller_ok: "ep_ok new_EPoller"
  by (simp add: ep_ok_def new_EPoller_def)

text \<open>Storing a channel together with its registration and its kernel entry.\<close>

lemma ep_ok_store:
  assumes ok: "ep_ok w" and c: "chans w a = Some c" "channels w (fd c) \<in> {None, Some a}"
    and d: "fd d = fd c" "chans w' = (chans w)(a \<mapsto> d)" "channels w' = (channels w)(fd c \<mapsto> a)"
    and k: "index d = kAdded \<and> kernel w' = (kernel w)(fd c \<mapsto> (events d, a))
      \<or> index d = kDeleted \<and> events d = kNoneEvent \<and> kernel w' = (kernel w)(fd c := None)"
  shows "ep_ok w'"
proof -
  have other: "\<exists>c'. chans w' b = Some c' \<and> fd c' = n
        \<and> (index c' = kAdded \<and> kernel w' n = Some (events c', b)
           \<or> index c' = kDeleted \<and> events c' = kNoneEvent \<and> kernel w' n = None)"
    if "channels w' n = Some b" for n b
  proof (cases "n = fd c")
    case True
    with that d have "b = a" by simp
    with True d k show ?thesis by auto
  next
    case False
    with that d have own: "channels w n = Some b" by simp
    from ep_okD(1)[OF ok own] obtain c' where c': "chans w b = Some c'" "fd c' = n"
      "index c' = kAdded \<and> kernel w n = Some (events c', b)
           \<or> index c' = kDeleted \<and> events c' = kNoneEvent \<and> kernel w n = None" by blast
    have "b \<noteq> a" using c' c False by auto
    with c' False d k show ?thesis by auto
  qed
  have "kernel w' n = None" if "channels w' n = None" for n
    using that d k ep_okD(2)[OF ok, of n] by (auto split: if_splits)
  moreover have "index c' = kNew" if "chans w' b = Some c'" "channels w' (fd c') \<noteq> Some b" for b c'
  proof (cases "b = a")
    case True
    with that d show ?thesis by simp
  next
    case False
    with that d have "chans w b = Some c'" by simp
    moreover have "channels w (fd c') \<noteq> Some b"
      using that(2) d c(2) False by (cases "fd c' = fd c") auto
    ultimately show ?thesis by (rule ep_okD(3)[OF ok])
  qed
  ultimately show ?thesis using other unfolding ep_ok_def by blast
qed

lemma ep_ok_forget:
  assumes ok: "ep_ok w" and c: "chans w a = Some c" "channels w (fd c) = Some a"
    and d: "fd d = fd c" "index d = kNew" "chans w' = (chans w)(a \<mapsto> d)"
      "channels w' = (channels w)(fd c := None)" "kernel w' = (kernel w)(fd c := None)"
  shows "ep_ok w'"
proof -
  have "\<exists>c'. chans w' b = Some c' \<and> fd c' = n
        \<and> (index c' = kAdded \<and> kernel w' n = Some (events c', b)
           \<or> index c' = kDeleted \<and> events c' = kNoneEvent \<and> kernel w' n = None)"
    if "channels w' n = Some b" for n b
  proof -
    from that d have n: "n \<noteq> fd c" "channels w n = Some b" by (auto split: if_splits)
    with ep_okD(1)[OF ok n(2)] c have "b \<noteq> a" by auto
    with ep_okD(1)[OF ok n(2)] n d show ?thesis by auto
  qed
  moreover have "kernel w' n = None" if "channels w' n = None" for n
    using that d ep_okD(2)[OF ok, of n] by (auto split: if_splits)
  moreover have "index c' = kNew" if "chans w' b = Some c'" "channels w' (fd c') \<noteq> Some b" for b c'
  proof (cases "b = a")
    case True
    with that d show ?thesis by simp
  next
    case False
    with that d c have "chans w b = Some c'" "channels w (fd c') \<noteq> Some b"
      by (auto split: if_splits)
    then show ?thesis by (rule ep_okD(3)[OF ok])
  qed
  ultimately show ?thesis unfolding ep_ok_def by blast
qed

text \<open>A channel just constructed, before it is registered.\<close>

lemma ep_ok_new_chan:
  assumes ok: "ep_ok w" and a: "chans w a = None" and c: "index c = kNew"
  shows "ep_ok (put_chan a c w)"
proof -
  have "b \<noteq> a" if "channels w n = Some b" for n b
    using ep_okD(1)[OF ok that] a by auto
  with ok c show ?thesis unfolding ep_ok_def put_chan_def by auto
qed

lemma set_index_put: "set_index i a (put_chan a c w) = put_chan a (c\<lparr>index := i\<rparr>) w"
  by (simp add: set_index_def put_chan_def)

lemma epoller_frames [simp]:
  "channels (put_chan a c w) = channels w" "kernel (put_chan a c w) = kernel w"
  "events_size (put_chan a c w) = events_size w"
  "channels (set_index i a w) = channels w" "kernel (set_index i a w) = kernel w"
  "events_size (set_index i a w) = events_size w"
  "chans (set_index i a w) = (chans w)(a := map_option (\<lambda>c. c\<lparr>index := i\<rparr>) (chans w a))"
  by (simp_all add: put_chan_def set_index_def)

text \<open>A change of events and \<open>updateChannel\<close>, from every state of the registration.\<close>

lemma epoll_change_ok:
  assumes doc: "epoll_documented ctl" and ok: "ep_ok w"
    and c: "chans w a = Some c" "channels w (fd c) \<in> {None, Some a}"
  shows "\<exists>w' i. change_events l (epoll_updateChannel ctl True) f a w = Inr w' \<and> ep_ok w'
    \<and> channels w' = (channels w)(fd c \<mapsto> a)
    \<and> chans w' = (chans w)(a \<mapsto> c\<lparr>events := f (events c), index := i\<rparr>)
    \<and> w' = w\<lparr>chans := chans w', channels := channels w', kernel := kernel w'\<rparr>"
proof -
  let ?d = "c\<lparr>events := f (events c)\<rparr>"
  let ?w = "put_chan a ?d w"
  let ?done = "\<lambda>w' i. change_events l (epoll_updateChannel ctl True) f a w = Inr w'
    \<and> channels w' = (channels w)(fd c \<mapsto> a) \<and> chans w' = (chans w)(a \<mapsto> ?d\<lparr>index := i\<rparr>)
    \<and> w' = w\<lparr>chans := chans w', channels := channels w', kernel := kernel w'\<rparr>"
  have start: "change_events l (epoll_updateChannel ctl True) f a w = epoll_updateChannel ctl True a ?w"
    using c(1) by (simp add: change_events_def)
  have fin: ?thesis if "?done w' i" "i = kAdded \<and> kernel w' = (kernel w)(fd c \<mapsto> (events ?d, a))
      \<or> i = kDeleted \<and> events ?d = kNoneEvent \<and> kernel w' = (kernel w)(fd c := None)" for w' i
  proof -
    have "ep_ok w'"
      using that by (intro ep_ok_store[OF ok c, of "?d\<lparr>index := i\<rparr>"]) auto
    with that(1) show ?thesis by blast
  qed
  consider (new) "channels w (fd c) = None"
    | (added) "channels w (fd c) = Some a" "index c = kAdded" "kernel w (fd c) = Some (events c, a)"
    | (deleted) "channels w (fd c) = Some a" "index c = kDeleted" "kernel w (fd c) = None"
    using c(2) ep_ok_owned[OF ok c(1)] by auto
  then show ?thesis
  proof cases
    case new
    have i: "index c = kNew" using ep_okD(3)[OF ok c(1)] new by simp
    have k: "kernel w (fd c) = None" by (rule ep_okD(2)[OF ok new])
    let ?u = "set_index kAdded a (?w\<lparr>channels := (channels w)(fd c \<mapsto> a)\<rparr>)"
    have "epoll_updateChannel ctl True a ?w = epoll_update ctl EPOLL_CTL_ADD a ?u"
      using new i by (simp add: epoll_updateChannel_def)
    also have "\<dots> = Inr (?u\<lparr>kernel := (kernel ?u)(fd c \<mapsto> (events ?d, a))\<rparr>)"
      using epoll_add[OF doc, of ?u a "?d\<lparr>index := kAdded\<rparr>"] k by simp
    finally show ?thesis unfolding start[symmetric]
      by (rule fin[OF conjI[of _ _], where i = kAdded]) (simp_all add: put_chan_def set_index_def)
  next
    case added
    show ?thesis
    proof (cases "f (events c) = kNoneEvent")
      case True
      have "epoll_updateChannel ctl True a ?w
          = rbind (epoll_update ctl EPOLL_CTL_DEL a ?w) (\<lambda>w. Inr (set_index kDeleted a w))"
        using added True by (simp add: epoll_updateChannel_def isNoneEvent_def index_consts)
      also have "\<dots> = Inr (set_index kDeleted a (?w\<lparr>kernel := (kernel w)(fd c := None)\<rparr>))"
        using epoll_del[OF doc, of ?w a ?d] added by simp
      finally show ?thesis unfolding start[symmetric]
        by (rule fin[OF conjI[of _ _], where i = kDeleted]) (simp_all add: put_chan_def set_index_def True added fun_upd_idem)
    next
      case False
      have "epoll_updateChannel ctl True a ?w = epoll_update ctl EPOLL_CTL_MOD a ?w"
        using added False by (simp add: epoll_updateChannel_def isNoneEvent_def index_consts)
      also have "\<dots> = Inr (?w\<lparr>kernel := (kernel w)(fd c \<mapsto> (events ?d, a))\<rparr>)"
        using epoll_mod[OF doc, of ?w a ?d] added by simp
      finally have run: "epoll_updateChannel ctl True a ?w
        = Inr (?w\<lparr>kernel := (kernel w)(fd c \<mapsto> (events ?d, a))\<rparr>)" .
      have same: "c\<lparr>events := f (events c), index := kAdded\<rparr> = ?d"
        using added(2) by (cases c) simp
      show ?thesis
        using run added start
        by (intro fin[where i = kAdded
              and w' = "?w\<lparr>kernel := (kernel w)(fd c \<mapsto> (events ?d, a))\<rparr>"])
          (simp_all add: put_chan_def set_index_def fun_upd_idem same)
    qed
  next
    case deleted
    let ?u = "set_index kAdded a ?w"
    have "epoll_updateChannel ctl True a ?w = epoll_update ctl EPOLL_CTL_ADD a ?u"
      using deleted by (simp add: epoll_updateChannel_def index_consts)
    also have "\<dots> = Inr (?u\<lparr>kernel := (kernel ?u)(fd c \<mapsto> (events ?d, a))\<rparr>)"
      using epoll_add[OF doc, of ?u a "?d\<lparr>index := kAdded\<rparr>"] deleted by simp
    finally show ?thesis unfolding start[symmetric]
      by (rule fin[OF conjI[of _ _], where i = kAdded]) (simp_all add: put_chan_def set_index_def deleted fun_upd_idem)
  qed
qed

lemma epoll_remove_ok:
  assumes doc: "epoll_documented ctl" and ok: "ep_ok w"
    and c: "chans w a = Some c" "channels w (fd c) = Some a" and none: "events c = kNoneEvent"
  shows "\<exists>w'. epoll_removeChannel ctl True a w = Inr w' \<and> ep_ok w'
    \<and> channels w' = (channels w)(fd c := None)
    \<and> chans w' = (chans w)(a \<mapsto> c\<lparr>index := kNew\<rparr>)
    \<and> w' = w\<lparr>chans := chans w', channels := channels w', kernel := kernel w'\<rparr>"
proof -
  let ?u = "w\<lparr>channels := (channels w)(fd c := None)\<rparr>"
  let ?r = "set_index kNew a (?u\<lparr>kernel := (kernel w)(fd c := None)\<rparr>)"
  note own = ep_ok_owned[OF ok c]
  have run: "epoll_removeChannel ctl True a w = Inr ?r"
  proof (cases "index c = kAdded")
    case True
    with own have "kernel w (fd c) \<noteq> None" by (auto simp: index_consts)
    with True c none epoll_del[OF doc, of ?u a c] show ?thesis
      by (simp add: epoll_removeChannel_def isNoneEvent_def)
  next
    case False
    with own have "index c = kDeleted" "kernel w (fd c) = None" by auto
    with False c none show ?thesis
      by (simp add: epoll_removeChannel_def isNoneEvent_def fun_upd_idem)
  qed
  have "ep_ok ?r"
    by (rule ep_ok_forget[OF ok c, of "c\<lparr>index := kNew\<rparr>"]) (simp_all add: c(1))
  with run c(1) show ?thesis by (auto simp: set_index_def)
qed

section \<open>The contract\<close>

definition asked_events :: "'a epoller_scheme \<Rightarrow> int \<Rightarrow> events" where
  "asked_events w n = (case kernel w n of None \<Rightarrow> kNoneEvent | Some (e, a) \<Rightarrow> e)"

definition epoll_change :: "epoll_ctl \<Rightarrow> (events \<Rightarrow> events) \<Rightarrow> chan_addr
    \<Rightarrow> 'a epoller_scheme \<Rightarrow> 'a epoller_scheme result" where
  "epoll_change ctl = change_events 83 (epoll_updateChannel ctl True)"

lemma epoll_registry:
  assumes doc: "epoll_documented ctl"
  shows "registry ep_ok chans channels (\<lambda>w a. True) (\<lambda>w a. True) (epoll_change ctl) (epoll_removeChannel ctl True)"
proof
  fix w :: "'a epoller_scheme" and a c f
  assume h: "ep_ok w" "chans w a = Some c"
    "channels w (fd c) = Some a \<or> channels w (fd c) = None \<and> True"
  from epoll_change_ok[OF doc h(1,2), of 83 f] h(3) show
    "\<exists>w'. epoll_change ctl f a w = Inr w' \<and> ep_ok w' \<and> channels w' = (channels w)(fd c \<mapsto> a)
      \<and> same_but_index (Some (c\<lparr>events := f (events c)\<rparr>)) (chans w' a)
      \<and> (\<forall>b. b \<noteq> a \<longrightarrow> chans w' b = chans w b)
      \<and> (channels w (fd c) = Some a \<and> f (events c) = kNoneEvent \<longrightarrow> True)"
    by (auto simp: epoll_change_def)
next
  fix w :: "'a epoller_scheme" and a c
  assume h: "ep_ok w" "chans w a = Some c" "channels w (fd c) = Some a" "events c = kNoneEvent"
  from epoll_remove_ok[OF doc h] h(2) show
    "\<exists>w'. epoll_removeChannel ctl True a w = Inr w' \<and> ep_ok w'
      \<and> channels w' = (channels w)(fd c := None)
      \<and> (\<forall>b. same_but_index (chans w b) (chans w' b))"
    by auto
qed

lemma epoll_event_poller:
  assumes doc: "epoll_documented ctl"
  shows "event_poller ep_ok chans channels (epoll_change ctl) (epoll_removeChannel ctl True) asked_events"
proof (rule event_poller.intro[OF epoll_registry[OF doc]], unfold_locales)
  fix w :: "'a epoller_scheme" and n
  assume ok: "ep_ok w"
  show "asked_events w n = (case channels w n of None \<Rightarrow> kNoneEvent
       | Some a \<Rightarrow> (case chans w a of None \<Rightarrow> kNoneEvent | Some c \<Rightarrow> events c))"
  proof (cases "channels w n")
    case None
    with ep_okD(2)[OF ok] show ?thesis by (simp add: asked_events_def)
  next
    case (Some a)
    from ep_okD(1)[OF ok Some] Some show ?thesis by (auto simp: asked_events_def)
  qed
qed

interpretation linux: event_poller ep_ok chans channels "epoll_change linux_ctl"
    "epoll_removeChannel linux_ctl True" asked_events
  by (rule epoll_event_poller[OF linux_ctl_documented])

section \<open>Lemmas on polling\<close>

definition mark :: "epoll_event list \<Rightarrow> (chan_addr \<rightharpoonup> channel) \<Rightarrow> (chan_addr \<rightharpoonup> channel)" where
  "mark evs m = (\<lambda>a. map_option (\<lambda>c. c\<lparr>revents :=
     (case map_of (map (\<lambda>(r, a). (a, r)) evs) a of None \<Rightarrow> revents c | Some r \<Rightarrow> r)\<rparr>) (m a))"

definition registered :: "'a epoller_scheme \<Rightarrow> chan_addr \<Rightarrow> bool" where
  "registered w a \<longleftrightarrow> (\<exists>c. chans w a = Some c \<and> channels w (fd c) = Some a)"

lemma mark_Cons:
  assumes "a \<notin> snd ` set evs" "m a = Some c"
  shows "mark evs (m(a \<mapsto> c\<lparr>revents := r\<rparr>)) = mark ((r, a) # evs) m"
proof
  fix b
  have "map_of (map (\<lambda>(r, a). (a, r)) evs) a = None"
    using assms(1) by (force simp: map_of_eq_None_iff)
  then show "mark evs (m(a \<mapsto> c\<lparr>revents := r\<rparr>)) b = mark ((r, a) # evs) m b"
    using assms(2) by (simp add: mark_def)
qed

lemma report_events:
  assumes "\<And>a. a \<in> snd ` set evs \<Longrightarrow> registered w a" "distinct (map snd evs)"
  shows "for_each report_event evs (active, w)
    = Inr (active @ map snd evs, w\<lparr>chans := mark evs (chans w)\<rparr>)"
  using assms
proof (induction evs arbitrary: active w)
  case Nil
  have "mark [] (chans w) = chans w" by (simp add: mark_def fun_eq_iff option.map_ident)
  then show ?case by simp
next
  case (Cons ev evs)
  obtain r a where ev: "ev = (r, a)" by (cases ev)
  from Cons.prems(1)[of a] ev obtain c where c: "chans w a = Some c" "channels w (fd c) = Some a"
    by (auto simp: registered_def)
  let ?w = "put_chan a (c\<lparr>revents := r\<rparr>) w"
  have step: "report_event ev (active, w) = Inr (active @ [a], ?w)"
    using c by (simp add: report_event_def ev)
  have "registered ?w b" if "b \<in> snd ` set evs" for b
    using Cons.prems(1)[of b] that c by (auto simp: registered_def)
  then have "for_each report_event evs (active @ [a], ?w)
      = Inr ((active @ [a]) @ map snd evs, ?w\<lparr>chans := mark evs (chans ?w)\<rparr>)"
    using Cons.prems(2) ev by (intro Cons.IH) auto
  moreover have "mark evs (chans ?w) = mark (ev # evs) (chans w)"
    using Cons.prems(2) c ev by (simp add: mark_Cons)
  ultimately show ?case using step ev by (simp add: put_chan_def)
qed

lemma ep_ok_mark: "ep_ok w \<Longrightarrow> ep_ok (w\<lparr>chans := mark evs (chans w)\<rparr>)"
  unfolding ep_ok_def mark_def by fastforce

lemma ep_ok_events_size [simp]: "ep_ok (w\<lparr>events_size := n\<rparr>) = ep_ok w"
  by (simp add: ep_ok_def)

section \<open>Properties\<close>

definition epoll_run_op :: "epoll_ctl \<Rightarrow> chan_op \<Rightarrow> 'a epoller_scheme \<Rightarrow> 'a epoller_scheme result" where
  "epoll_run_op ctl x =
     (case x of SetEvents f a \<Rightarrow> epoll_change ctl f a | Remove a \<Rightarrow> epoll_removeChannel ctl True a)"

text \<open>C4: The kernel watches what the channels want. Take any sequence of enabling, disabling and
  removing channels that the abstract board allows: one channel per descriptor, a channel
  removed only when it is registered and wants no events. On a kernel that keeps the
  documented contract of \<open>epoll_ctl\<close> it runs without a failed assertion or a fatal error,
  and at the end the events asked of the kernel are, for every descriptor, exactly those
  its registered channel wants, through every path of additions, changes, deletions from
  the kernel and re-additions.\<close>

theorem epoll_interest_exact:
  fixes w :: "'a epoller_scheme"
  assumes doc: "epoll_documented ctl" and ok: "ep_ok w"
    and run: "board_ops xs (board_of chans channels w) = Some s"
  shows "\<exists>w'. for_each (epoll_run_op ctl) xs w = Inr w' \<and> ep_ok w'
    \<and> board_of chans channels w' = s
    \<and> (\<forall>n. asked_events w' n = (case owner s n of None \<Rightarrow> kNoneEvent | Some a \<Rightarrow> wanted s a))"
proof -
  note ep = epoll_event_poller[OF doc]
  have "(epoll_run_op ctl :: chan_op \<Rightarrow> 'a epoller_scheme \<Rightarrow> _)
    = event_poller.run_op (epoll_change ctl) (epoll_removeChannel ctl True)"
    by (simp add: fun_eq_iff epoll_run_op_def event_poller.run_op_def[OF ep])
  then show ?thesis using event_poller.ops_refine[OF ep ok run] by simp
qed

definition wit_epoll :: epoller where
  "wit_epoll = new_EPoller\<lparr>chans := [7 \<mapsto> new_Channel 0 5, 8 \<mapsto> new_Channel 0 6]\<rparr>"

lemma wit_epoll_ok: "ep_ok wit_epoll"
  by (auto simp: ep_ok_def wit_epoll_def new_EPoller_def new_Channel_def kNew_def split: if_splits)

definition wit_ops :: "chan_op list" where
  "wit_ops = [SetEvents (\<lambda>e. e OR kReadEvent) 7, SetEvents (\<lambda>e. e OR kWriteEvent) 8,
     SetEvents (\<lambda>e. kNoneEvent) 7, SetEvents (\<lambda>e. e OR kReadEvent) 7,
     SetEvents (\<lambda>e. kNoneEvent) 8, Remove 8]"

theorem epoll_interest_exact_witness:
  "\<exists>w'. for_each (epoll_run_op linux_ctl) wit_ops wit_epoll = Inr w'
    \<and> asked_events w' 5 = kReadEvent \<and> asked_events w' 6 = kNoneEvent"
proof -
  let ?s = "\<lparr>fd_of = [7 \<mapsto> 5, 8 \<mapsto> 6], wanted = (\<lambda>_. 0)(7 := kReadEvent), owner = [5 \<mapsto> 7]\<rparr>"
  have "board_ops wit_ops (board_of chans channels wit_epoll) = Some ?s"
    by (auto simp: wit_ops_def board_of_def wit_epoll_def new_EPoller_def new_Channel_def
        kNoneEvent_def fun_eq_iff)
  from epoll_interest_exact[OF linux_ctl_documented wit_epoll_ok this] show ?thesis by auto
qed

text \<open>\<open>poll\<close> hands back exactly the reported channels. When \<open>epoll_wait\<close> reports at most as
  many events as the array holds, each with the pointer of a registered channel and no
  channel twice, no assertion of \<open>fillActiveChannels\<close> fails, the channels are appended to the
  active list in the order reported, each has its \<open>revents_\<close> set to what was reported, and
  nothing else changes but the length of the array, which doubles exactly when it was full.
  An interrupted wait or an empty report changes nothing.\<close>

theorem epoll_poll_reports:
  assumes ok: "ep_ok w" and reg: "\<And>a. a \<in> snd ` set evs \<Longrightarrow> registered w a"
    and d: "distinct (map snd evs)" and len: "length evs \<le> events_size w"
  shows "\<exists>w'. epoll_poll now (Inr evs) active w = Inr (now, active @ map snd evs, w') \<and> ep_ok w'
    \<and> channels w' = channels w \<and> kernel w' = kernel w \<and> chans w' = mark evs (chans w)
    \<and> (\<forall>r a. (r, a) \<in> set evs \<longrightarrow> (\<exists>c. chans w' a = Some c \<and> revents c = r))
    \<and> events_size w' = (if evs \<noteq> [] \<and> length evs = events_size w
                        then 2 * events_size w else events_size w)
    \<and> epoll_poll now (Inl e) active w = Inr (now, active, w)"
proof -
  let ?w = "w\<lparr>chans := mark evs (chans w)\<rparr>"
  let ?w' = "if evs \<noteq> [] \<and> length evs = events_size w
             then ?w\<lparr>events_size := 2 * events_size w\<rparr> else ?w"
  have m0: "mark [] m = m" for m by (simp add: mark_def fun_eq_iff option.map_ident)
  have run: "epoll_poll now (Inr evs) active w = Inr (now, active @ map snd evs, ?w')"
    using report_events[OF reg d] len m0
    by (auto simp: epoll_poll_def epoll_fillActiveChannels_def)
  have ok': "ep_ok ?w'" using ep_ok_mark[OF ok, of evs] by auto
  have rev: "\<exists>c. mark evs (chans w) a = Some c \<and> revents c = r" if "(r, a) \<in> set evs" for r a
  proof -
    have "map_of (map (\<lambda>(r, a). (a, r)) evs) a = Some r"
      using that d by (intro map_of_is_SomeI) (force simp: comp_def case_prod_unfold)+
    moreover from reg[of a] that obtain c where "chans w a = Some c"
      by (force simp: registered_def)
    ultimately show ?thesis by (simp add: mark_def)
  qed
  show ?thesis
    by (rule exI[of _ ?w'], intro conjI run ok') (use rev in \<open>auto simp: epoll_poll_def\<close>)
qed

definition wit_watching :: epoller where
  "wit_watching = new_EPoller\<lparr>chans := [7 \<mapsto> (new_Channel 0 5)\<lparr>events := kReadEvent, index := kAdded\<rparr>],
     channels := [5 \<mapsto> 7], kernel := [5 \<mapsto> (kReadEvent, 7)]\<rparr>"

theorem epoll_poll_reports_witness:
  "\<exists>w'. epoll_poll 1 (Inr [(POLLIN, 7)]) [] wit_watching = Inr (1, [7], w')
    \<and> (\<exists>c. chans w' 7 = Some c \<and> revents c = POLLIN)"
proof -
  have "ep_ok wit_watching"
    by (auto simp: ep_ok_def wit_watching_def new_EPoller_def new_Channel_def split: if_splits)
  moreover have "registered wit_watching 7" "length [(POLLIN, 7::nat)] \<le> events_size wit_watching"
    by (simp_all add: registered_def wit_watching_def new_Channel_def new_EPoller_def
        kInitEventListSize_def)
  ultimately obtain w' where "epoll_poll 1 (Inr [(POLLIN, 7)]) [] wit_watching
      = Inr (1, [] @ map snd [(POLLIN, 7)], w')"
    "\<forall>r a. (r, a) \<in> set [(POLLIN, 7)] \<longrightarrow> (\<exists>c. chans w' a = Some c \<and> revents c = r)"
    using epoll_poll_reports[of wit_watching "[(POLLIN, 7)]" 1 "[]" 4] by auto
  then show ?thesis by auto
qed

end
