(* ===== verification/Event_Loop.thy ===== *)
theory Event_Loop
  imports EPollers
begin

text \<open>
  \<open>EventLoop\<close> (src/net/EventLoop.h, EventLoop.cpp). Section one models its methods as
  functions on the state of one loop: the poller's state, the flags, the counter of the
  wakeup \<open>eventfd\<close> and the queue of pending functors; \<open>inl\<close> is the result of
  \<open>isInLoopThread()\<close>. Section two puts the loop thread and the threads that call
  \<open>queueInLoop\<close> and \<open>quit\<close> together: every atomic action of either side is an event, a run is
  a list of events, and \<open>exec\<close> says which events a state allows.
\<close>

section \<open>The loop\<close>

record loop_state = epoller +
  self :: nat
  looping :: bool
  quit :: bool
  callingPendingFunctors :: bool
  pollReturnTime :: timestamp
  wakeups :: nat \<comment> \<open>the counter of \<open>wakeupFd_\<close>\<close>
  pendingFunctors :: "task list"

definition kPollTimeMs :: int where "kPollTimeMs = 10000"

definition loop_updateChannel ::
  "epoll_ctl \<Rightarrow> bool \<Rightarrow> chan_addr \<Rightarrow> 'a loop_state_scheme \<Rightarrow> 'a loop_state_scheme result" where
  "loop_updateChannel ctl inl a w =
     rbind (chan_at 128 a w) (\<lambda>c.
       check (loop c = self w) (Assertion 128)
      (check inl (Fatal 129) (epoll_updateChannel ctl inl a w)))"

definition loop_removeChannel ::
  "epoll_ctl \<Rightarrow> bool \<Rightarrow> chan_addr \<Rightarrow> 'a loop_state_scheme \<Rightarrow> 'a loop_state_scheme result" where
  "loop_removeChannel ctl inl a w =
     rbind (chan_at 136 a w) (\<lambda>c.
       check (loop c = self w) (Assertion 136)
      (check inl (Fatal 137) (epoll_removeChannel ctl inl a w)))"

definition wakeup :: "'a loop_state_scheme \<Rightarrow> 'a loop_state_scheme" where
  "wakeup w = w\<lparr>wakeups := wakeups w + 1\<rparr>"

definition handleWakeup :: "'a loop_state_scheme \<Rightarrow> 'a loop_state_scheme" where
  \<comment> \<open>\<open>EventLoop::handleRead\<close>: reading an \<open>eventfd\<close> resets its counter\<close>
  "handleWakeup w = w\<lparr>wakeups := 0\<rparr>"

definition push_pending :: "task \<Rightarrow> 'a loop_state_scheme \<Rightarrow> 'a loop_state_scheme" where
  \<comment> \<open>the critical section of \<open>queueInLoop\<close>\<close>
  "push_pending cb w = w\<lparr>pendingFunctors := pendingFunctors w @ [cb]\<rparr>"

definition queueInLoop :: "bool \<Rightarrow> task \<Rightarrow> 'a loop_state_scheme \<Rightarrow> 'a loop_state_scheme" where
  "queueInLoop inl cb w =
     (let w = push_pending cb w
      in if \<not> inl \<or> callingPendingFunctors w then wakeup w else w)"

definition runInLoop ::
  "bool \<Rightarrow> (task \<Rightarrow> 'a loop_state_scheme \<Rightarrow> 'a loop_state_scheme result) \<Rightarrow> task
   \<Rightarrow> 'a loop_state_scheme \<Rightarrow> 'a loop_state_scheme result" where
  "runInLoop inl run cb w = (if inl then run cb w else Inr (queueInLoop inl cb w))"

definition quit_loop :: "bool \<Rightarrow> 'a loop_state_scheme \<Rightarrow> 'a loop_state_scheme" where
  "quit_loop inl w = (let w = w\<lparr>quit := True\<rparr> in if \<not> inl then wakeup w else w)"

definition take_pending :: "'a loop_state_scheme \<Rightarrow> task list \<times> 'a loop_state_scheme" where
  \<comment> \<open>\<open>doPendingFunctors\<close> up to the end of its critical section\<close>
  "take_pending w =
     (pendingFunctors w, w\<lparr>callingPendingFunctors := True, pendingFunctors := []\<rparr>)"

definition doPendingFunctors ::
  "(task \<Rightarrow> 'a loop_state_scheme \<Rightarrow> 'a loop_state_scheme result)
   \<Rightarrow> 'a loop_state_scheme \<Rightarrow> 'a loop_state_scheme result" where
  "doPendingFunctors run w =
     (let (functors, w) = take_pending w
      in rbind (for_each run functors w) (\<lambda>w. Inr (w\<lparr>callingPendingFunctors := False\<rparr>)))"

text \<open>
  One round of \<open>loop\<close>, with the answer \<open>io\<close> of \<open>epoll_wait\<close> and the clock reading \<open>now\<close>,
  and the whole of \<open>loop\<close> on a finite list of such inputs: it ends when \<open>quit_\<close> is set, or
  (\<open>None\<close>) is still running when the inputs are used up.
\<close>

definition loop_round ::
  "(task \<Rightarrow> 'a loop_state_scheme \<Rightarrow> 'a loop_state_scheme result)
   \<Rightarrow> (timestamp \<Rightarrow> task \<Rightarrow> 'a loop_state_scheme \<Rightarrow> 'a loop_state_scheme result)
   \<Rightarrow> timestamp \<Rightarrow> int + epoll_event list
   \<Rightarrow> 'a loop_state_scheme \<Rightarrow> 'a loop_state_scheme result" where
  "loop_round call callr now io w =
     rbind (epoll_poll now io [] w) (\<lambda>(t, active, w).
     rbind (for_each (handleEvent call callr t) active (w\<lparr>pollReturnTime := t\<rparr>)) (\<lambda>w.
       doPendingFunctors call w))"

fun loop_rounds ::
  "(task \<Rightarrow> 'a loop_state_scheme \<Rightarrow> 'a loop_state_scheme result)
   \<Rightarrow> (timestamp \<Rightarrow> task \<Rightarrow> 'a loop_state_scheme \<Rightarrow> 'a loop_state_scheme result)
   \<Rightarrow> (timestamp \<times> (int + epoll_event list)) list
   \<Rightarrow> 'a loop_state_scheme \<Rightarrow> ('a loop_state_scheme option) result" where
  "loop_rounds call callr ins w =
     (if quit w then Inr (Some (w\<lparr>looping := False\<rparr>))
      else case ins of
             [] \<Rightarrow> Inr None
           | (now, io) # ins \<Rightarrow>
               rbind (loop_round call callr now io w) (\<lambda>w. loop_rounds call callr ins w))"

declare loop_rounds.simps [simp del]

definition run_loop ::
  "bool \<Rightarrow> (task \<Rightarrow> 'a loop_state_scheme \<Rightarrow> 'a loop_state_scheme result)
   \<Rightarrow> (timestamp \<Rightarrow> task \<Rightarrow> 'a loop_state_scheme \<Rightarrow> 'a loop_state_scheme result)
   \<Rightarrow> (timestamp \<times> (int + epoll_event list)) list
   \<Rightarrow> 'a loop_state_scheme \<Rightarrow> ('a loop_state_scheme option) result" where
  "run_loop inl call callr ins w =
     check (\<not> looping w) (Assertion 82)
    (check inl (Fatal 83)
      (loop_rounds call callr ins (w\<lparr>looping := True, quit := False\<rparr>)))"

section \<open>Construction\<close>

text \<open>
  The constructor: the poller, the channel of the timer descriptor, which the timer queue
  registers, the \<open>eventfd\<close> and its channel. The two channels live at addresses 0 and 1;
  their read callbacks are the handlers of the timer queue and of the loop. \<open>another\<close> says whether the thread has a loop
  already. The descriptors are what the system calls returned.
\<close>

definition timer_chan :: chan_addr where "timer_chan = 0"
definition wakeup_chan :: chan_addr where "wakeup_chan = 1"

definition new_EventLoop ::
  "epoll_ctl \<Rightarrow> nat \<Rightarrow> bool \<Rightarrow> int \<Rightarrow> int \<Rightarrow> loop_state result" where
  "new_EventLoop ctl me another timerfd evtfd =
     (let w = \<lparr>chans = Map.empty, channels = Map.empty, events_size = kInitEventListSize,
               kernel = Map.empty, self = me, looping = False, quit = False,
               callingPendingFunctors = False, pollReturnTime = 0, wakeups = 0,
               pendingFunctors = []\<rparr>
      in check (0 \<le> timerfd) (Fatal 24)
        (rbind (enableReading (loop_updateChannel ctl True) timer_chan
                 (put_chan timer_chan (setReadCallback TimerQueueRead (new_Channel me timerfd)) w)) (\<lambda>w.
         check (0 \<le> evtfd) (Fatal 40)
        (let w = put_chan wakeup_chan (new_Channel me evtfd) w
         in check (\<not> another) (Fatal 59)
           (enableReading (loop_updateChannel ctl True) wakeup_chan
             (put_chan wakeup_chan (setReadCallback LoopRead (new_Channel me evtfd)) w))))))"

definition delete_EventLoop :: "'a loop_state_scheme \<Rightarrow> unit result" where
  "delete_EventLoop w = check (\<not> looping w) (Assertion 75) (Inr ())"

lemma loop_updateChannel_own:
  "chans w a = Some c \<Longrightarrow> loop c = self w \<Longrightarrow>
   loop_updateChannel ctl True a w = epoll_updateChannel ctl True a w"
  by (simp add: loop_updateChannel_def)

lemma loop_removeChannel_own:
  "chans w a = Some c \<Longrightarrow> loop c = self w \<Longrightarrow>
   loop_removeChannel ctl True a w = epoll_removeChannel ctl True a w"
  by (simp add: loop_removeChannel_def)

lemma loop_put_chan [simp]:
  "self (put_chan a c w) = self w" "pendingFunctors (put_chan a c w) = pendingFunctors w"
  "looping (put_chan a c w) = looping w"
  "callingPendingFunctors (put_chan a c w) = callingPendingFunctors w"
  by (simp_all add: put_chan_def)

lemma loop_frame:
  assumes "w' = w\<lparr>chans := h, channels := m, kernel := k\<rparr>"
  shows "self w' = self w" "pendingFunctors w' = pendingFunctors w" "looping w' = looping w"
    "callingPendingFunctors w' = callingPendingFunctors w" "wakeups w' = wakeups w"
    "loop_state.more w' = loop_state.more w"
  using assms by simp_all

text \<open>Through the loop, a change of events in the loop thread does what the poller does.\<close>

lemma loop_change_ok:
  assumes "epoll_documented ctl" "ep_ok w" "chans w a = Some c"
    "channels w (fd c) \<in> {None, Some a}" "loop c = self w"
  shows "\<exists>w' i. change_events l (loop_updateChannel ctl True) f a w = Inr w' \<and> ep_ok w'
    \<and> channels w' = (channels w)(fd c \<mapsto> a)
    \<and> chans w' = (chans w)(a \<mapsto> c\<lparr>events := f (events c), index := i\<rparr>)
    \<and> w' = w\<lparr>chans := chans w', channels := channels w', kernel := kernel w'\<rparr>"
proof -
  have "change_events l (loop_updateChannel ctl True) f a w
      = change_events l (epoll_updateChannel ctl True) f a w"
    using assms(3,5) by (simp add: change_events_def loop_updateChannel_own)
  with epoll_change_ok[OF assms(1-4), of l f] show ?thesis by simp
qed

lemma loop_remove_ok:
  assumes "epoll_documented ctl" "ep_ok w" "chans w a = Some c"
    "channels w (fd c) = Some a" "events c = kNoneEvent" "loop c = self w"
  shows "\<exists>w'. loop_removeChannel ctl True a w = Inr w' \<and> ep_ok w'
    \<and> channels w' = (channels w)(fd c := None)
    \<and> chans w' = (chans w)(a \<mapsto> c\<lparr>index := kNew\<rparr>)
    \<and> w' = w\<lparr>chans := chans w', channels := channels w', kernel := kernel w'\<rparr>"
  unfolding loop_removeChannel_own[OF assms(3,6)] using epoll_remove_ok[OF assms(1-5)] .

section \<open>The loop thread and the others\<close>

text \<open>
  Where the loop thread is: outside \<open>loop()\<close>, at the test of \<open>quit_\<close>, in \<open>epoll_wait\<close>,
  calling the handlers of the active channels (the flag: the wakeup channel is among those
  still to be handled), or calling functors (those still to be called). \<open>waking\<close> counts the
  threads that are past the critical section of \<open>queueInLoop\<close>, or have set \<open>quit_\<close>, and
  have yet to write to \<open>wakeupFd_\<close>. \<open>enqueued\<close> and \<open>executed\<close> record the functors queued
  and called so far.
\<close>

datatype loop_pc = Outside | Testing | Polling | Dispatching bool | Running "task list"

record sched = loop_state +
  pc :: loop_pc
  waking :: nat
  enqueued :: "task list"
  executed :: "task list"

datatype event =
    OtherPush task    \<comment> \<open>another thread leaves the critical section of \<open>queueInLoop\<close>\<close>
  | OtherQuit         \<comment> \<open>another thread sets \<open>quit_\<close>\<close>
  | OtherWake         \<comment> \<open>another thread writes to \<open>wakeupFd_\<close>\<close>
  | EarlyPush task    \<comment> \<open>the loop thread calls \<open>queueInLoop\<close> outside \<open>loop()\<close>\<close>
  | LoopPush task     \<comment> \<open>a handler or a functor calls \<open>queueInLoop\<close>\<close>
  | LoopQuit          \<comment> \<open>a handler or a functor calls \<open>quit\<close>\<close>
  | Enter             \<comment> \<open>\<open>loop()\<close> is called\<close>
  | Test              \<comment> \<open>the test of the \<open>while\<close>\<close>
  | PollReturn bool   \<comment> \<open>\<open>epoll_wait\<close> returns, with the wakeup channel or without\<close>
  | WakeupRead        \<comment> \<open>\<open>EventLoop::handleRead\<close>\<close>
  | TakePending       \<comment> \<open>the critical section of \<open>doPendingFunctors\<close>\<close>
  | RunNext           \<comment> \<open>the next functor is called\<close>
  | AllRun            \<comment> \<open>\<open>doPendingFunctors\<close> returns\<close>

definition queue_task :: "task \<Rightarrow> sched \<Rightarrow> sched" where
  \<comment> \<open>\<open>queueInLoop\<close> called by the loop thread\<close>
  "queue_task t s = (queueInLoop True t s)\<lparr>enqueued := enqueued s @ [t]\<rparr>"

fun in_callback :: "loop_pc \<Rightarrow> bool" where
  "in_callback (Dispatching b) = True"
| "in_callback (Running ts) = True"
| "in_callback p = False"

fun exec :: "event \<Rightarrow> sched \<Rightarrow> sched option" where
  "exec (OtherPush t) s =
     Some ((push_pending t s)\<lparr>enqueued := enqueued s @ [t], waking := waking s + 1\<rparr>)"
| "exec OtherQuit s = Some (s\<lparr>quit := True, waking := waking s + 1\<rparr>)"
| "exec OtherWake s = (if 0 < waking s then Some ((wakeup s)\<lparr>waking := waking s - 1\<rparr>) else None)"
| "exec (EarlyPush t) s = (if pc s = Outside then Some (queue_task t s) else None)"
| "exec (LoopPush t) s = (if in_callback (pc s) then Some (queue_task t s) else None)"
| "exec LoopQuit s = (if in_callback (pc s) then Some (quit_loop True s) else None)"
| "exec Enter s =
     (if pc s = Outside \<and> \<not> looping s
      then Some (s\<lparr>looping := True, quit := False, pc := Testing\<rparr>) else None)"
| "exec Test s =
     (if pc s = Testing
      then Some (if quit s then s\<lparr>looping := False, pc := Outside\<rparr> else s\<lparr>pc := Polling\<rparr>)
      else None)"
| "exec (PollReturn b) s =
     (if pc s = Polling \<and> (b \<longrightarrow> 0 < wakeups s) then Some (s\<lparr>pc := Dispatching b\<rparr>) else None)"
| "exec WakeupRead s =
     (if pc s = Dispatching True then Some ((handleWakeup s)\<lparr>pc := Dispatching False\<rparr>) else None)"
| "exec TakePending s =
     (if pc s = Dispatching False
      then let (ts, s) = take_pending s in Some (s\<lparr>pc := Running ts\<rparr>) else None)"
| "exec RunNext s =
     (case pc s of Running (t # ts) \<Rightarrow> Some (s\<lparr>pc := Running ts, executed := executed s @ [t]\<rparr>)
      | _ \<Rightarrow> None)"
| "exec AllRun s =
     (if pc s = Running [] then Some (s\<lparr>callingPendingFunctors := False, pc := Testing\<rparr>) else None)"

fun exec_all :: "event list \<Rightarrow> sched \<Rightarrow> sched option" where
  "exec_all [] s = Some s"
| "exec_all (e # es) s = Option.bind (exec e s) (exec_all es)"

definition fresh_loop :: "sched \<Rightarrow> bool" where
  "fresh_loop s \<longleftrightarrow> pc s = Outside \<and> \<not> looping s \<and> \<not> callingPendingFunctors s
     \<and> pendingFunctors s = [] \<and> waking s = 0 \<and> enqueued s = [] \<and> executed s = []"

text \<open>The states a loop can reach, with or without early pushes.\<close>

inductive reaches :: "bool \<Rightarrow> sched \<Rightarrow> bool" for early where
  start: "fresh_loop s \<Longrightarrow> reaches early s"
| step: "reaches early s \<Longrightarrow> exec e s = Some s' \<Longrightarrow> (early \<or> (\<forall>t. e \<noteq> EarlyPush t)) \<Longrightarrow>
    reaches early s'"

lemma reaches_exec_all:
  "exec_all es s = Some s' \<Longrightarrow> reaches True s \<Longrightarrow> reaches True s'"
proof (induction es arbitrary: s)
  case Nil
  then show ?case by simp
next
  case (Cons e es)
  then obtain t where t: "exec e s = Some t" "exec_all es t = Some s'"
    by (cases "exec e s") auto
  have "reaches True t" by (rule reaches.step[OF Cons.prems(2) t(1)]) simp
  with Cons.IH t show ?case by blast
qed

section \<open>Invariants of the schedule\<close>

fun in_flight :: "loop_pc \<Rightarrow> task list" where
  "in_flight (Running ts) = ts"
| "in_flight p = []"

definition in_order :: "sched \<Rightarrow> bool" where
  "in_order s \<longleftrightarrow> enqueued s = executed s @ in_flight (pc s) @ pendingFunctors s
     \<and> callingPendingFunctors s = (\<exists>ts. pc s = Running ts) \<and> looping s = (pc s \<noteq> Outside)"

definition alarm :: "sched \<Rightarrow> bool" where
  "alarm s \<longleftrightarrow> 0 < wakeups s \<or> 0 < waking s"

definition watchful :: "sched \<Rightarrow> bool" where
  "watchful s \<longleftrightarrow>
     ((\<forall>b. pc s \<noteq> Dispatching b) \<and> pendingFunctors s \<noteq> [] \<longrightarrow> alarm s)"

definition heeds_quit :: "sched \<Rightarrow> bool" where
  "heeds_quit s \<longleftrightarrow> (pc s = Polling \<and> quit s \<longrightarrow> alarm s)"

lemmas sched_ops = queue_task_def queueInLoop_def push_pending_def wakeup_def handleWakeup_def
  take_pending_def quit_loop_def Let_def

lemma in_callback_iff: "in_callback p \<longleftrightarrow> (\<exists>b. p = Dispatching b) \<or> (\<exists>ts. p = Running ts)"
  by (cases p) auto

lemma in_order_exec: "in_order s \<Longrightarrow> exec e s = Some s' \<Longrightarrow> in_order s'"
  by (cases "(e, s)" rule: exec.cases)
    (auto simp: in_order_def sched_ops split: if_splits loop_pc.splits list.splits)

lemma watchful_exec:
  "in_order s \<Longrightarrow> watchful s \<Longrightarrow> exec e s = Some s' \<Longrightarrow> (\<And>t. e \<noteq> EarlyPush t) \<Longrightarrow> watchful s'"
  by (cases "(e, s)" rule: exec.cases)
    (auto simp: in_order_def watchful_def alarm_def sched_ops in_callback_iff
      split: if_splits loop_pc.splits list.splits)

lemma heeds_quit_exec: "heeds_quit s \<Longrightarrow> exec e s = Some s' \<Longrightarrow> heeds_quit s'"
  by (cases "(e, s)" rule: exec.cases)
    (auto simp: heeds_quit_def alarm_def sched_ops split: if_splits loop_pc.splits list.splits)

lemma fresh_loop_inv: "fresh_loop s \<Longrightarrow> in_order s \<and> heeds_quit s \<and> watchful s"
  by (auto simp: fresh_loop_def in_order_def heeds_quit_def watchful_def)

lemma reaches_in_order: "reaches early s \<Longrightarrow> in_order s"
  by (induction rule: reaches.induct) (blast intro: in_order_exec dest: fresh_loop_inv)+

lemma reaches_heeds_quit: "reaches early s \<Longrightarrow> heeds_quit s"
  by (induction rule: reaches.induct) (blast intro: heeds_quit_exec dest: fresh_loop_inv)+

lemma reaches_watchful: "reaches False s \<Longrightarrow> watchful s"
proof (induction rule: reaches.induct)
  case (start s)
  then show ?case by (simp add: fresh_loop_def watchful_def)
next
  case (step s e s')
  then show ?case using watchful_exec[of s e s'] reaches_in_order[of False s] by auto
qed

section \<open>Draining\<close>

lemma exec_all_append: "exec_all (xs @ ys) s = Option.bind (exec_all xs s) (exec_all ys)"
proof (induction xs arbitrary: s)
  case Nil
  then show ?case by simp
next
  case (Cons x xs)
  then show ?case by (cases "exec x s") auto
qed

lemma exec_run_all:
  "pc s = Running ts \<Longrightarrow> exec_all (replicate (length ts) RunNext) s
    = Some (s\<lparr>pc := Running [], executed := executed s @ ts\<rparr>)"
proof (induction ts arbitrary: s)
  case Nil
  then show ?case by simp
next
  case (Cons t ts)
  have "exec_all (replicate (length ts) RunNext) (s\<lparr>pc := Running ts, executed := executed s @ [t]\<rparr>)
      = Some (s\<lparr>pc := Running [], executed := executed s @ t # ts\<rparr>)"
    by (subst Cons.IH) simp_all
  with Cons.prems show ?case by simp
qed

definition drain :: "nat \<Rightarrow> event list" where
  "drain n = [PollReturn True, WakeupRead, TakePending] @ replicate n RunNext @ [AllRun]"

lemma exec_drain:
  assumes "pc s = Polling" "0 < wakeups s"
  shows "\<exists>s'. exec_all (drain (length (pendingFunctors s))) s = Some s'
    \<and> executed s' = executed s @ pendingFunctors s \<and> pendingFunctors s' = [] \<and> pc s' = Testing
    \<and> quit s' = quit s"
proof -
  let ?t = "s\<lparr>wakeups := 0, callingPendingFunctors := True, pendingFunctors := [],
    pc := Running (pendingFunctors s)\<rparr>"
  let ?n = "length (pendingFunctors s)"
  have "exec_all [PollReturn True, WakeupRead, TakePending] s = Some ?t"
    using assms by (simp add: handleWakeup_def take_pending_def)
  moreover have "exec_all (replicate (length (pendingFunctors s)) RunNext) ?t
      = Some (?t\<lparr>pc := Running [], executed := executed s @ pendingFunctors s\<rparr>)"
    by (subst exec_run_all) simp_all
  ultimately have "exec_all (drain ?n) s = exec_all [AllRun]
      (?t\<lparr>pc := Running [], executed := executed s @ pendingFunctors s\<rparr>)"
    unfolding drain_def exec_all_append by (simp del: exec_all.simps)
  then show ?thesis by simp
qed

section \<open>Properties\<close>

text \<open>C9: Functors queued for a loop are called exactly once, in the order in which they were
  queued, whatever the interleaving of \<open>queueInLoop\<close> and \<open>quit\<close> calls from other threads, from
  handlers and from functors, and of wakeups, time-outs and rounds of the loop: at any moment
  the queued functors are those called, then those taken but still to be called, then those
  pending. In particular one queued by a functor of a round is left to a later round.\<close>

theorem loop_functors_fifo:
  assumes "reaches early s"
  shows "enqueued s = executed s @ in_flight (pc s) @ pendingFunctors s"
  using reaches_in_order[OF assms] by (simp add: in_order_def)

definition wit_sched :: sched where
  "wit_sched = \<lparr>chans = Map.empty, channels = Map.empty, events_size = 16, kernel = Map.empty,
     self = 0, looping = False, quit = False, callingPendingFunctors = False,
     pollReturnTime = 0, wakeups = 0, pendingFunctors = [], pc = Outside, waking = 0,
     enqueued = [], executed = []\<rparr>"

lemma wit_sched_fresh: "fresh_loop wit_sched"
  by (simp add: fresh_loop_def wit_sched_def)

text \<open>A run in which a functor queues another one and two threads compete.\<close>

definition wit_events :: "event list" where
  "wit_events = [Enter, Test, OtherPush (User 3), OtherPush (User 4), OtherWake, PollReturn True, WakeupRead,
     TakePending, RunNext, LoopPush (User 5), OtherWake]"

lemma reaches_exec_False:
  "exec_all es s = Some s' \<Longrightarrow> reaches False s \<Longrightarrow> (\<And>t. EarlyPush t \<notin> set es) \<Longrightarrow> reaches False s'"
proof (induction es arbitrary: s)
  case Nil
  then show ?case by simp
next
  case (Cons e es)
  from Cons.prems(1) obtain t where t: "exec e s = Some t" "exec_all es t = Some s'"
    by (cases "exec e s") auto
  have "reaches False t" by (rule reaches.step[OF Cons.prems(2) t(1)]) (use Cons.prems(3) in auto)
  with Cons.IH t Cons.prems(3) show ?case by simp
qed

lemma wit_events_run:
  "\<exists>s. exec_all wit_events wit_sched = Some s \<and> reaches False s \<and> executed s = [User 3]
    \<and> pc s = Running [User 4] \<and> pendingFunctors s = [User 5] \<and> enqueued s = [User 3, User 4, User 5]"
proof -
  have "\<exists>s. exec_all wit_events wit_sched = Some s \<and> executed s = [User 3]
    \<and> pc s = Running [User 4] \<and> pendingFunctors s = [User 5] \<and> enqueued s = [User 3, User 4, User 5]"
    by (simp add: wit_events_def wit_sched_def sched_ops)
  moreover have "\<And>t. EarlyPush t \<notin> set wit_events" by (simp add: wit_events_def)
  ultimately show ?thesis
    using reaches_exec_False[OF _ reaches.start[OF wit_sched_fresh]] by blast
qed

theorem loop_functors_fifo_witness:
  "\<exists>s. reaches False s \<and> enqueued s = [User 3, User 4, User 5]
    \<and> enqueued s = executed s @ in_flight (pc s) @ pendingFunctors s"
  using wit_events_run loop_functors_fifo by blast



text \<open>\<open>queueInLoop\<close> called by the loop thread before \<open>loop()\<close> writes no wakeup: neither is
  the caller another thread nor are pending functors being called. The loop then goes to
  sleep in \<open>epoll_wait\<close> with the functor pending, no wakeup recorded and no thread about to
  give one, so that it waits for unrelated I/O or for the time-out of ten seconds.\<close>

theorem early_functor_sleeps:
  "\<exists>s. exec_all [EarlyPush (User 3), Enter, Test] wit_sched = Some s \<and> reaches True s
    \<and> pc s = Polling \<and> pendingFunctors s = [User 3] \<and> wakeups s = 0 \<and> waking s = 0
    \<and> exec (PollReturn True) s = None"
proof -
  have "\<exists>s. exec_all [EarlyPush (User 3), Enter, Test] wit_sched = Some s
    \<and> pc s = Polling \<and> pendingFunctors s = [User 3] \<and> wakeups s = 0 \<and> waking s = 0
    \<and> exec (PollReturn True) s = None"
    by (simp add: wit_sched_def sched_ops)
  then show ?thesis using reaches_exec_all reaches.start[OF wit_sched_fresh] by blast
qed

text \<open>A \<open>quit\<close> that arrives before \<open>loop()\<close> has reset the flag is lost: \<open>loop()\<close> sets
  \<open>quit_\<close> to false on entry, the recorded wakeup is consumed in the first round, and the loop
  ends up waiting for events with \<open>quit_\<close> false and no wakeup outstanding.\<close>

theorem early_quit_lost:
  "\<exists>s. exec_all [OtherQuit, OtherWake, Enter, Test, PollReturn True, WakeupRead, TakePending,
       AllRun, Test] wit_sched = Some s
    \<and> pc s = Polling \<and> \<not> quit s \<and> wakeups s = 0 \<and> waking s = 0"
  by (simp add: wit_sched_def sched_ops)

text \<open>A constructed loop watches its timer descriptor and its wakeup descriptor for reading,
  each through its own channel, and has nothing else registered. On two valid, distinct
  descriptors and in a thread that has no loop yet, the constructor passes every assertion
  on the way; in a thread that has one it aborts.\<close>

theorem new_EventLoop_watches:
  assumes doc: "epoll_documented ctl" and fds: "0 \<le> t" "0 \<le> e" "t \<noteq> e"
  shows "\<exists>w. new_EventLoop ctl me False t e = Inr w \<and> ep_ok w
    \<and> channels w = [t \<mapsto> timer_chan, e \<mapsto> wakeup_chan]
    \<and> asked_events w t = kReadEvent \<and> asked_events w e = kReadEvent
    \<and> pendingFunctors w = [] \<and> \<not> looping w
    \<and> new_EventLoop ctl me True t e = Inl (Fatal 59)"
proof -
  let ?c0 = "setReadCallback TimerQueueRead (new_Channel me t)"
  let ?c1 = "setReadCallback LoopRead (new_Channel me e)"
  define w0 where "w0 = (\<lparr>chans = Map.empty, channels = Map.empty,
    events_size = kInitEventListSize, kernel = Map.empty, self = me, looping = False,
    quit = False, callingPendingFunctors = False, pollReturnTime = 0, wakeups = 0,
    pendingFunctors = []\<rparr> :: loop_state)"
  let ?w0 = "put_chan timer_chan ?c0 w0"
  have ok0: "ep_ok ?w0"
    by (auto simp: ep_ok_def w0_def setReadCallback_def new_Channel_def kNew_def split: if_splits)
  obtain w1 i where w1: "enableReading (loop_updateChannel ctl True) timer_chan ?w0 = Inr w1"
    "ep_ok w1" "channels w1 = [t \<mapsto> timer_chan]"
    "chans w1 = [timer_chan \<mapsto> ?c0\<lparr>events := kReadEvent, index := i\<rparr>]"
    "w1 = ?w0\<lparr>chans := chans w1, channels := channels w1, kernel := kernel w1\<rparr>"
    using loop_change_ok[OF doc ok0, of timer_chan ?c0 72 "\<lambda>x. x OR kReadEvent"]
    by (auto simp: enableReading_def w0_def setReadCallback_def new_Channel_def)
  note fr1 = loop_frame[OF w1(5)]
  let ?w1 = "put_chan wakeup_chan ?c1 w1"
  have ok1: "ep_ok ?w1"
    using w1(4) by (intro ep_ok_new_chan[OF w1(2)])
      (simp_all add: timer_chan_def wakeup_chan_def setReadCallback_def new_Channel_def kNew_def)
  obtain w2 j where w2: "enableReading (loop_updateChannel ctl True) wakeup_chan ?w1 = Inr w2"
    "ep_ok w2" "channels w2 = [t \<mapsto> timer_chan, e \<mapsto> wakeup_chan]"
    "chans w2 = (chans ?w1)(wakeup_chan \<mapsto> ?c1\<lparr>events := kReadEvent, index := j\<rparr>)"
    "w2 = ?w1\<lparr>chans := chans w2, channels := channels w2, kernel := kernel w2\<rparr>"
    using loop_change_ok[OF doc ok1, of wakeup_chan ?c1 72 "\<lambda>x. x OR kReadEvent"] fr1(1) w1(3) fds
    by (auto simp: enableReading_def setReadCallback_def new_Channel_def w0_def)
  note fr2 = loop_frame[OF w2(5)]
  have "put_chan wakeup_chan (setReadCallback LoopRead (new_Channel me e))
      (put_chan wakeup_chan (new_Channel me e) w1) = ?w1"
    by (simp add: put_chan_def)
  then have run: "new_EventLoop ctl me False t e = Inr w2"
      "new_EventLoop ctl me True t e = Inl (Fatal 59)"
    using w1(1) w2(1) fds unfolding new_EventLoop_def Let_def w0_def by simp_all
  have asked: "asked_events w2 t = kReadEvent" "asked_events w2 e = kReadEvent"
    using event_poller.asked_ok[OF epoll_event_poller[OF doc] w2(2)] w2(3,4) w1(4) fds
    by (simp_all add: timer_chan_def wakeup_chan_def)
  have "pendingFunctors w2 = []" "\<not> looping w2" using fr1 fr2 by (simp_all add: w0_def)
  with run asked w2(2,3) show ?thesis by blast
qed

theorem new_EventLoop_watches_witness:
  "\<exists>w. new_EventLoop linux_ctl 1 False 4 5 = Inr w \<and> asked_events w 4 = kReadEvent
    \<and> asked_events w 5 = kReadEvent"
  using new_EventLoop_watches[OF linux_ctl_documented, of 4 5 1] by auto

end
