(* ===== verification/Sockets.thy ===== *)
theory Sockets
  imports Timestamps "HOL-Library.Word"
begin

text \<open>
  Socket addresses and the checks on system calls: src/net/SocketsOps.h, SocketsOps.cpp,
  \<open>InetAddress\<close> (InetAddress.h, InetAddress.cpp) and \<open>Socket\<close> (Socket.h, Socket.cpp). Results
  of system calls are arguments: a negative number stands for failure, with its \<open>errno\<close>.
  Byte order is that of a little-endian machine; \<open>inet_ntop\<close> and \<open>inet_pton\<close> are modelled for
  IPv4. Socket options only reach the kernel and are left out.
\<close>

unbundle bit_operations_syntax

section \<open>Byte order\<close>

definition hostToNetwork16 :: "16 word \<Rightarrow> 16 word" where
  "hostToNetwork16 x = push_bit 8 x OR drop_bit 8 x"

definition networkToHost16 :: "16 word \<Rightarrow> 16 word" where
  "networkToHost16 x = push_bit 8 x OR drop_bit 8 x"

definition octet :: "nat \<Rightarrow> 'a::len word \<Rightarrow> 'a word" where
  "octet i x = drop_bit (8 * i) x AND 0xFF"

definition hostToNetwork32 :: "32 word \<Rightarrow> 32 word" where
  "hostToNetwork32 x = push_bit 24 (octet 0 x) OR push_bit 16 (octet 1 x)
     OR push_bit 8 (octet 2 x) OR octet 3 x"

definition networkToHost32 :: "32 word \<Rightarrow> 32 word" where
  "networkToHost32 x = push_bit 24 (octet 0 x) OR push_bit 16 (octet 1 x)
     OR push_bit 8 (octet 2 x) OR octet 3 x"

section \<open>Addresses\<close>

record sockaddr_in =
  sin_family :: nat
  sin_port :: "16 word" \<comment> \<open>network byte order\<close>
  s_addr :: "32 word" \<comment> \<open>network byte order\<close>

definition AF_INET :: nat where "AF_INET = 2"
definition kInaddrAny :: "32 word" where "kInaddrAny = 0"

text \<open>\<open>inet_ntop\<close>: the four bytes in the order in which they lie in memory.\<close>

definition dotted :: "nat \<Rightarrow> nat \<Rightarrow> nat \<Rightarrow> nat \<Rightarrow> string" where
  "dotted a b c d = dec_nat a @ CHR ''.'' # dec_nat b @ CHR ''.'' # dec_nat c @ CHR ''.'' # dec_nat d"

definition inet_ntop :: "32 word \<Rightarrow> string" where
  "inet_ntop x = dotted (unat (octet 0 x)) (unat (octet 1 x)) (unat (octet 2 x)) (unat (octet 3 x))"

text \<open>
  \<open>inet_pton\<close>: four decimal numbers up to 255 without leading zeros, separated by dots.
\<close>

definition is_digit :: "char \<Rightarrow> bool" where
  "is_digit c \<longleftrightarrow> c \<in> digit_char ` {..<10}"

fun split_at :: "char \<Rightarrow> string \<Rightarrow> string list" where
  "split_at x [] = [[]]"
| "split_at x (c # cs) =
     (if c = x then [] # split_at x cs
      else case split_at x cs of [] \<Rightarrow> [[c]] | f # fs \<Rightarrow> (c # f) # fs)"

definition parse_octet :: "string \<Rightarrow> nat option" where
  "parse_octet s =
     (if s \<noteq> [] \<and> length s \<le> 3 \<and> list_all is_digit s \<and> dec_nat (val_dec 0 s) = s
         \<and> val_dec 0 s \<le> 255
      then Some (val_dec 0 s) else None)"

definition inet_pton :: "string \<Rightarrow> 32 word option" where
  "inet_pton s =
     (case map parse_octet (split_at (CHR ''.'') s) of
        [Some a, Some b, Some c, Some d] \<Rightarrow>
          Some (of_nat a OR push_bit 8 (of_nat b) OR push_bit 16 (of_nat c) OR push_bit 24 (of_nat d))
      | _ \<Rightarrow> None)"

definition sockets_toHostPort :: "nat \<Rightarrow> sockaddr_in \<Rightarrow> string" where
  \<comment> \<open>\<open>snprintf\<close> into a buffer of \<open>len\<close> bytes\<close>
  "sockets_toHostPort len addr =
     (let host = inet_ntop (s_addr addr);
          port = networkToHost16 (sin_port addr)
      in take (len - 1) (host @ CHR '':'' # dec_nat (unat port)))"

definition sockets_fromHostPort :: "string \<Rightarrow> 16 word \<Rightarrow> sockaddr_in \<Rightarrow> sockaddr_in" where
  "sockets_fromHostPort ip port addr =
     (let addr = addr\<lparr>sin_family := AF_INET, sin_port := hostToNetwork16 port\<rparr>
      in case inet_pton ip of None \<Rightarrow> addr | Some x \<Rightarrow> addr\<lparr>s_addr := x\<rparr>)"

definition zero_sockaddr :: sockaddr_in where
  "zero_sockaddr = \<lparr>sin_family = 0, sin_port = 0, s_addr = 0\<rparr>"

definition InetAddress_port :: "16 word \<Rightarrow> sockaddr_in" where
  "InetAddress_port port = \<lparr>sin_family = AF_INET, sin_port = hostToNetwork16 port,
     s_addr = hostToNetwork32 kInaddrAny\<rparr>"

definition InetAddress_ip :: "string \<Rightarrow> 16 word \<Rightarrow> sockaddr_in" where
  "InetAddress_ip ip port = sockets_fromHostPort ip port zero_sockaddr"

definition setSockAddrInet :: "sockaddr_in \<Rightarrow> sockaddr_in \<Rightarrow> sockaddr_in" where
  "setSockAddrInet addr this = addr"

definition toHostPort :: "sockaddr_in \<Rightarrow> string" where
  "toHostPort addr = sockets_toHostPort 32 addr"

text \<open>A failed \<open>getsockname\<close> or \<open>getpeername\<close> leaves the address zeroed.\<close>

definition getLocalAddr :: "sockaddr_in option \<Rightarrow> sockaddr_in" where
  "getLocalAddr r = (case r of None \<Rightarrow> zero_sockaddr | Some a \<Rightarrow> a)"

definition getPeerAddr :: "sockaddr_in option \<Rightarrow> sockaddr_in" where
  "getPeerAddr r = (case r of None \<Rightarrow> zero_sockaddr | Some a \<Rightarrow> a)"

definition isSelfConnect :: "sockaddr_in option \<Rightarrow> sockaddr_in option \<Rightarrow> bool" where
  "isSelfConnect local peer =
     (let localaddr = getLocalAddr local; peeraddr = getPeerAddr peer
      in sin_port localaddr = sin_port peeraddr \<and> s_addr localaddr = s_addr peeraddr)"

section \<open>System calls\<close>

definition createNonblockingOrDie :: "int \<Rightarrow> int result" where
  "createNonblockingOrDie sockfd = check (0 \<le> sockfd) (Fatal 62) (Inr sockfd)"

definition bindOrDie :: "int \<Rightarrow> unit result" where
  "bindOrDie ret = check (0 \<le> ret) (Fatal 77) (Inr ())"

definition listenOrDie :: "int \<Rightarrow> unit result" where
  "listenOrDie ret = check (0 \<le> ret) (Fatal 86) (Inr ())"

definition EPERM :: int where "EPERM = 1"
definition EINTR :: int where "EINTR = 4"
definition EBADF :: int where "EBADF = 9"
definition EAGAIN :: int where "EAGAIN = 11"
definition ENOMEM :: int where "ENOMEM = 12"
definition EACCES :: int where "EACCES = 13"
definition EFAULT :: int where "EFAULT = 14"
definition EINVAL :: int where "EINVAL = 22"
definition ENFILE :: int where "ENFILE = 23"
definition EMFILE :: int where "EMFILE = 24"
definition EPROTO :: int where "EPROTO = 71"
definition ENOTSOCK :: int where "ENOTSOCK = 88"
definition EOPNOTSUPP :: int where "EOPNOTSUPP = 95"
definition EAFNOSUPPORT :: int where "EAFNOSUPPORT = 97"
definition EADDRINUSE :: int where "EADDRINUSE = 98"
definition EADDRNOTAVAIL :: int where "EADDRNOTAVAIL = 99"
definition ENETUNREACH :: int where "ENETUNREACH = 101"
definition ECONNABORTED :: int where "ECONNABORTED = 103"
definition ENOBUFS :: int where "ENOBUFS = 105"
definition EISCONN :: int where "EISCONN = 106"
definition ECONNREFUSED :: int where "ECONNREFUSED = 111"
definition EALREADY :: int where "EALREADY = 114"
definition EINPROGRESS :: int where "EINPROGRESS = 115"

lemmas errnos = EPERM_def EINTR_def EBADF_def EAGAIN_def ENOMEM_def EACCES_def EFAULT_def
  EINVAL_def ENFILE_def EMFILE_def EPROTO_def ENOTSOCK_def EOPNOTSUPP_def EAFNOSUPPORT_def
  EADDRINUSE_def EADDRNOTAVAIL_def ENETUNREACH_def ECONNABORTED_def ENOBUFS_def EISCONN_def
  ECONNREFUSED_def EALREADY_def EINPROGRESS_def

text \<open>\<open>accept\<close>: \<open>Inl errno\<close> or \<open>Inr connfd\<close> is what \<open>accept4(2)\<close> returned; the result is \<open>None\<close> for -1.\<close>

definition sockets_accept :: "int + int \<Rightarrow> int option result" where
  "sockets_accept r =
     (case r of
        Inr connfd \<Rightarrow> Inr (Some connfd)
      | Inl savedErrno \<Rightarrow>
          if savedErrno \<in> {EAGAIN, ECONNABORTED, EINTR, EPROTO, EPERM, EMFILE} then Inr None
          else if savedErrno \<in> {EBADF, EFAULT, EINVAL, ENFILE, ENOBUFS, ENOMEM, ENOTSOCK, EOPNOTSUPP}
          then Inl (Fatal 124)
          else Inl (Fatal 127))"

text \<open>\<open>Socket::Accept\<close>: the peer's address is stored only when a connection was accepted.\<close>

definition Socket_Accept :: "int + int \<times> sockaddr_in \<Rightarrow> sockaddr_in \<Rightarrow> (int option \<times> sockaddr_in) result" where
  "Socket_Accept r peeraddr =
     rbind (sockets_accept (map_sum (\<lambda>e. e) fst r)) (\<lambda>connfd.
       Inr (connfd, case (connfd, r) of (Some _, Inr (_, addr)) \<Rightarrow> addr | _ \<Rightarrow> peeraddr))"

definition getSocketError :: "int + int \<Rightarrow> int" where
  \<comment> \<open>the \<open>errno\<close> of a failed \<open>getsockopt\<close>, or the pending error of the socket\<close>
  "getSocketError r = (case r of Inl e \<Rightarrow> e | Inr optval \<Rightarrow> optval)"

section \<open>Lemmas\<close>

lemma byte_swap16 [simp]: "networkToHost16 (hostToNetwork16 x) = x"
  unfolding networkToHost16_def hostToNetwork16_def
  by (rule bit_word_eqI) (auto simp: bit_simps)

lemma is_digit_dec_nat: "list_all is_digit (dec_nat n)"
  using dec_nat_digits by (auto simp: list_all_iff is_digit_def)

lemma digit_not_dot: "is_digit c \<Longrightarrow> c \<noteq> CHR ''.''"
proof -
  have "digit_char d \<noteq> CHR ''.''" if "d < 10" for d
  proof
    assume "digit_char d = CHR ''.''"
    then have "(of_char (digit_char d) :: nat) = 46" by simp
    with that show False by (simp add: digit_char_def of_char_of take_bit_eq_mod)
  qed
  then show "is_digit c \<Longrightarrow> ?thesis" by (auto simp: is_digit_def)
qed

lemma split_at_fst: "x \<notin> set s \<Longrightarrow> split_at x (s @ x # t) = s # split_at x t"
  by (induction s) auto

lemma split_at_last: "x \<notin> set s \<Longrightarrow> split_at x s = [s]"
  by (induction s) auto

lemma no_dot: "CHR ''.'' \<notin> set (dec_nat n)"
  using digit_not_dot is_digit_dec_nat[of n] by (auto simp: list_all_iff)

lemma parse_octet_dec: "n \<le> 255 \<Longrightarrow> parse_octet (dec_nat n) = Some n"
  using length_dec_nat_le[of n 2] is_digit_dec_nat[of n] by (simp add: parse_octet_def)

lemma inet_pton_dotted:
  assumes "a \<le> 255" "b \<le> 255" "c \<le> 255" "d \<le> 255"
  shows "inet_pton (dotted a b c d)
    = Some (of_nat a OR push_bit 8 (of_nat b) OR push_bit 16 (of_nat c) OR push_bit 24 (of_nat d))"
  using assms
  by (simp add: inet_pton_def dotted_def split_at_fst[OF no_dot] split_at_last[OF no_dot]
      parse_octet_dec)

lemma byte_bits: "n < 256 \<Longrightarrow> bit (of_nat n :: 32 word) i \<Longrightarrow> i < 8"
proof (rule ccontr)
  assume h: "n < 256" "bit (of_nat n :: 32 word) i" "\<not> i < 8"
  have "take_bit 8 n = n" using h(1) by (simp add: take_bit_nat_eq_self)
  then have "bit n i \<longleftrightarrow> i < 8 \<and> bit n i" by (metis bit_take_bit_iff)
  with h show False by (simp add: bit_simps)
qed

lemma unat_byte: "n < 256 \<Longrightarrow> unat (of_nat n :: 32 word) = n"
  by (simp add: unat_of_nat)

lemma octet_take: "octet i (x :: 32 word) = take_bit 8 (drop_bit (8 * i) x)"
  by (simp add: octet_def take_bit_eq_mask mask_eq_exp_minus_1)

lemma octets:
  fixes a b c d :: nat
  assumes "a < 256" "b < 256" "c < 256" "d < 256"
  defines "x \<equiv> (of_nat a OR push_bit 8 (of_nat b) OR push_bit 16 (of_nat c) OR push_bit 24 (of_nat d)) :: 32 word"
  shows "octet 0 x = of_nat a" "octet 1 x = of_nat b" "octet 2 x = of_nat c" "octet 3 x = of_nat d"
proof -
  have A: "bit (of_nat a :: 32 word) i \<Longrightarrow> i < 8" and B: "bit (of_nat b :: 32 word) i \<Longrightarrow> i < 8"
    and C: "bit (of_nat c :: 32 word) i \<Longrightarrow> i < 8" and D: "bit (of_nat d :: 32 word) i \<Longrightarrow> i < 8" for i
    using byte_bits assms(1-4) by blast+
  show "octet 0 x = of_nat a"
    unfolding octet_take x_def by (rule bit_word_eqI)
      (use A in \<open>auto simp: bit_take_bit_iff bit_or_iff bit_drop_bit_eq bit_push_bit_iff\<close>)
  show "octet 1 x = of_nat b"
    unfolding octet_take x_def by (rule bit_word_eqI)
      (use A B in \<open>force simp: bit_take_bit_iff bit_or_iff bit_drop_bit_eq bit_push_bit_iff\<close>)
  show "octet 2 x = of_nat c"
    unfolding octet_take x_def by (rule bit_word_eqI)
      (use A B C in \<open>force simp: bit_take_bit_iff bit_or_iff bit_drop_bit_eq bit_push_bit_iff\<close>)
  show "octet 3 x = of_nat d"
    unfolding octet_take x_def by (rule bit_word_eqI)
      (use A B C D in \<open>force simp: bit_take_bit_iff bit_or_iff bit_drop_bit_eq bit_push_bit_iff\<close>)
qed

lemma inet_ntop_pton:
  assumes "a < 256" "b < 256" "c < 256" "d < 256" "inet_pton (dotted a b c d) = Some x"
  shows "inet_ntop x = dotted a b c d"
  using assms octets[OF assms(1-4)] inet_pton_dotted[of a b c d]
  by (auto simp: inet_ntop_def unat_byte)

lemma length_byte: "n < 256 \<Longrightarrow> length (dec_nat n) \<le> 3"
  using length_dec_nat_le[of n 2] by simp

lemma unat_port: "unat (port::16 word) < 65536"
  using unsigned_less[of port] by simp

lemma length_port: "length (dec_nat (unat (port::16 word))) \<le> 5"
  using length_dec_nat_le[of "unat port" 4] unat_port[of port] by simp

lemma length_dotted:
  assumes "a < 256" "b < 256" "c < 256" "d < 256"
  shows "length (dotted a b c d) \<le> 15"
  using length_byte[OF assms(1)] length_byte[OF assms(2)] length_byte[OF assms(3)] length_byte[OF assms(4)]
  by (simp add: dotted_def)

section \<open>Properties\<close>

text \<open>an address made from a dotted quad and a port prints back as exactly that quad, a colon
  and the port: byte order is undone and the buffer of 32 bytes never truncates (at most 21
  characters are needed).\<close>

theorem toHostPort_roundtrip:
  assumes "a < 256" "b < 256" "c < 256" "d < 256"
  shows "toHostPort (InetAddress_ip (dotted a b c d) port)
      = dotted a b c d @ CHR '':'' # dec_nat (unat port)
    \<and> length (dotted a b c d @ CHR '':'' # dec_nat (unat port)) \<le> 21"
proof -
  have p: "length (dotted a b c d) + length (dec_nat (unat port)) \<le> 20"
    using length_dotted[OF assms] length_port[of port] by simp
  obtain x where x: "inet_pton (dotted a b c d) = Some x"
    using inet_pton_dotted[of a b c d] assms by auto
  show ?thesis
    using p x inet_ntop_pton[OF assms x]
    by (simp add: toHostPort_def sockets_toHostPort_def InetAddress_ip_def sockets_fromHostPort_def Let_def)
qed

theorem toHostPort_roundtrip_witness:
  "toHostPort (InetAddress_ip (dotted 127 0 0 1) 1995) = ''127.0.0.1:1995''"
proof -
  have "dotted 127 0 0 1 @ CHR '':'' # dec_nat (unat (1995::16 word)) = ''127.0.0.1:1995''"
    by code_simp
  with toHostPort_roundtrip[of 127 0 0 1 1995] show ?thesis by simp
qed

end
