(* ===== verification/Tcp_Connection.thy ===== *)
theory Tcp_Connection
  imports Event_Loop Buffer Sockets
begin

text \<open>
  \<open>TcpConnection\<close> (src/net/TcpConnection.h, TcpConnection.cpp): one connection, its channel
  and its two buffers. The state \<open>tcp_world\<close> extends the state of the loop the connection
  belongs to with the connections, with what the kernel will answer to the coming \<open>write(2)\<close>
  and \<open>readv(2)\<close> calls, and with what those calls have done: \<open>wire n\<close> is the stream of bytes
  the kernel has accepted on descriptor \<open>n\<close>, \<open>shut_wr n\<close> says that its sending side has been
  shut down. \<open>usr\<close> is the user's callbacks and the close callback of the owner; \<open>ctl\<close> is
  \<open>epoll_ctl\<close>; \<open>inl\<close> is \<open>isInLoopThread()\<close>. Logging is left out.
\<close>

section \<open>State\<close>

datatype conn_state = KConnecting | KConnected | KDisconnecting | KDisconnected

type_synonym conn_addr = nat

record tcp_conn =
  conn_loop :: nat
  conn_name :: string
  conn_state :: conn_state
  sock :: int
  chan_of :: chan_addr
  localAddr :: sockaddr_in
  peerAddr :: sockaddr_in
  connectionCallback :: "nat option"
  messageCallback :: "nat option"
  conn_closeCallback :: "nat option"
  writeCompleteCallback :: "nat option"
  highWaterMarkCallback :: "nat option"
  highWaterMark :: nat
  inputBuffer :: buffer
  outputBuffer :: buffer

text \<open>
  An answer of the kernel to \<open>write(2)\<close>: an \<open>errno\<close>, or how many bytes it has room for; to
  \<open>readv(2)\<close>: an \<open>errno\<close>, or the bytes it has (none at the end of the stream).
\<close>

record tcp_world = loop_state +
  conns :: "conn_addr \<rightharpoonup> tcp_conn"
  write_answers :: "(int + nat) list"
  read_answers :: "(int + char list) list"
  wire :: "int \<Rightarrow> char list"
  shut_wr :: "int \<Rightarrow> bool"


definition sys_write ::
  "int \<Rightarrow> char list \<Rightarrow> 'a tcp_world_scheme \<Rightarrow> (int + nat) \<times> 'a tcp_world_scheme" where
  "sys_write n data w =
     (case write_answers w of
        [] \<Rightarrow> (Inl EAGAIN, w)
      | Inl e # rest \<Rightarrow> (Inl e, w\<lparr>write_answers := rest\<rparr>)
      | Inr n_max # rest \<Rightarrow>
          let k = min n_max (length data)
          in (Inr k, w\<lparr>write_answers := rest, wire := (wire w)(n := wire w n @ take k data)\<rparr>))"

definition sys_readv ::
  "nat \<Rightarrow> 'a tcp_world_scheme \<Rightarrow> (int + char list) \<times> 'a tcp_world_scheme" where
  "sys_readv len w =
     (case read_answers w of
        [] \<Rightarrow> (Inl EAGAIN, w)
      | Inl e # rest \<Rightarrow> (Inl e, w\<lparr>read_answers := rest\<rparr>)
      | Inr d # rest \<Rightarrow> (Inr (take len d), w\<lparr>read_answers := rest\<rparr>))"

definition conn_at :: "nat \<Rightarrow> conn_addr \<Rightarrow> 'a tcp_world_scheme \<Rightarrow> tcp_conn result" where
  "conn_at line a w = (case conns w a of None \<Rightarrow> Inl (Undefined line) | Some c \<Rightarrow> Inr c)"

definition put_conn :: "conn_addr \<Rightarrow> tcp_conn \<Rightarrow> 'a tcp_world_scheme \<Rightarrow> 'a tcp_world_scheme" where
  "put_conn a c w = w\<lparr>conns := (conns w)(a \<mapsto> c)\<rparr>"

lemma conn_at_live [simp]: "conns w a = Some c \<Longrightarrow> conn_at l a w = Inr c"
  by (simp add: conn_at_def)

section \<open>Construction\<close>

definition new_TcpConnection ::
  "nat \<Rightarrow> string \<Rightarrow> int \<Rightarrow> sockaddr_in \<Rightarrow> sockaddr_in \<Rightarrow> conn_addr \<Rightarrow> chan_addr
   \<Rightarrow> 'a tcp_world_scheme \<Rightarrow> 'a tcp_world_scheme result" where
  "new_TcpConnection lp nm sockfd local peer a ca w =
     rbind new_Buffer (\<lambda>b.
       let ch = new_Channel lp sockfd;
           ch = setReadCallback (ConnRead a) ch;
           ch = setWriteCallback (ConnWrite a) ch;
           ch = setCloseCallback (ConnClose a) ch;
           ch = setErrorCallback (ConnError a) ch
       in Inr (put_conn a \<lparr>conn_loop = lp, conn_name = nm, conn_state = KConnecting, sock = sockfd, chan_of = ca,
                 localAddr = local, peerAddr = peer, connectionCallback = None, messageCallback = None, conn_closeCallback = None,
                 writeCompleteCallback = None, highWaterMarkCallback = None, highWaterMark = 0,
                 inputBuffer = b, outputBuffer = b\<rparr> (put_chan ca ch w)))"

definition connected :: "tcp_conn \<Rightarrow> bool" where
  "connected c \<longleftrightarrow> conn_state c = KConnected"

definition setConnectionCallback :: "nat option \<Rightarrow> tcp_conn \<Rightarrow> tcp_conn" where
  "setConnectionCallback cb c = c\<lparr>connectionCallback := cb\<rparr>"
definition setMessageCallback :: "nat option \<Rightarrow> tcp_conn \<Rightarrow> tcp_conn" where
  "setMessageCallback cb c = c\<lparr>messageCallback := cb\<rparr>"
definition setWriteCompleteCallback :: "nat option \<Rightarrow> tcp_conn \<Rightarrow> tcp_conn" where
  "setWriteCompleteCallback cb c = c\<lparr>writeCompleteCallback := cb\<rparr>"
definition setHighWaterMarkCallback :: "nat option \<Rightarrow> nat \<Rightarrow> tcp_conn \<Rightarrow> tcp_conn" where
  "setHighWaterMarkCallback cb n c = c\<lparr>highWaterMarkCallback := cb, highWaterMark := n\<rparr>"
definition conn_setCloseCallback :: "nat option \<Rightarrow> tcp_conn \<Rightarrow> tcp_conn" where
  "conn_setCloseCallback cb c = c\<lparr>conn_closeCallback := cb\<rparr>"

definition setState :: "conn_state \<Rightarrow> tcp_conn \<Rightarrow> tcp_conn" where
  "setState s c = c\<lparr>conn_state := s\<rparr>"

text \<open>
  A callback of the user or of the owner, with its arguments. Calling an empty
  \<open>std::function\<close> throws \<open>bad_function_call\<close>.
\<close>

datatype user_call =
    OnConnection nat conn_addr
  | OnMessage nat conn_addr timestamp
  | OnClose nat conn_addr
  | OnWriteComplete nat conn_addr

definition call_user ::
  "(user_call \<Rightarrow> 'w \<Rightarrow> 'w result) \<Rightarrow> nat \<Rightarrow> nat option \<Rightarrow> (nat \<Rightarrow> user_call) \<Rightarrow> 'w \<Rightarrow> 'w result" where
  "call_user usr line cb k w = (case cb of None \<Rightarrow> Inl (Thrown line) | Some f \<Rightarrow> usr (k f) w)"

section \<open>Sending\<close>

text \<open>The end of \<open>sendInLoop\<close>: what was not written is buffered and the channel made to write.\<close>

definition buffer_rest ::
  "epoll_ctl \<Rightarrow> bool \<Rightarrow> nat \<Rightarrow> string \<Rightarrow> conn_addr \<Rightarrow> tcp_conn \<Rightarrow> channel
   \<Rightarrow> 'a tcp_world_scheme \<Rightarrow> 'a tcp_world_scheme result" where
  "buffer_rest ctl inl nwrote message a c ch w =
     (if nwrote < length message
      then rbind (append (drop nwrote message) (outputBuffer c)) (\<lambda>b.
             let w = put_conn a (c\<lparr>outputBuffer := b\<rparr>) w
             in if \<not> isWriting ch
                then enableWriting (loop_updateChannel ctl inl) (chan_of c) w
                else Inr w)
      else Inr w)"

definition sendInLoop ::
  "epoll_ctl \<Rightarrow> bool \<Rightarrow> string \<Rightarrow> conn_addr \<Rightarrow> 'a tcp_world_scheme \<Rightarrow> 'a tcp_world_scheme result" where
  "sendInLoop ctl inl message a w =
     check inl (Fatal 54)
    (rbind (conn_at 57 a w) (\<lambda>c.
     rbind (chan_at 57 (chan_of c) w) (\<lambda>ch.
     let (nwrote, w) =
           (if \<not> isWriting ch \<and> readableBytes (outputBuffer c) = 0
            then (case sys_write (fd ch) message w of
                    (Inr n, w) \<Rightarrow>
                      (n, if n < length message then w
                          else (case writeCompleteCallback c of
                                  None \<Rightarrow> w
                                | Some cb \<Rightarrow> queueInLoop inl (WriteComplete cb a) w))
                  | (Inl e, w) \<Rightarrow> (0, w))
            else (0, w))
     in buffer_rest ctl inl nwrote message a c ch w)))"

definition send ::
  "epoll_ctl \<Rightarrow> bool \<Rightarrow> string \<Rightarrow> conn_addr \<Rightarrow> 'a tcp_world_scheme \<Rightarrow> 'a tcp_world_scheme result" where
  "send ctl inl message a w =
     rbind (conn_at 42 a w) (\<lambda>c.
       if conn_state c = KConnected
       then (if inl then sendInLoop ctl inl message a w
             else Inr (queueInLoop inl (SendInLoop a message) w))
       else Inr w)"

definition shutdownInLoop ::
  "bool \<Rightarrow> conn_addr \<Rightarrow> 'a tcp_world_scheme \<Rightarrow> 'a tcp_world_scheme result" where
  "shutdownInLoop inl a w =
     check inl (Fatal 95)
    (rbind (conn_at 96 a w) (\<lambda>c.
     rbind (chan_at 96 (chan_of c) w) (\<lambda>ch.
       if \<not> isWriting ch then Inr (w\<lparr>shut_wr := (shut_wr w)(sock c := True)\<rparr>) else Inr w)))"

definition shutdown ::
  "bool \<Rightarrow> conn_addr \<Rightarrow> 'a tcp_world_scheme \<Rightarrow> 'a tcp_world_scheme result" where
  "shutdown inl a w =
     rbind (conn_at 86 a w) (\<lambda>c.
       if conn_state c = KConnected
       then let w = put_conn a (setState KDisconnecting c) w
            in if inl then shutdownInLoop inl a w else Inr (queueInLoop inl (ShutdownInLoop a) w)
       else Inr w)"

section \<open>Events\<close>

definition handleWrite ::
  "epoll_ctl \<Rightarrow> bool \<Rightarrow> conn_addr \<Rightarrow> 'a tcp_world_scheme \<Rightarrow> 'a tcp_world_scheme result" where
  "handleWrite ctl inl a w =
     check inl (Fatal 141)
    (rbind (conn_at 142 a w) (\<lambda>c.
     rbind (chan_at 142 (chan_of c) w) (\<lambda>ch.
     if isWriting ch
     then check (peek (outputBuffer c) + readableBytes (outputBuffer c)
                 \<le> length (buf (outputBuffer c))) (Undefined 143)
       (case sys_write (fd ch) (mem_read (peek (outputBuffer c)) (readableBytes (outputBuffer c))
                                  (buf (outputBuffer c))) w of
          (Inl e, w) \<Rightarrow> Inr w
        | (Inr n, w) \<Rightarrow>
            if 0 < n
            then rbind (retrieve n (outputBuffer c)) (\<lambda>b.
                   let w = put_conn a (c\<lparr>outputBuffer := b\<rparr>) w
                   in if readableBytes b = 0
                      then rbind (disableWriting (loop_updateChannel ctl inl) (chan_of c) w) (\<lambda>w.
                             let w = (case writeCompleteCallback c of
                                        None \<Rightarrow> w
                                      | Some cb \<Rightarrow> queueInLoop inl (WriteComplete cb a) w)
                             in if conn_state c = KDisconnected then shutdownInLoop inl a w else Inr w)
                      else Inr w)
            else Inr w)
     else Inr w)))"

definition handleClose ::
  "epoll_ctl \<Rightarrow> (user_call \<Rightarrow> 'a tcp_world_scheme \<Rightarrow> 'a tcp_world_scheme result) \<Rightarrow> bool
   \<Rightarrow> conn_addr \<Rightarrow> 'a tcp_world_scheme \<Rightarrow> 'a tcp_world_scheme result" where
  "handleClose ctl usr inl a w =
     check inl (Fatal 171)
    (rbind (conn_at 174 a w) (\<lambda>c.
     check (conn_state c = KConnected \<or> conn_state c = KDisconnecting) (Assertion 174)
    (rbind (disableAll (loop_updateChannel ctl inl) (chan_of c) w)
      (call_user usr 177 (conn_closeCallback c) (\<lambda>f. OnClose f a)))))"

definition handleError :: "conn_addr \<Rightarrow> 'a tcp_world_scheme \<Rightarrow> 'a tcp_world_scheme result" where
  \<comment> \<open>\<open>getsockopt(SO_ERROR)\<close> and a line in the log\<close>
  "handleError a w =
     rbind (conn_at 183 a w) (\<lambda>c. rbind (chan_at 183 (chan_of c) w) (\<lambda>ch. Inr w))"

definition handleRead ::
  "epoll_ctl \<Rightarrow> (user_call \<Rightarrow> 'a tcp_world_scheme \<Rightarrow> 'a tcp_world_scheme result) \<Rightarrow> bool
   \<Rightarrow> timestamp \<Rightarrow> conn_addr \<Rightarrow> 'a tcp_world_scheme \<Rightarrow> 'a tcp_world_scheme result" where
  "handleRead ctl usr inl receiveTime a w =
     rbind (conn_at 125 a w) (\<lambda>c.
     rbind (chan_at 125 (chan_of c) w) (\<lambda>ch.
     let (io, w) = sys_readv (writableBytes (inputBuffer c) + extrabuf_size) w
     in rbind (readFd io (inputBuffer c)) (\<lambda>(n, savedErrno, b).
          let w = put_conn a (c\<lparr>inputBuffer := b\<rparr>) w
          in if n > 0 then call_user usr 127 (messageCallback c) (\<lambda>f. OnMessage f a receiveTime) w
             else if n = 0 then handleClose ctl usr inl a w
             else handleError a w)))"

definition connectEstablished ::
  "epoll_ctl \<Rightarrow> (user_call \<Rightarrow> 'a tcp_world_scheme \<Rightarrow> 'a tcp_world_scheme result) \<Rightarrow> bool
   \<Rightarrow> conn_addr \<Rightarrow> 'a tcp_world_scheme \<Rightarrow> 'a tcp_world_scheme result" where
  "connectEstablished ctl usr inl a w =
     check inl (Fatal 108)
    (rbind (conn_at 109 a w) (\<lambda>c.
     check (conn_state c = KConnecting) (Assertion 109)
    (rbind (enableReading (loop_updateChannel ctl inl) (chan_of c)
              (put_conn a (setState KConnected c) w))
      (call_user usr 119 (connectionCallback c) (\<lambda>f. OnConnection f a)))))"

definition connectDestroyed ::
  "epoll_ctl \<Rightarrow> (user_call \<Rightarrow> 'a tcp_world_scheme \<Rightarrow> 'a tcp_world_scheme result) \<Rightarrow> bool
   \<Rightarrow> conn_addr \<Rightarrow> 'a tcp_world_scheme \<Rightarrow> 'a tcp_world_scheme result" where
  "connectDestroyed ctl usr inl a w =
     check inl (Fatal 191)
    (rbind (conn_at 192 a w) (\<lambda>c.
     check (conn_state c = KConnected \<or> conn_state c = KDisconnecting) (Assertion 192)
    (rbind (disableAll (loop_updateChannel ctl inl) (chan_of c)
              (put_conn a (setState KDisconnected c) w)) (\<lambda>w.
     rbind (call_user usr 197 (connectionCallback c) (\<lambda>f. OnConnection f a) w) (\<lambda>w.
       loop_removeChannel ctl inl (chan_of c) w)))))"

section \<open>Frames\<close>

text \<open>Steps that touch neither the connections nor the channels nor what was sent.\<close>

definition same_conns :: "'a tcp_world_scheme \<Rightarrow> 'a tcp_world_scheme \<Rightarrow> bool" where
  "same_conns w w' \<longleftrightarrow> conns w' = conns w \<and> chans w' = chans w \<and> channels w' = channels w
     \<and> kernel w' = kernel w \<and> self w' = self w \<and> shut_wr w' = shut_wr w"

lemma ep_ok_cong: "chans w' = chans w \<Longrightarrow> channels w' = channels w \<Longrightarrow> kernel w' = kernel w \<Longrightarrow>
  ep_ok w' = ep_ok w"
  by (simp add: ep_ok_def)

lemma queueInLoop_same [simp]: "same_conns w (queueInLoop inl t w)" "wire (queueInLoop inl t w) = wire w"
  by (simp_all add: same_conns_def queueInLoop_def push_pending_def wakeup_def Let_def)

lemma same_conns_refl [simp]: "same_conns w w"
  by (simp add: same_conns_def)

lemma same_conns_trans: "same_conns u v \<Longrightarrow> same_conns v w \<Longrightarrow> same_conns u w"
  by (simp add: same_conns_def)

lemma sys_write_spec:
  "sys_write n d w = (Inr k, w') \<Longrightarrow> k \<le> length d \<and> same_conns w w'
     \<and> wire w' = (wire w)(n := wire w n @ take k d)"
  "sys_write n d w = (Inl e, w') \<Longrightarrow> same_conns w w' \<and> wire w' = wire w"
  by (auto simp: sys_write_def same_conns_def Let_def split: list.splits sum.splits)

lemma has_set [simp]: "x \<noteq> 0 \<Longrightarrow> has (e OR x) x"
proof -
  have "(e OR x) AND x = x" by (rule bit_eqI) (auto simp: bit_simps)
  then show "x \<noteq> 0 \<Longrightarrow> ?thesis" by (simp add: has_def)
qed

lemma has_clear [simp]: "\<not> has (e AND NOT x) x"
proof -
  have "(e AND NOT x) AND x = 0" by (rule bit_eqI) (auto simp: bit_simps)
  then show ?thesis by (simp add: has_def)
qed

lemma kWriteEvent_nz [simp]: "kWriteEvent \<noteq> 0"
  by (simp add: kWriteEvent_def POLLOUT_def)

section \<open>The output stream\<close>

text \<open>
  A registered connection: its channel is live, carries its descriptor, belongs to this loop
  and is registered with the poller, and its output buffer is well formed.
\<close>

definition conn_ok :: "conn_addr \<Rightarrow> tcp_conn \<Rightarrow> channel \<Rightarrow> 'a tcp_world_scheme \<Rightarrow> bool" where
  "conn_ok a c ch w \<longleftrightarrow> ep_ok w \<and> conns w a = Some c \<and> chans w (chan_of c) = Some ch
     \<and> fd ch = sock c \<and> loop ch = self w \<and> channels w (sock c) = Some (chan_of c)
     \<and> buffer_inv (outputBuffer c)"

lemma conn_okD:
  assumes "conn_ok a c ch w"
  shows "ep_ok w" "conns w a = Some c" "chans w (chan_of c) = Some ch" "fd ch = sock c"
    "loop ch = self w" "channels w (sock c) = Some (chan_of c)" "buffer_inv (outputBuffer c)"
  using assms by (simp_all add: conn_ok_def)

lemma conn_ok_same: "conn_ok a c ch w \<Longrightarrow> same_conns w w' \<Longrightarrow> conn_ok a c ch w'"
  by (simp add: conn_ok_def same_conns_def ep_ok_cong[of w' w])

lemma put_conn_frames [simp]:
  "chans (put_conn a c w) = chans w" "channels (put_conn a c w) = channels w"
  "kernel (put_conn a c w) = kernel w" "self (put_conn a c w) = self w"
  "wire (put_conn a c w) = wire w" "shut_wr (put_conn a c w) = shut_wr w"
  "conns (put_conn a c w) = (conns w)(a \<mapsto> c)"
  by (simp_all add: put_conn_def)

lemma ep_ok_put_conn [simp]: "ep_ok (put_conn a c w) = ep_ok w"
  by (rule ep_ok_cong) simp_all

text \<open>A change of the connection's events in the loop thread, seen from the connection.\<close>

lemma conn_change_ok:
  assumes doc: "epoll_documented ctl" and ok: "conn_ok a c ch w"
  shows "\<exists>w' ch'. change_events l (loop_updateChannel ctl True) f (chan_of c) w = Inr w'
    \<and> conn_ok a c ch' w' \<and> events ch' = f (events ch) \<and> wire w' = wire w \<and> shut_wr w' = shut_wr w
    \<and> conns w' = conns w"
proof -
  note D = conn_okD[OF ok]
  obtain w' i where w': "change_events l (loop_updateChannel ctl True) f (chan_of c) w = Inr w'"
    "ep_ok w'" "channels w' = (channels w)(fd ch \<mapsto> chan_of c)"
    "chans w' = (chans w)(chan_of c \<mapsto> ch\<lparr>events := f (events ch), index := i\<rparr>)"
    "w' = w\<lparr>chans := chans w', channels := channels w', kernel := kernel w'\<rparr>"
    using loop_change_ok[OF doc D(1,3) _ D(5), of l f] D(4,6) by auto
  have fr: "conns w' = conns w" "wire w' = wire w" "shut_wr w' = shut_wr w" "self w' = self w"
    using arg_cong[OF w'(5), of conns] arg_cong[OF w'(5), of wire] arg_cong[OF w'(5), of shut_wr]
      arg_cong[OF w'(5), of self] by simp_all
  have "conn_ok a c (ch\<lparr>events := f (events ch), index := i\<rparr>) w'"
    using w' D fr by (simp add: conn_ok_def)
  with w'(1) fr show ?thesis by (intro exI[of _ w'] exI[of _ "ch\<lparr>events := f (events ch), index := i\<rparr>"]) auto
qed

text \<open>
  \<open>stream_inv a sent n w\<close>: what the kernel accepted of connection \<open>a\<close> and what its output
  buffer holds are, together, the bytes \<open>sent\<close>; the connection waits to be writable exactly
  when bytes are left; and the buffer takes \<open>n\<close> bytes more.
\<close>

definition stream_inv :: "conn_addr \<Rightarrow> string \<Rightarrow> nat \<Rightarrow> 'a tcp_world_scheme \<Rightarrow> bool" where
  "stream_inv a sent n w \<longleftrightarrow> (\<exists>c ch. conn_ok a c ch w
     \<and> wire w (sock c) @ content (outputBuffer c) = sent
     \<and> (isWriting ch \<longleftrightarrow> content (outputBuffer c) \<noteq> []) \<and> n \<le> room (outputBuffer c))"

definition st_of :: "'a tcp_world_scheme \<Rightarrow> conn_addr \<Rightarrow> conn_state option" where
  "st_of w a = map_option conn_state (conns w a)"

lemma readable_content: "buffer_inv b \<Longrightarrow> (readableBytes b = 0) = (content b = [])"
  using bufq.count_bytes[of b] by (simp del: readableBytes_eq length_content)

lemma conn_ok_put_out:
  "conn_ok a c ch w \<Longrightarrow> buffer_inv b \<Longrightarrow>
   conn_ok a (c\<lparr>outputBuffer := b\<rparr>) ch (put_conn a (c\<lparr>outputBuffer := b\<rparr>) w)"
  by (simp add: conn_ok_def)

lemma buffer_rest_ok:
  assumes doc: "epoll_documented ctl" and ok: "conn_ok a c ch w"
    and iff: "isWriting ch \<longleftrightarrow> content (outputBuffer c) \<noteq> []"
    and fit: "length m + n \<le> room (outputBuffer c)" and k: "k \<le> length m"
  shows "\<exists>w' c' ch'. buffer_rest ctl True k m a c ch w = Inr w' \<and> conn_ok a c' ch' w'
    \<and> sock c' = sock c \<and> conn_state c' = conn_state c
    \<and> content (outputBuffer c') = content (outputBuffer c) @ drop k m
    \<and> (isWriting ch' \<longleftrightarrow> content (outputBuffer c') \<noteq> []) \<and> n \<le> room (outputBuffer c')
    \<and> wire w' = wire w \<and> shut_wr w' = shut_wr w"
proof (cases "k < length m")
  case False
  then show ?thesis
    using ok iff fit k by (intro exI[of _ w] exI[of _ c] exI[of _ ch]) (simp add: buffer_rest_def)
next
  case True
  note D = conn_okD[OF ok]
  have fit': "length (drop k m) \<le> room (outputBuffer c)" using fit by simp
  obtain b where b: "append (drop k m) (outputBuffer c) = Inr b" "buffer_inv b"
    "content b = content (outputBuffer c) @ drop k m"
    "room (outputBuffer c) - length (drop k m) \<le> room b"
    using bufq.put_ok[OF D(7) fit'] by blast
  let ?c = "c\<lparr>outputBuffer := b\<rparr>" and ?w = "put_conn a (c\<lparr>outputBuffer := b\<rparr>) w"
  have ok1: "conn_ok a ?c ch ?w" by (rule conn_ok_put_out[OF ok b(2)])
  have ne: "content b \<noteq> []" using b(3) True by simp
  have n: "n \<le> room b" using b(4) fit k by simp
  show ?thesis
  proof (cases "isWriting ch")
    case wr: True
    then have "buffer_rest ctl True k m a c ch w = Inr ?w"
      using True b(1) by (simp add: buffer_rest_def)
    with ok1 wr ne n b(3) show ?thesis by (intro exI[of _ ?w] exI[of _ ?c] exI[of _ ch]) simp
  next
    case False
    obtain w' ch' where w': "enableWriting (loop_updateChannel ctl True) (chan_of c) ?w = Inr w'"
      "conn_ok a ?c ch' w'" "events ch' = events ch OR kWriteEvent" "wire w' = wire w"
      "shut_wr w' = shut_wr w"
      using conn_change_ok[OF doc ok1, of 77 "\<lambda>e. e OR kWriteEvent"]
      by (auto simp: enableWriting_def)
    have "buffer_rest ctl True k m a c ch w = Inr w'"
      using True False b(1) w'(1) by (simp add: buffer_rest_def)
    moreover have "isWriting ch'" using w'(3) by (simp add: isWriting_def)
    ultimately show ?thesis
      using w' ne n b(3) by (intro exI[of _ w'] exI[of _ ?c] exI[of _ ch']) simp
  qed
qed

lemma sendInLoop_stream:
  assumes doc: "epoll_documented ctl" and st: "stream_inv a sent (length m + n) w"
  shows "\<exists>w'. sendInLoop ctl True m a w = Inr w' \<and> stream_inv a (sent @ m) n w'
    \<and> shut_wr w' = shut_wr w \<and> st_of w' a = st_of w a"
proof -
  from st obtain c ch where ok: "conn_ok a c ch w"
    and s: "wire w (sock c) @ content (outputBuffer c) = sent"
    and iff: "isWriting ch \<longleftrightarrow> content (outputBuffer c) \<noteq> []"
    and fit: "length m + n \<le> room (outputBuffer c)" by (auto simp: stream_inv_def)
  note D = conn_okD[OF ok]
  have fin: ?thesis if run: "sendInLoop ctl True m a w = buffer_rest ctl True k m a c ch w1"
    and k: "k \<le> length m" and w1: "same_conns w w1"
    and wr: "wire w1 (sock c) @ content (outputBuffer c) = sent @ take k m"
    and emp: "k = 0 \<or> content (outputBuffer c) = []" for k w1
  proof -
    have "conn_ok a c ch w1" by (rule conn_ok_same[OF ok w1])
    from buffer_rest_ok[OF doc this iff fit k] obtain w' c' ch' where
      w': "buffer_rest ctl True k m a c ch w1 = Inr w'" "conn_ok a c' ch' w'" "sock c' = sock c"
      "conn_state c' = conn_state c"
      "content (outputBuffer c') = content (outputBuffer c) @ drop k m"
      "isWriting ch' \<longleftrightarrow> content (outputBuffer c') \<noteq> []" "n \<le> room (outputBuffer c')"
      "wire w' = wire w1" "shut_wr w' = shut_wr w1" by blast
    have "wire w1 (sock c) @ content (outputBuffer c) @ drop k m = sent @ m"
      using wr emp by (metis append.assoc append_take_drop_id)
    then have "stream_inv a (sent @ m) n w'"
      using w' unfolding stream_inv_def by (intro exI[of _ c'] exI[of _ ch']) simp
    moreover have "st_of w' a = st_of w a"
      using conn_okD(2)[OF w'(2)] D(2) w'(4) by (simp add: st_of_def)
    ultimately show ?thesis using run w'(1,9) w1 by (simp add: same_conns_def)
  qed
  show ?thesis
  proof (cases "content (outputBuffer c) = []")
    case False
    then show ?thesis
      using D iff s by (intro fin[of 0 w]) (simp_all add: sendInLoop_def)
  next
    case True
    then have direct: "\<not> isWriting ch" "readableBytes (outputBuffer c) = 0"
      using iff readable_content[OF D(7)] by auto
    obtain r w1 where r: "sys_write (fd ch) m w = (r, w1)" by (cases "sys_write (fd ch) m w")
    show ?thesis
    proof (cases r)
      case (Inl e)
      with r have w1: "same_conns w w1" "wire w1 = wire w" using sys_write_spec(2)[OF r[unfolded Inl]] by auto
      show ?thesis
        using D direct r Inl w1 s by (intro fin[of 0 w1]) (simp_all add: sendInLoop_def)
    next
      case (Inr k)
      with r have w1: "k \<le> length m" "same_conns w w1"
        "wire w1 = (wire w)(fd ch := wire w (fd ch) @ take k m)"
        using sys_write_spec(1) by metis+
      let ?w2 = "if k < length m then w1 else
        (case writeCompleteCallback c of None \<Rightarrow> w1 | Some cb \<Rightarrow> queueInLoop True (WriteComplete cb a) w1)"
      have w2: "same_conns w ?w2" "wire ?w2 = wire w1"
        using same_conns_trans[OF w1(2)] w1(2) by (auto split: option.splits)
      show ?thesis
        using D direct r Inr w1(1,3) w2 s True
        by (intro fin[of k ?w2]) (simp_all add: sendInLoop_def)
    qed
  qed
qed

lemma handleWrite_idle:
  assumes "conn_ok a c ch w" "\<not> isWriting ch"
  shows "handleWrite ctl True a w = Inr w"
  using assms by (simp add: handleWrite_def conn_ok_def)

text \<open>The two outcomes of a writable event on a connection with bytes to send.\<close>

text \<open>What the socket took is taken out of the buffer; the channel is switched off when that was all.\<close>

lemma handleWrite_part:
  assumes ok: "conn_ok a c ch w" and ns: "conn_state c \<noteq> KDisconnected" and wr: "isWriting ch"
    and r: "sys_write (sock c) (content (outputBuffer c)) w = (Inr k, w1)" "k \<noteq> 0"
    and b: "retrieve k (outputBuffer c) = Inr b" "buffer_inv b" and part: "content b \<noteq> []"
  shows "handleWrite ctl True a w = Inr (put_conn a (c\<lparr>outputBuffer := b\<rparr>) w1)
    \<and> conn_ok a (c\<lparr>outputBuffer := b\<rparr>) ch (put_conn a (c\<lparr>outputBuffer := b\<rparr>) w1)"
proof -
  note D = conn_okD[OF ok] and w1 = sys_write_spec(1)[OF r(1)]
  have block: "peek (outputBuffer c) + readableBytes (outputBuffer c) \<le> length (buf (outputBuffer c))"
    "mem_read (peek (outputBuffer c)) (readableBytes (outputBuffer c)) (buf (outputBuffer c)) = content (outputBuffer c)"
    using D(7) buffer_invD[OF D(7)] by (simp_all add: peek_def content_def)
  have "readableBytes b \<noteq> 0" using part readable_content[OF b(2)] by simp
  then have "handleWrite ctl True a w = Inr (put_conn a (c\<lparr>outputBuffer := b\<rparr>) w1)"
    using D wr block r b(1) by (simp add: handleWrite_def)
  moreover have "conn_ok a (c\<lparr>outputBuffer := b\<rparr>) ch (put_conn a (c\<lparr>outputBuffer := b\<rparr>) w1)"
    using conn_ok_put_out[OF conn_ok_same[OF ok] b(2)] w1 by blast
  ultimately show ?thesis by blast
qed

lemma handleWrite_all:
  assumes doc: "epoll_documented ctl" and ok: "conn_ok a c ch w" and ns: "conn_state c \<noteq> KDisconnected" and wr: "isWriting ch"
    and r: "sys_write (sock c) (content (outputBuffer c)) w = (Inr k, w1)" "k \<noteq> 0"
    and b: "retrieve k (outputBuffer c) = Inr b" "buffer_inv b" and all: "content b = []"
  shows "\<exists>w' ch'. handleWrite ctl True a w = Inr w' \<and> conn_ok a (c\<lparr>outputBuffer := b\<rparr>) ch' w' \<and> \<not> isWriting ch'
    \<and> wire w' = wire w1 \<and> shut_wr w' = shut_wr w1"
proof -
  note D = conn_okD[OF ok] and w1 = sys_write_spec(1)[OF r(1)]
  let ?c = "c\<lparr>outputBuffer := b\<rparr>" and ?w2 = "put_conn a (c\<lparr>outputBuffer := b\<rparr>) w1"
  have block: "peek (outputBuffer c) + readableBytes (outputBuffer c) \<le> length (buf (outputBuffer c))"
    "mem_read (peek (outputBuffer c)) (readableBytes (outputBuffer c)) (buf (outputBuffer c)) = content (outputBuffer c)"
    using D(7) buffer_invD[OF D(7)] by (simp_all add: peek_def content_def)
  have ok2: "conn_ok a ?c ch ?w2" using conn_ok_put_out[OF conn_ok_same[OF ok] b(2)] w1 by blast
  have emp: "readableBytes b = 0" using readable_content[OF b(2)] all by simp
  obtain w3 ch3 where w3: "disableWriting (loop_updateChannel ctl True) (chan_of c) ?w2 = Inr w3"
    "conn_ok a ?c ch3 w3" "events ch3 = events ch AND NOT kWriteEvent" "wire w3 = wire w1" "shut_wr w3 = shut_wr w1"
    using conn_change_ok[OF doc ok2, of 82 "\<lambda>e. e AND NOT kWriteEvent"] by (auto simp: disableWriting_def)
  let ?w4 = "case writeCompleteCallback c of None \<Rightarrow> w3 | Some cb \<Rightarrow> queueInLoop True (WriteComplete cb a) w3"
  have w4: "same_conns w3 ?w4" "wire ?w4 = wire w3" by (auto split: option.splits)
  have "handleWrite ctl True a w = Inr ?w4" using D wr block r b(1) emp w3(1) ns by (simp add: handleWrite_def)
  moreover have "\<not> isWriting ch3" using w3(3) by (simp add: isWriting_def)
  moreover have "shut_wr ?w4 = shut_wr w1" using w4 w3(5) by (simp add: same_conns_def)
  ultimately show ?thesis using conn_ok_same[OF w3(2) w4(1)] w4(2) w3(4) by auto
qed

lemma handleWrite_stream:
  assumes doc: "epoll_documented ctl" and st: "stream_inv a sent n w"
    and ns: "st_of w a \<noteq> Some KDisconnected"
  shows "\<exists>w'. handleWrite ctl True a w = Inr w' \<and> stream_inv a sent n w'
    \<and> shut_wr w' = shut_wr w \<and> st_of w' a = st_of w a"
proof -
  from st obtain c ch where ok: "conn_ok a c ch w"
    and s: "wire w (sock c) @ content (outputBuffer c) = sent"
    and iff: "isWriting ch \<longleftrightarrow> content (outputBuffer c) \<noteq> []"
    and fit: "n \<le> room (outputBuffer c)" by (auto simp: stream_inv_def)
  note D = conn_okD[OF ok]
  let ?b = "outputBuffer c"
  have ns: "conn_state c \<noteq> KDisconnected" using ns D(2) by (simp add: st_of_def)
  obtain r w1 where r: "sys_write (sock c) (content ?b) w = (r, w1)" by (cases "sys_write (sock c) (content ?b) w")
  consider "\<not> isWriting ch" | "isWriting ch" "r \<in> range Inl \<or> r = Inr 0" | k where "isWriting ch" "r = Inr k" "k \<noteq> 0"
    by (cases r) auto
  then show ?thesis
  proof cases
    case 1
    with handleWrite_idle[OF ok] st show ?thesis by blast
  next
    case 2
    have block: "peek ?b + readableBytes ?b \<le> length (buf ?b)" "mem_read (peek ?b) (readableBytes ?b) (buf ?b) = content ?b"
      using D(7) buffer_invD[OF D(7)] by (simp_all add: peek_def content_def)
    have same: "same_conns w w1" "wire w1 = wire w" using 2(2) r sys_write_spec[of "sock c" "content ?b" w] by fastforce+
    have "handleWrite ctl True a w = Inr w1" using D 2 block r by (auto simp: handleWrite_def)
    moreover have "stream_inv a sent n w1" using conn_ok_same[OF ok same(1)] s iff fit same(2) by (auto simp: stream_inv_def)
    ultimately show ?thesis using same by (simp add: same_conns_def st_of_def)
  next
    case 3
    note r = r[unfolded 3(2)] and w1 = sys_write_spec(1)[OF r[unfolded 3(2)]]
    obtain b where b: "retrieve k ?b = Inr b" "buffer_inv b" "content b = drop k (content ?b)" "room b = room ?b"
      using bufq.get_ok[OF D(7)] w1 by blast
    have s2: "wire w1 (sock c) @ content b = sent" using w1 b(3) s by simp
    have inv: "stream_inv a sent n w'" if "conn_ok a (c\<lparr>outputBuffer := b\<rparr>) ch' w'" "isWriting ch' \<longleftrightarrow> content b \<noteq> []"
      "wire w' = wire w1" for w' ch'
      using that s2 fit b(4) unfolding stream_inv_def by (intro exI[of _ "c\<lparr>outputBuffer := b\<rparr>"] exI[of _ ch']) simp
    have st: "st_of w' a = st_of w a" if "conn_ok a (c\<lparr>outputBuffer := b\<rparr>) ch' w'" for w' ch'
      using conn_okD(2)[OF that] D(2) by (simp add: st_of_def)
    show ?thesis
    proof (cases "content b = []")
      case True
      from handleWrite_all[OF doc ok ns 3(1) r 3(3) b(1,2) True] obtain w' ch' where
        w': "handleWrite ctl True a w = Inr w'" "conn_ok a (c\<lparr>outputBuffer := b\<rparr>) ch' w'" "\<not> isWriting ch'"
          "wire w' = wire w1" "shut_wr w' = shut_wr w1" by blast
      then show ?thesis using inv[OF w'(2)] st[OF w'(2)] True w1 by (simp add: same_conns_def)
    next
      case False
      from handleWrite_part[OF ok ns 3(1) r 3(3) b(1,2) False, of ctl] show ?thesis
        using inv st False 3(1) w1 by (auto simp: same_conns_def)
    qed
  qed
qed

section \<open>Runs of sends and writable events\<close>

datatype out_op = OutSend string | OutWritable

fun run_out :: "epoll_ctl \<Rightarrow> conn_addr \<Rightarrow> out_op \<Rightarrow> 'a tcp_world_scheme \<Rightarrow> 'a tcp_world_scheme result" where
  "run_out ctl a (OutSend m) = sendInLoop ctl True m a"
| "run_out ctl a OutWritable = handleWrite ctl True a"

fun out_data :: "out_op list \<Rightarrow> string" where
  "out_data [] = []"
| "out_data (OutSend m # xs) = m @ out_data xs"
| "out_data (OutWritable # xs) = out_data xs"

lemma run_out_stream:
  assumes doc: "epoll_documented ctl" and ns: "st_of w a \<noteq> Some KDisconnected"
    and st: "stream_inv a sent (length (out_data xs) + n) w"
  shows "\<exists>w'. for_each (run_out ctl a) xs w = Inr w' \<and> stream_inv a (sent @ out_data xs) n w'
    \<and> shut_wr w' = shut_wr w \<and> st_of w' a = st_of w a"
  using ns st
proof (induction xs arbitrary: w sent)
  case Nil
  then show ?case by simp
next
  case (Cons x xs)
  have "\<exists>w1. run_out ctl a x w = Inr w1 \<and> stream_inv a (sent @ out_data [x]) (length (out_data xs) + n) w1
    \<and> shut_wr w1 = shut_wr w \<and> st_of w1 a = st_of w a"
  proof (cases x)
    case (OutSend m)
    with Cons.prems sendInLoop_stream[OF doc, of a sent m "length (out_data xs) + n" w] show ?thesis
      by (simp add: add.assoc)
  next
    case OutWritable
    with Cons.prems handleWrite_stream[OF doc, of a sent "length (out_data xs) + n" w] show ?thesis
      by simp
  qed
  then obtain w1 where w1: "run_out ctl a x w = Inr w1"
    "stream_inv a (sent @ out_data [x]) (length (out_data xs) + n) w1"
    "shut_wr w1 = shut_wr w" "st_of w1 a = st_of w a" by blast
  have "out_data (x # xs) = out_data [x] @ out_data xs" by (cases x) auto
  with w1 Cons.IH[OF _ w1(2)] Cons.prems(1) show ?case by simp
qed

section \<open>Properties of the output stream\<close>

text \<open>C2: The bytes of a connection go out in order, with no loss and no duplication. Over any
  sequence of \<open>sendInLoop\<close> calls and writable events, whatever \<open>write(2)\<close> answers each time
  (everything, part, nothing or an error), no assertion fails, and what the kernel has
  accepted followed by what is buffered is exactly the concatenation of the messages; the
  connection asks for writable events exactly while bytes are left, so none are stranded.\<close>

theorem output_stream_in_order:
  assumes "epoll_documented ctl" "st_of w a \<noteq> Some KDisconnected"
    and "stream_inv a sent (length (out_data xs) + n) w"
  shows "\<exists>w' c ch. for_each (run_out ctl a) xs w = Inr w' \<and> stream_inv a (sent @ out_data xs) n w'
    \<and> conns w' a = Some c \<and> chans w' (chan_of c) = Some ch
    \<and> wire w' (sock c) @ content (outputBuffer c) = sent @ out_data xs
    \<and> (isWriting ch \<longleftrightarrow> content (outputBuffer c) \<noteq> [])"
  using run_out_stream[OF assms] unfolding stream_inv_def conn_ok_def by blast

definition wit_tconn :: "conn_state \<Rightarrow> buffer \<Rightarrow> tcp_conn" where
  "wit_tconn st b = \<lparr>conn_loop = 0, conn_name = ''c'', conn_state = st, sock = 5, chan_of = 7,
     localAddr = zero_sockaddr, peerAddr = zero_sockaddr,
     connectionCallback = Some 0, messageCallback = Some 1, conn_closeCallback = Some 2,
     writeCompleteCallback = None, highWaterMarkCallback = None, highWaterMark = 0,
     inputBuffer = wit_buffer, outputBuffer = b\<rparr>"

definition wit_tcp :: "conn_state \<Rightarrow> buffer \<Rightarrow> events \<Rightarrow> (int + nat) list \<Rightarrow> tcp_world" where
  "wit_tcp st b e ws = \<lparr>chans = [7 \<mapsto> (new_Channel 0 5)\<lparr>events := e, index := kAdded\<rparr>],
     channels = [5 \<mapsto> 7], events_size = 16, kernel = [5 \<mapsto> (e, 7)], self = 0, looping = True,
     quit = False, callingPendingFunctors = False, pollReturnTime = 0, wakeups = 0,
     pendingFunctors = [], conns = [20 \<mapsto> wit_tconn st b], write_answers = ws,
     read_answers = [], wire = (\<lambda>_. []), shut_wr = (\<lambda>_. False)\<rparr>"

definition wit_empty :: buffer where
  "wit_empty = \<lparr>buf = replicate 10 zero_byte, readerIndex = 8, writerIndex = 8\<rparr>"

lemma wit_empty_ok: "buffer_inv wit_empty" "content wit_empty = []" "room wit_empty = vector_max - 10"
  by (simp_all add: wit_empty_def buffer_inv_def content_def buffer_consts room_def)

lemma wit_tcp_stream:
  assumes "buffer_inv b" "has e kWriteEvent \<longleftrightarrow> content b \<noteq> []" "n \<le> room b"
  shows "stream_inv 20 (content b) n (wit_tcp st b e ws)"
proof -
  have "ep_ok (wit_tcp st b e ws)"
    by (auto simp: ep_ok_def wit_tcp_def new_Channel_def split: if_splits)
  with assms show ?thesis
    by (auto simp: stream_inv_def conn_ok_def wit_tcp_def wit_tconn_def new_Channel_def isWriting_def)
qed

lemma no_write_in_read: "\<not> has kReadEvent kWriteEvent"
  by (simp add: has_def kReadEvent_def kWriteEvent_def poll_bits)

lemma wit_tcp_st [simp]: "st_of (wit_tcp st b e ws) 20 = Some st"
  by (simp add: st_of_def wit_tcp_def wit_tconn_def)

theorem output_stream_in_order_witness:
  "\<exists>w' c. for_each (run_out linux_ctl 20) [OutSend ''abc'', OutSend ''d'', OutWritable]
      (wit_tcp KConnected wit_empty kReadEvent [Inr 1, Inr 2]) = Inr w'
    \<and> conns w' 20 = Some c \<and> wire w' (sock c) @ content (outputBuffer c) = ''abcd''"
proof -
  let ?w = "wit_tcp KConnected wit_empty kReadEvent [Inr 1, Inr 2]"
  let ?xs = "[OutSend ''abc'', OutSend ''d'', OutWritable]"
  have "stream_inv 20 [] (length (out_data ?xs) + 0) ?w"
    unfolding wit_empty_ok(2)[symmetric]
    by (rule wit_tcp_stream) (simp_all add: wit_empty_ok no_write_in_read vector_max_def)
  moreover have "st_of ?w 20 \<noteq> Some KDisconnected" by simp
  moreover have "[] @ out_data ?xs = ''abcd''" by simp
  ultimately show ?thesis
    using output_stream_in_order[OF linux_ctl_documented, of ?w 20 "[]" ?xs 0] by metis
qed

text \<open>C28: A connection that is shut down while bytes are still buffered never shuts down its
  sending side. \<open>shutdown\<close> sets the state to \<open>kDisconnecting\<close> and leaves the rest to
  \<open>handleWrite\<close>; but that tests for \<open>kDisconnected\<close>, so however many writable events follow,
  and even when they have written every byte, \<open>shutdown(SHUT_WR)\<close> is not called.\<close>

theorem shutdown_never_completes:
  assumes doc: "epoll_documented ctl" and st: "stream_inv a sent n w"
    and c: "conns w a = Some c" "conn_state c = KConnected" "content (outputBuffer c) \<noteq> []"
  shows "\<exists>w1. shutdown True a w = Inr w1 \<and> (\<forall>k. \<exists>w2.
    for_each (run_out ctl a) (replicate k OutWritable) w1 = Inr w2
    \<and> shut_wr w2 = shut_wr w \<and> st_of w2 a = Some KDisconnecting)"
proof -
  from st c(1) obtain ch where ok: "conn_ok a c ch w"
    and s: "wire w (sock c) @ content (outputBuffer c) = sent"
    and iff: "isWriting ch \<longleftrightarrow> content (outputBuffer c) \<noteq> []"
    and fit: "n \<le> room (outputBuffer c)" unfolding stream_inv_def conn_ok_def by auto
  let ?c = "setState KDisconnecting c"
  let ?w1 = "put_conn a ?c w"
  have ok1: "conn_ok a ?c ch ?w1" using ok by (simp add: conn_ok_def setState_def)
  have run: "shutdown True a w = Inr ?w1"
    using c iff conn_okD[OF ok] by (simp add: shutdown_def shutdownInLoop_def setState_def)
  have st1: "st_of ?w1 a = Some KDisconnecting" by (simp add: st_of_def setState_def)
  have inv1: "stream_inv a sent n ?w1"
    using ok1 s iff fit unfolding stream_inv_def
    by (intro exI[of _ ?c] exI[of _ ch]) (simp add: setState_def)
  have "out_data (replicate k OutWritable) = []" for k by (induction k) auto
  then have "\<exists>w2. for_each (run_out ctl a) (replicate k OutWritable) ?w1 = Inr w2
      \<and> shut_wr w2 = shut_wr w \<and> st_of w2 a = Some KDisconnecting" for k
    using run_out_stream[OF doc, of ?w1 a sent "replicate k OutWritable" n] inv1 st1 by auto
  with run show ?thesis by blast
qed

theorem shutdown_never_completes_witness:
  "\<exists>w1. shutdown True 20 (wit_tcp KConnected wit_buffer kWriteEvent [Inr 1]) = Inr w1
    \<and> (\<exists>w2. for_each (run_out linux_ctl 20) (replicate 1 OutWritable) w1 = Inr w2 \<and> \<not> shut_wr w2 5)"
proof -
  let ?w = "wit_tcp KConnected wit_buffer kWriteEvent [Inr 1]"
  have "has kWriteEvent kWriteEvent" by (simp add: has_def)
  then have "stream_inv 20 (content wit_buffer) 0 ?w"
    by (intro wit_tcp_stream) (simp_all add: wit_buffer_ok)
  moreover have "conns ?w 20 = Some (wit_tconn KConnected wit_buffer)" "\<not> shut_wr ?w 5"
    by (simp_all add: wit_tcp_def)
  moreover have "content (outputBuffer (wit_tconn KConnected wit_buffer)) \<noteq> []"
    "conn_state (wit_tconn KConnected wit_buffer) = KConnected"
    by (simp_all add: wit_tconn_def wit_buffer_ok)
  ultimately show ?thesis
    using shutdown_never_completes[OF linux_ctl_documented] by metis
qed

end
