(* ===== verification/Tcp_Lifecycle.thy ===== *)
theory Tcp_Lifecycle
  imports Tcp_Connection
begin

text \<open>
  The life of a \<open>TcpConnection\<close>: what all its operations do to its state, and the way from
  \<open>connectEstablished\<close> to \<open>connectDestroyed\<close> seen from the poller.
\<close>

section \<open>What the poller leaves alone\<close>

text \<open>The state without what the poller and the channels own.\<close>

definition core :: "'a epoller_scheme \<Rightarrow> 'a epoller_scheme" where
  "core w = w\<lparr>chans := Map.empty, channels := Map.empty, kernel := Map.empty\<rparr>"

lemma core_simps [simp]:
  "core (w\<lparr>channels := m\<rparr>) = core w" "core (w\<lparr>kernel := k\<rparr>) = core w"
  "core (w\<lparr>chans := h\<rparr>) = core w" "core (put_chan a c w) = core w" "core (set_index i a w) = core w"
  by (simp_all add: core_def put_chan_def set_index_def)

lemma core_conns:
  assumes "core w' = core w"
  shows "conns w' = conns w"
proof -
  have "conns (core w') = conns (core w)" by (simp only: assms)
  then show ?thesis by (simp add: core_def)
qed

lemma epoll_update_core:
  assumes "epoll_update ctl x a w = Inr w'"
  shows "core w' = core w"
proof -
  from assms obtain c where c: "chans w a = Some c" by (auto simp: epoll_update_def result_simps)
  obtain r k where "ctl x (fd c) (events c, a) (kernel w) = (r, k)"
    by (cases "ctl x (fd c) (events c, a) (kernel w)")
  with assms c show ?thesis by (auto simp: epoll_update_def Let_def split: if_splits)
qed

lemma epoll_updateChannel_core: "epoll_updateChannel ctl inl a w = Inr w' \<Longrightarrow> core w' = core w"
  unfolding epoll_updateChannel_def
  by (auto simp: result_simps split: if_splits dest!: epoll_update_core)

lemma epoll_removeChannel_core: "epoll_removeChannel ctl inl a w = Inr w' \<Longrightarrow> core w' = core w"
  unfolding epoll_removeChannel_def
  by (auto simp: result_simps Let_def split: if_splits dest!: epoll_update_core)

lemma loop_change_conns:
  "change_events l (loop_updateChannel ctl inl) f a w = Inr w' \<Longrightarrow> conns w' = conns w"
  by (rule core_conns)
    (auto simp: change_events_def loop_updateChannel_def result_simps dest!: epoll_updateChannel_core)

lemma loop_remove_conns: "loop_removeChannel ctl inl a w = Inr w' \<Longrightarrow> conns w' = conns w"
  by (rule core_conns) (auto simp: loop_removeChannel_def result_simps dest!: epoll_removeChannel_core)

lemma loop_conns:
  "enableReading (loop_updateChannel ctl inl) a w = Inr w' \<Longrightarrow> conns w' = conns w"
  "enableWriting (loop_updateChannel ctl inl) a w = Inr w' \<Longrightarrow> conns w' = conns w"
  "disableWriting (loop_updateChannel ctl inl) a w = Inr w' \<Longrightarrow> conns w' = conns w"
  "disableAll (loop_updateChannel ctl inl) a w = Inr w' \<Longrightarrow> conns w' = conns w"
  by (simp_all only: enableReading_def enableWriting_def disableWriting_def disableAll_def
      loop_change_conns)

section \<open>The state never goes back\<close>

fun rank :: "conn_state \<Rightarrow> nat" where
  "rank KConnecting = 0"
| "rank KConnected = 1"
| "rank KDisconnecting = 2"
| "rank KDisconnected = 3"

definition advances :: "conn_addr \<Rightarrow> 'a tcp_world_scheme \<Rightarrow> 'a tcp_world_scheme \<Rightarrow> bool" where
  "advances a w w' \<longleftrightarrow> (\<forall>s. st_of w a = Some s \<longrightarrow> (\<exists>s'. st_of w' a = Some s' \<and> rank s \<le> rank s'))"

lemma advances_refl [simp]: "advances a w w"
  by (simp add: advances_def)

lemma advances_trans: "advances a u v \<Longrightarrow> advances a v w \<Longrightarrow> advances a u w"
  unfolding advances_def by (meson order_trans)

lemma advances_conns: "conns w' = conns w \<Longrightarrow> advances a w w'"
  by (auto simp: advances_def st_of_def)

lemma advances_put:
  "conns w a = Some c \<Longrightarrow> rank (conn_state c) \<le> rank (conn_state c') \<Longrightarrow> conns w' = (conns w)(a \<mapsto> c')
   \<Longrightarrow> advances a w w'"
  by (simp add: advances_def st_of_def)

datatype conn_op =
    Send string | SendQueued string | Shutdown | ShutdownQueued
  | Readable timestamp | Writable | HangUp | Established | Destroyed

fun conn_step ::
  "epoll_ctl \<Rightarrow> (user_call \<Rightarrow> 'a tcp_world_scheme \<Rightarrow> 'a tcp_world_scheme result) \<Rightarrow> bool
   \<Rightarrow> conn_addr \<Rightarrow> conn_op \<Rightarrow> 'a tcp_world_scheme \<Rightarrow> 'a tcp_world_scheme result" where
  "conn_step ctl usr inl a (Send m) = send ctl inl m a"
| "conn_step ctl usr inl a (SendQueued m) = sendInLoop ctl inl m a"
| "conn_step ctl usr inl a Shutdown = shutdown inl a"
| "conn_step ctl usr inl a ShutdownQueued = shutdownInLoop inl a"
| "conn_step ctl usr inl a (Readable t) = handleRead ctl usr inl t a"
| "conn_step ctl usr inl a Writable = handleWrite ctl inl a"
| "conn_step ctl usr inl a HangUp = handleClose ctl usr inl a"
| "conn_step ctl usr inl a Established = connectEstablished ctl usr inl a"
| "conn_step ctl usr inl a Destroyed = connectDestroyed ctl usr inl a"

lemma conn_at_Inr [result_simps]: "conn_at l a w = Inr c \<longleftrightarrow> conns w a = Some c"
  by (simp add: conn_at_def split: option.splits)

lemma call_user_Inr [result_simps]:
  "call_user usr l cb k w = Inr w' \<longleftrightarrow> (\<exists>f. cb = Some f \<and> usr (k f) w = Inr w')"
  by (cases cb) (auto simp: call_user_def)

lemma queueInLoop_conns [simp]: "conns (queueInLoop inl t w) = conns w"
  using queueInLoop_same(1)[of w inl t] by (simp add: same_conns_def)

lemma sys_write_conns: "sys_write n d w = (r, w') \<Longrightarrow> conns w' = conns w"
  using sys_write_spec[of n d w] by (cases r) (auto simp: same_conns_def)

lemma sys_readv_conns: "sys_readv n w = (r, w') \<Longrightarrow> conns w' = conns w"
  by (auto simp: sys_readv_def split: list.splits sum.splits)

lemma buffer_rest_advances:
  assumes "buffer_rest ctl inl k m a c ch w = Inr w'" "conns w a = Some c"
  shows "advances a w w'"
proof (cases "k < length m")
  case True
  with assms(1) obtain b where b: "enableWriting (loop_updateChannel ctl inl) (chan_of c)
        (put_conn a (c\<lparr>outputBuffer := b\<rparr>) w) = Inr w' \<or> w' = put_conn a (c\<lparr>outputBuffer := b\<rparr>) w"
    by (auto simp: buffer_rest_def rbind_Inr Let_def split: if_splits)
  then have "conns w' = (conns w)(a \<mapsto> c\<lparr>outputBuffer := b\<rparr>)" by (auto dest: loop_conns)
  then show ?thesis by (rule advances_put[OF assms(2), rotated]) simp
next
  case False
  with assms(1) show ?thesis by (simp add: buffer_rest_def)
qed

lemma sendInLoop_advances:
  assumes "sendInLoop ctl inl m a w = Inr w'"
  shows "advances a w w'"
proof -
  from assms obtain c ch where c: "conns w a = Some c" "chans w (chan_of c) = Some ch"
    by (auto simp: sendInLoop_def check_Inr rbind_Inr conn_at_Inr chan_at_Inr)
  obtain r u where u: "sys_write (fd ch) m w = (r, u)" by (cases "sys_write (fd ch) m w")
  define p where "p = (if \<not> isWriting ch \<and> readableBytes (outputBuffer c) = 0
    then (case sys_write (fd ch) m w of
            (Inr n, w) \<Rightarrow> (n, if n < length m then w
                              else (case writeCompleteCallback c of None \<Rightarrow> w
                                    | Some cb \<Rightarrow> queueInLoop inl (WriteComplete cb a) w))
          | (Inl e, w) \<Rightarrow> (0, w))
    else (0, w))"
  have conns: "conns (snd p) = conns w"
    using sys_write_conns[OF u] by (auto simp: p_def u split: sum.splits option.splits)
  have run: "buffer_rest ctl inl (fst p) m a c ch (snd p) = Inr w'"
  proof -
    have "sendInLoop ctl inl m a w
        = check inl (Fatal 54) (case p of (k, u) \<Rightarrow> buffer_rest ctl inl k m a c ch u)"
      by (simp only: sendInLoop_def conn_at_live[OF c(1)] chan_at_live[OF c(2)] rbind.simps
          p_def Let_def)
    with assms show ?thesis by (cases inl) (simp_all add: case_prod_unfold)
  qed
  show ?thesis
    using buffer_rest_advances[OF run] advances_trans[OF advances_conns[OF conns]] conns c(1) by simp
qed

lemma shutdownInLoop_conns:
  assumes "shutdownInLoop inl a w = Inr w'"
  shows "conns w' = conns w"
proof -
  from assms obtain c ch where "conns w a = Some c" "chans w (chan_of c) = Some ch"
    by (auto simp: shutdownInLoop_def check_Inr rbind_Inr conn_at_Inr chan_at_Inr)
  with assms show ?thesis by (auto simp: shutdownInLoop_def check_Inr split: if_splits)
qed

text \<open>The steps of \<open>handleWrite\<close> after the system call.\<close>

lemma handleWrite_in_loop:
  assumes run: "handleWrite ctl True a w = Inr w'"
  shows "advances a w w'"
proof -
  from run obtain c ch where c: "conns w a = Some c" "chans w (chan_of c) = Some ch"
    by (auto simp: handleWrite_def check_Inr rbind_Inr conn_at_Inr chan_at_Inr)
  let ?b = "outputBuffer c"
  obtain r w1 where r: "sys_write (fd ch) (mem_read (peek ?b) (readableBytes ?b) (buf ?b)) w = (r, w1)"
    by (cases "sys_write (fd ch) (mem_read (peek ?b) (readableBytes ?b) (buf ?b)) w")
  note w1 = sys_write_conns[OF r]
  show ?thesis
  proof (cases "isWriting ch \<and> (\<exists>k. r = Inr k \<and> 0 < k)")
    case False
    with run c r have "w' = w \<or> w' = w1"
      by (auto simp: handleWrite_def check_Inr split: if_splits sum.splits)
    with w1 show ?thesis using advances_conns[of w' w a] by auto
  next
    case True
    then obtain k where k: "isWriting ch" "r = Inr k" "0 < k" by blast
    with run c r obtain b where b: "retrieve k ?b = Inr b"
      by (auto simp: handleWrite_def check_Inr rbind_Inr)
    let ?c = "c\<lparr>outputBuffer := b\<rparr>"
    have put: "conns (put_conn a ?c w1) = (conns w)(a \<mapsto> ?c)" using w1 by simp
    have "conns w' = (conns w)(a \<mapsto> ?c)"
    proof (cases "readableBytes b = 0")
      case False
      with run c r k b put show ?thesis by (simp add: handleWrite_def check_Inr)
    next
      case True
      with run c r k b obtain w2 where
        w2: "disableWriting (loop_updateChannel ctl True) (chan_of c) (put_conn a ?c w1) = Inr w2"
        and w': "w' = (case writeCompleteCallback c of None \<Rightarrow> w2
            | Some cb \<Rightarrow> queueInLoop True (WriteComplete cb a) w2)
          \<or> shutdownInLoop True a (case writeCompleteCallback c of None \<Rightarrow> w2
            | Some cb \<Rightarrow> queueInLoop True (WriteComplete cb a) w2) = Inr w'"
        by (auto simp: handleWrite_def check_Inr rbind_Inr Let_def split: if_splits)
      from w' have "conns w' = conns w2"
        by (auto dest: shutdownInLoop_conns split: option.splits)
      with loop_conns(3)[OF w2] put show ?thesis by simp
    qed
    then show ?thesis by (rule advances_put[OF c(1), rotated]) simp
  qed
qed

lemma handleWrite_advances: "handleWrite ctl inl a w = Inr w' \<Longrightarrow> advances a w w'"
  using handleWrite_in_loop[of ctl a w w'] by (cases inl) (simp_all add: handleWrite_def)

lemma keeps_advancing:
  assumes usr: "\<And>u v v'. usr u v = Inr v' \<Longrightarrow> advances a v v'"
    and run: "call_user usr l cb k w = Inr w'"
  shows "advances a w w'"
  using run usr by (auto simp: result_simps)

lemma handleClose_advances:
  assumes usr: "\<And>u v v'. usr u v = Inr v' \<Longrightarrow> advances a v v'"
    and run: "handleClose ctl usr inl a w = Inr w'"
  shows "advances a w w'"
proof -
  from run obtain w1 c where "conns w a = Some c" and "disableAll (loop_updateChannel ctl inl) (chan_of c) w = Inr w1"
    and rest: "call_user usr 177 (conn_closeCallback c) (\<lambda>f. OnClose f a) w1 = Inr w'"
    by (auto simp: handleClose_def check_Inr rbind_Inr conn_at_Inr)
  then have "advances a w w1" by (intro advances_conns loop_conns(4))
  then show ?thesis by (rule advances_trans) (rule keeps_advancing[OF usr rest])
qed

lemma handleRead_advances:
  assumes usr: "\<And>u v v'. usr u v = Inr v' \<Longrightarrow> advances a v v'"
    and run: "handleRead ctl usr inl t a w = Inr w'"
  shows "advances a w w'"
proof -
  from run obtain c ch where c: "conns w a = Some c" "chans w (chan_of c) = Some ch"
    by (auto simp: handleRead_def rbind_Inr conn_at_Inr chan_at_Inr)
  obtain io u where u: "sys_readv (writableBytes (inputBuffer c) + extrabuf_size) w = (io, u)"
    by (cases "sys_readv (writableBytes (inputBuffer c) + extrabuf_size) w")
  from run c u obtain n e b where b: "readFd io (inputBuffer c) = Inr (n, e, b)"
    by (auto simp: handleRead_def rbind_Inr)
  let ?w1 = "put_conn a (c\<lparr>inputBuffer := b\<rparr>) u"
  from run c u b have
    rest: "call_user usr 127 (messageCallback c) (\<lambda>f. OnMessage f a t) ?w1 = Inr w'
      \<or> handleClose ctl usr inl a ?w1 = Inr w' \<or> handleError a ?w1 = Inr w'"
    by (auto simp: handleRead_def Let_def split: if_splits)
  have w1: "conns ?w1 = (conns w)(a \<mapsto> c\<lparr>inputBuffer := b\<rparr>)"
    using sys_readv_conns[OF u] by simp
  have 1: "advances a w ?w1" by (rule advances_put[OF c(1) _ w1]) simp
  have "advances a ?w1 w'"
    using rest keeps_advancing[OF usr] handleClose_advances[OF usr]
    by (auto simp: handleError_def rbind_Inr)
  with 1 show ?thesis by (rule advances_trans)
qed

lemma conn_step_advances:
  assumes usr: "\<And>u v v'. usr u v = Inr v' \<Longrightarrow> advances a v v'"
    and run: "conn_step ctl usr inl a x w = Inr w'"
  shows "advances a w w'"
proof (cases x)
  case Established
  with run obtain c w1 where c: "conns w a = Some c" "conn_state c = KConnecting"
    and en: "enableReading (loop_updateChannel ctl inl) (chan_of c)
      (put_conn a (setState KConnected c) w) = Inr w1"
    and rest: "call_user usr 119 (connectionCallback c) (\<lambda>f. OnConnection f a) w1 = Inr w'"
    by (auto simp: connectEstablished_def check_Inr rbind_Inr conn_at_Inr)
  have w1: "conns w1 = (conns w)(a \<mapsto> setState KConnected c)"
    using loop_conns(1)[OF en] by simp
  have "advances a w w1" by (rule advances_put[OF c(1) _ w1]) (simp add: c(2))
  then show ?thesis by (rule advances_trans) (rule keeps_advancing[OF usr rest])
next
  case Destroyed
  with run obtain c w1 w2 where c: "conns w a = Some c"
    and dis: "disableAll (loop_updateChannel ctl inl) (chan_of c)
      (put_conn a (setState KDisconnected c) w) = Inr w1"
    and rest: "call_user usr 197 (connectionCallback c) (\<lambda>f. OnConnection f a) w1 = Inr w2"
    and rem: "loop_removeChannel ctl inl (chan_of c) w2 = Inr w'"
    by (auto simp: connectDestroyed_def check_Inr rbind_Inr conn_at_Inr)
  have w1: "conns w1 = (conns w)(a \<mapsto> setState KDisconnected c)"
    using loop_conns(4)[OF dis] by simp
  note last = loop_remove_conns[OF rem]
  have "rank (conn_state c) \<le> 3" by (cases "conn_state c") auto
  then have "advances a w w1" by (intro advances_put[OF c _ w1]) (simp add: setState_def)
  then have "advances a w w2" by (rule advances_trans) (rule keeps_advancing[OF usr rest])
  then show ?thesis by (rule advances_trans) (rule advances_conns[OF last])
next
  case Shutdown
  with run obtain c where c: "conns w a = Some c" by (auto simp: shutdown_def rbind_Inr conn_at_Inr)
  with run Shutdown have "conns w' = conns w
      \<or> conn_state c = KConnected \<and> conns w' = (conns w)(a \<mapsto> setState KDisconnecting c)"
    by (auto simp: shutdown_def Let_def split: if_splits dest!: shutdownInLoop_conns)
  then show ?thesis
    using advances_conns[of w' w a] advances_put[OF c, of "setState KDisconnecting c" w']
    by (auto simp: setState_def)
next
  case (Send m)
  with run show ?thesis
    by (auto simp: send_def rbind_Inr conn_at_Inr split: if_splits
        intro: sendInLoop_advances advances_conns)
next
  case (Readable t)
  with run handleRead_advances[OF usr] show ?thesis by simp
next
  case HangUp
  with run handleClose_advances[OF usr] show ?thesis by simp
qed (use run in \<open>auto intro: sendInLoop_advances handleWrite_advances advances_conns
      dest: shutdownInLoop_conns\<close>)

lemma for_each_advances:
  assumes usr: "\<And>u v v'. usr u v = Inr v' \<Longrightarrow> advances a v v'"
  shows "for_each (conn_step ctl usr inl a) xs w = Inr w' \<Longrightarrow> advances a w w'"
proof (induction xs arbitrary: w)
  case Nil
  then show ?case by simp
next
  case (Cons x xs)
  from Cons.prems obtain w1 where w1: "conn_step ctl usr inl a x w = Inr w1"
    "for_each (conn_step ctl usr inl a) xs w1 = Inr w'" by (auto simp: rbind_Inr)
  show ?case
    using conn_step_advances[OF usr w1(1)] Cons.IH[OF w1(2)] by (rule advances_trans)
qed

section \<open>Properties\<close>

text \<open>C10: The state of a connection only ever moves forward, from connecting through connected
  and disconnecting to disconnected, whatever sequence of sends, shutdowns, queued functors,
  I/O events and life-cycle calls runs, as long as the callbacks themselves do not set it
  back. So \<open>connectEstablished\<close> cannot succeed a second time, nor \<open>connectDestroyed\<close>.\<close>

theorem conn_state_never_regresses:
  assumes usr: "\<And>u v v'. usr u v = Inr v' \<Longrightarrow> advances a v v'"
    and run: "for_each (conn_step ctl usr True a) xs w = Inr w'"
    and s: "st_of w a = Some s"
  shows "\<exists>s'. st_of w' a = Some s' \<and> rank s \<le> rank s'
    \<and> (s \<noteq> KConnecting \<longrightarrow> connectEstablished ctl usr True a w' = Inl (Assertion 109))
    \<and> (s = KDisconnected \<longrightarrow> connectDestroyed ctl usr True a w' = Inl (Assertion 192))"
proof -
  have "advances a w w'" using for_each_advances[of usr a ctl True xs w w'] usr run by blast
  with s obtain s' where s': "st_of w' a = Some s'" "rank s \<le> rank s'"
    by (auto simp: advances_def)
  then obtain c where c: "conns w' a = Some c" "conn_state c = s'" by (auto simp: st_of_def)
  have "connectEstablished ctl usr True a w' = Inl (Assertion 109)" if "s \<noteq> KConnecting"
    using that s'(2) c by (cases s; cases s') (simp_all add: connectEstablished_def)
  moreover have "connectDestroyed ctl usr True a w' = Inl (Assertion 192)" if "s = KDisconnected"
    using that s'(2) c by (cases s') (simp_all add: connectDestroyed_def)
  ultimately show ?thesis using s' by blast
qed

theorem conn_state_never_regresses_witness:
  "\<exists>w'. for_each (conn_step linux_ctl (\<lambda>_. Inr) True 20) [Shutdown]
      (wit_tcp KConnected wit_buffer kWriteEvent []) = Inr w'
    \<and> (\<exists>s'. st_of w' 20 = Some s' \<and> 1 \<le> rank s')
    \<and> connectEstablished linux_ctl (\<lambda>_. Inr) True 20 w' = Inl (Assertion 109)"
proof -
  let ?w = "wit_tcp KConnected wit_buffer kWriteEvent []"
  have "\<exists>w'. for_each (conn_step linux_ctl (\<lambda>_. Inr) True 20) [Shutdown] ?w = Inr w'"
    by (simp add: shutdown_def shutdownInLoop_def wit_tcp_def wit_tconn_def setState_def new_Channel_def Let_def)
  then obtain w' where w': "for_each (conn_step linux_ctl (\<lambda>_. Inr) True 20) [Shutdown] ?w = Inr w'" by blast
  have "\<exists>s'. st_of w' 20 = Some s' \<and> rank KConnected \<le> rank s'
    \<and> (KConnected \<noteq> KConnecting \<longrightarrow>
          connectEstablished linux_ctl (\<lambda>_. Inr) True 20 w' = Inl (Assertion 109))
    \<and> (KConnected = KDisconnected \<longrightarrow>
          connectDestroyed linux_ctl (\<lambda>_. Inr) True 20 w' = Inl (Assertion 192))"
    by (rule conn_state_never_regresses[OF _ w']) simp_all
  with w' show ?thesis by auto
qed

text \<open>The two halves of the life of a connection.\<close>

lemma connectEstablished_ok:
  fixes w :: "'a tcp_world_scheme"
  assumes doc: "epoll_documented ctl" and ok: "ep_ok w"
    and c: "conns w a = Some c" "conn_state c = KConnecting" "connectionCallback c = Some f"
    and ch: "chans w (chan_of c) = Some ch" "fd ch = sock c" "loop ch = self w" "events ch = kNoneEvent"
    and free: "channels w (sock c) = None"
    and usr: "\<And>u v. \<exists>v'. usr u v = Inr v' \<and> same_conns v v'"
  shows "\<exists>w1 i. connectEstablished ctl usr True a w = Inr w1 \<and> ep_ok w1 \<and> asked_events w1 (sock c) = kReadEvent
    \<and> conns w1 a = Some (setState KConnected c) \<and> channels w1 = (channels w)(sock c \<mapsto> chan_of c) \<and> self w1 = self w
    \<and> chans w1 = (chans w)(chan_of c \<mapsto> ch\<lparr>events := kReadEvent, index := i\<rparr>)"
proof -
  let ?ca = "chan_of c" and ?w0 = "put_conn a (setState KConnected c) w"
  have zero: "x OR kReadEvent = kReadEvent" if "x = kNoneEvent" for x :: events
    using that by (simp add: kNoneEvent_def)
  obtain u1 i where u1: "enableReading (loop_updateChannel ctl True) ?ca ?w0 = Inr u1" "ep_ok u1"
    "channels u1 = (channels w)(sock c \<mapsto> ?ca)"
    "chans u1 = (chans w)(?ca \<mapsto> ch\<lparr>events := kReadEvent, index := i\<rparr>)"
    "u1 = ?w0\<lparr>chans := chans u1, channels := channels u1, kernel := kernel u1\<rparr>"
    using loop_change_ok[OF doc, of ?w0 ?ca ch 72 "\<lambda>e. e OR kReadEvent"] ok ch free
    by (auto simp: enableReading_def zero)
  obtain w1 where w1: "usr (OnConnection f a) u1 = Inr w1" "same_conns u1 w1" using usr by blast
  have run1: "connectEstablished ctl usr True a w = Inr w1"
    using c u1(1) w1(1) by (simp add: connectEstablished_def call_user_def)
  have s1: "chans w1 = chans u1" "channels w1 = channels u1" "kernel w1 = kernel u1"
    "self w1 = self w" "conns w1 a = Some (setState KConnected c)"
    using w1(2) loop_frame(1)[OF u1(5)] loop_conns(1)[OF u1(1)] by (simp_all add: same_conns_def)
  have ok1: "ep_ok w1" using u1(2) ep_ok_cong[of w1 u1] s1 by simp
  then have "asked_events w1 (sock c) = kReadEvent"
    using event_poller.asked_ok[OF epoll_event_poller[OF doc] ok1] s1 u1(3,4) by simp
  then show ?thesis using run1 ok1 s1 u1(3,4) by auto
qed

lemma connectDestroyed_ok:
  fixes w :: "'a tcp_world_scheme"
  assumes doc: "epoll_documented ctl" and ok: "ep_ok w"
    and c: "conns w a = Some c" "conn_state c = KConnected" "connectionCallback c = Some f"
    and ch: "chans w (chan_of c) = Some ch" "fd ch = sock c" "loop ch = self w" "channels w (sock c) = Some (chan_of c)"
    and usr: "\<And>u v. \<exists>v'. usr u v = Inr v' \<and> same_conns v v'"
  shows "\<exists>w2. connectDestroyed ctl usr True a w = Inr w2 \<and> ep_ok w2 \<and> channels w2 = (channels w)(sock c := None)
    \<and> asked_events w2 (sock c) = kNoneEvent \<and> st_of w2 a = Some KDisconnected"
proof -
  let ?ca = "chan_of c" and ?w0 = "put_conn a (setState KDisconnected c) w"
  obtain u2 j where u2: "disableAll (loop_updateChannel ctl True) ?ca ?w0 = Inr u2" "ep_ok u2"
    "channels u2 = (channels w)(sock c \<mapsto> ?ca)"
    "chans u2 = (chans w)(?ca \<mapsto> ch\<lparr>events := kNoneEvent, index := j\<rparr>)"
    "u2 = ?w0\<lparr>chans := chans u2, channels := channels u2, kernel := kernel u2\<rparr>"
    using loop_change_ok[OF doc, of ?w0 ?ca ch 87 "\<lambda>e. kNoneEvent"] ok ch by (auto simp: disableAll_def)
  obtain u3 where u3: "usr (OnConnection f a) u2 = Inr u3" "same_conns u2 u3" using usr by blast
  have s3: "chans u3 = chans u2" "channels u3 = channels u2" "kernel u3 = kernel u2"
    "self u3 = self w" "conns u3 a = Some (setState KDisconnected c)"
    using u3(2) loop_frame(1)[OF u2(5)] loop_conns(4)[OF u2(1)] by (simp_all add: same_conns_def)
  have ok3: "ep_ok u3" using u2(2) ep_ok_cong[of u3 u2] s3 by simp
  obtain w2 where w2: "loop_removeChannel ctl True ?ca u3 = Inr w2" "ep_ok w2"
    "channels w2 = (channels u3)(sock c := None)"
    using loop_remove_ok[OF doc ok3, of ?ca "ch\<lparr>events := kNoneEvent, index := j\<rparr>"] s3 u2(3,4) ch by auto
  have run2: "connectDestroyed ctl usr True a w = Inr w2"
    using c u2(1) u3(1) w2(1) by (simp add: connectDestroyed_def call_user_def)
  have "channels w2 = (channels w)(sock c := None)" using w2(3) s3 u2(3) by (simp add: fun_eq_iff)
  moreover have "asked_events w2 (sock c) = kNoneEvent"
    using event_poller.asked_ok[OF epoll_event_poller[OF doc] w2(2)] calculation by simp
  moreover have "st_of w2 a = Some KDisconnected"
    using loop_remove_conns[OF w2(1)] s3(5) by (simp add: st_of_def setState_def)
  ultimately show ?thesis using run2 w2(2) by blast
qed

text \<open>C11: A connection registers and deregisters itself. On a fresh connection whose descriptor
  is free at the poller, \<open>connectEstablished\<close> makes the kernel watch the descriptor for
  reading, and \<open>connectDestroyed\<close> afterwards takes it out of the kernel and of the poller's
  map, leaving the map as it was; every assertion on the way holds, provided the
  connection callback touches neither this connection nor its channel.\<close>

theorem connection_life:
  fixes w :: "'a tcp_world_scheme"
  assumes doc: "epoll_documented ctl" and ok: "ep_ok w"
    and c: "conns w a = Some c" "conn_state c = KConnecting" "connectionCallback c = Some f"
    and ch: "chans w (chan_of c) = Some ch" "fd ch = sock c" "loop ch = self w" "events ch = kNoneEvent"
    and free: "channels w (sock c) = None"
    and usr: "\<And>u v. \<exists>v'. usr u v = Inr v' \<and> same_conns v v'"
  shows "\<exists>w1 w2. connectEstablished ctl usr True a w = Inr w1 \<and> ep_ok w1
    \<and> asked_events w1 (sock c) = kReadEvent \<and> st_of w1 a = Some KConnected
    \<and> connectDestroyed ctl usr True a w1 = Inr w2 \<and> ep_ok w2 \<and> channels w2 = channels w
    \<and> asked_events w2 (sock c) = kNoneEvent \<and> st_of w2 a = Some KDisconnected"
proof -
  obtain w1 i where w1:
    "connectEstablished ctl usr True a w = Inr w1" "ep_ok w1" "asked_events w1 (sock c) = kReadEvent"
    "conns w1 a = Some (setState KConnected c)" "channels w1 = (channels w)(sock c \<mapsto> chan_of c)" "self w1 = self w"
    "chans w1 = (chans w)(chan_of c \<mapsto> ch\<lparr>events := kReadEvent, index := i\<rparr>)"
    using connectEstablished_ok[OF doc ok c ch free, of usr] usr by blast
  let ?c = "setState KConnected c"
  have pre: "conn_state ?c = KConnected" "connectionCallback ?c = Some f"
    "chans w1 (chan_of ?c) = Some (ch\<lparr>events := kReadEvent, index := i\<rparr>)" "fd (ch\<lparr>events := kReadEvent, index := i\<rparr>) = sock ?c"
    "loop (ch\<lparr>events := kReadEvent, index := i\<rparr>) = self w1" "channels w1 (sock ?c) = Some (chan_of ?c)"
    using c ch w1(5-7) by (simp_all add: setState_def)
  obtain w2 where w2: "connectDestroyed ctl usr True a w1 = Inr w2" "ep_ok w2"
    "channels w2 = (channels w1)(sock ?c := None)" "asked_events w2 (sock ?c) = kNoneEvent" "st_of w2 a = Some KDisconnected"
    using connectDestroyed_ok[OF doc w1(2,4) pre, of usr] usr by blast
  moreover have "channels w2 = channels w" using w2(3) w1(5) free by (auto simp: setState_def fun_eq_iff)
  moreover have "st_of w1 a = Some KConnected" using w1(4) by (simp add: st_of_def setState_def)
  moreover have "sock ?c = sock c" by (simp add: setState_def)
  ultimately show ?thesis using w1(1-3) by auto
qed

definition wit_fresh :: tcp_world where
  "wit_fresh = (wit_tcp KConnecting wit_buffer 0 [])\<lparr>chans := [7 \<mapsto> new_Channel 0 5],
     channels := Map.empty, kernel := Map.empty\<rparr>"

theorem connection_life_witness:
  "\<exists>w1 w2. connectEstablished linux_ctl (\<lambda>_. Inr) True 20 wit_fresh = Inr w1
    \<and> asked_events w1 5 = kReadEvent
    \<and> connectDestroyed linux_ctl (\<lambda>_. Inr) True 20 w1 = Inr w2 \<and> channels w2 = Map.empty"
proof -
  let ?c = "wit_tconn KConnecting wit_buffer"
  have "ep_ok wit_fresh" by (auto simp: ep_ok_def wit_fresh_def new_Channel_def kNew_def split: if_splits)
  moreover have "conns wit_fresh 20 = Some ?c" "conn_state ?c = KConnecting"
    "connectionCallback ?c = Some 0" "chans wit_fresh (chan_of ?c) = Some (new_Channel 0 5)"
    "fd (new_Channel 0 5) = sock ?c" "loop (new_Channel 0 5) = self wit_fresh"
    "events (new_Channel 0 5) = kNoneEvent" "channels wit_fresh (sock ?c) = None"
    "channels wit_fresh = Map.empty" "sock ?c = 5"
    by (simp_all add: wit_fresh_def wit_tcp_def wit_tconn_def new_Channel_def kNoneEvent_def)
  moreover have "\<And>u v. \<exists>v'. (\<lambda>_. Inr) u v = Inr v' \<and> same_conns v (v' :: tcp_world)" by simp
  ultimately show ?thesis
    using connection_life[OF linux_ctl_documented, of wit_fresh 20 ?c 0 "new_Channel 0 5" "\<lambda>_. Inr"]
    by (auto 0 3)
qed

end
