(* ===== verification/Tcp_Server.thy ===== *)
theory Tcp_Server
  imports Tcp_Lifecycle
begin

text \<open>
  \<open>TcpServer\<close>, \<open>Acceptor\<close> and the choice of loops of \<open>EventLoopThreadPool\<close>
  (src/net/TcpServer.h, TcpServer.cpp, Acceptor.h, Acceptor.cpp, EventLoopThreadPool.h,
  EventLoopThreadPool.cpp). The state is that of the loop whose thread is running, with the
  memory of the other loops set aside in \<open>parked\<close>: \<open>switch l\<close> makes \<open>l\<close> the running loop, and
  every step of another thread is a step between two switches. \<open>app\<close> is the callbacks of the
  user. What system calls answer and the addresses that \<open>new\<close> returns are components of the
  state. A connection object stays on the heap after its last \<open>shared_ptr\<close> is gone.
\<close>

section \<open>State\<close>

text \<open>What a loop object owns, apart from its channels, which share one heap.\<close>

record loop_mem =
  m_channels :: "int \<rightharpoonup> chan_addr"
  m_events_size :: nat
  m_kernel :: "int \<rightharpoonup> events \<times> chan_addr"
  m_looping :: bool
  m_quit :: bool
  m_calling :: bool
  m_pollReturnTime :: timestamp
  m_wakeups :: nat
  m_pending :: "task list"

record server_world = tcp_world +
  parked :: "nat \<Rightarrow> loop_mem"
  srv_loop :: nat
  srv_name :: string
  srv_connectionCallback :: "nat option"
  srv_messageCallback :: "nat option"
  srv_writeCompleteCallback :: "nat option"
  srv_started :: bool
  nextConnId :: int
  connections :: "string \<rightharpoonup> conn_addr"
  acceptSocket :: int
  acceptChannel :: chan_addr
  newConnectionCallback :: bool \<comment> \<open>whether it is set\<close>
  listenning :: bool
  pool_started :: bool
  numThreads :: int
  next_loop :: nat
  loops :: "nat list"
  new_addrs :: "(conn_addr \<times> chan_addr) list" \<comment> \<open>what the allocator will return\<close>
  sock_names :: "int \<Rightarrow> sockaddr_in option" \<comment> \<open>what \<open>getsockname\<close> answers\<close>
  accept_answers :: "(int + int \<times> sockaddr_in) list"
  listen_answer :: int
  closed_socks :: "int list"

definition park :: "'a loop_state_scheme \<Rightarrow> loop_mem" where
  "park w = \<lparr>m_channels = channels w, m_events_size = events_size w, m_kernel = kernel w,
     m_looping = looping w, m_quit = quit w, m_calling = callingPendingFunctors w,
     m_pollReturnTime = pollReturnTime w, m_wakeups = wakeups w, m_pending = pendingFunctors w\<rparr>"

definition unpark :: "loop_mem \<Rightarrow> 'a loop_state_scheme \<Rightarrow> 'a loop_state_scheme" where
  "unpark m w = w\<lparr>channels := m_channels m, events_size := m_events_size m, kernel := m_kernel m,
     looping := m_looping m, quit := m_quit m, callingPendingFunctors := m_calling m,
     pollReturnTime := m_pollReturnTime m, wakeups := m_wakeups m, pendingFunctors := m_pending m\<rparr>"

definition switch :: "nat \<Rightarrow> 'a server_world_scheme \<Rightarrow> 'a server_world_scheme" where
  "switch l w =
     (if l = self w then w
      else unpark (parked w l) (w\<lparr>self := l, parked := (parked w)(self w := park w)\<rparr>))"

text \<open>\<open>l->queueInLoop(t)\<close> called in the running thread.\<close>

definition post :: "nat \<Rightarrow> task \<Rightarrow> 'a server_world_scheme \<Rightarrow> 'a server_world_scheme" where
  "post l t w = switch (self w) (queueInLoop (l = self w) t (switch l w))"

section \<open>The pool of loops\<close>

definition pool_setThreadNum :: "int \<Rightarrow> 'a server_world_scheme \<Rightarrow> 'a server_world_scheme" where
  "pool_setThreadNum n w = w\<lparr>numThreads := n\<rparr>"

text \<open>\<open>new_loop i\<close> is the loop the \<open>i\<close>-th new \<open>EventLoopThread\<close> returns from \<open>startLoop\<close>.\<close>

definition pool_start :: "(nat \<Rightarrow> nat) \<Rightarrow> bool \<Rightarrow> 'a server_world_scheme \<Rightarrow> 'a server_world_scheme result" where
  "pool_start new_loop inl w =
     check (\<not> pool_started w) (Assertion 22)
    (check inl (Fatal 23)
      (Inr (w\<lparr>pool_started := True, loops := loops w @ map new_loop [0..<nat (numThreads w)]\<rparr>)))"

definition getNextLoop :: "'a server_world_scheme \<Rightarrow> (nat \<times> 'a server_world_scheme) result" where
  "getNextLoop w =
     check (self w = srv_loop w) (Fatal 36)
      (if loops w \<noteq> []
       then check (next_loop w < length (loops w)) (Undefined 42)
         (let l = loops w ! next_loop w;
              n = next_loop w + 1
          in Inr (l, w\<lparr>next_loop := if length (loops w) \<le> n then 0 else n\<rparr>))
       else Inr (srv_loop w, w))"

section \<open>The server\<close>

definition setThreadNum :: "int \<Rightarrow> 'a server_world_scheme \<Rightarrow> 'a server_world_scheme result" where
  "setThreadNum n w = check (0 \<le> n) (Assertion 34) (Inr (pool_setThreadNum n w))"

definition removeConnectionInLoop :: "conn_addr \<Rightarrow> 'a server_world_scheme \<Rightarrow> 'a server_world_scheme result" where
  "removeConnectionInLoop a w =
     check (self w = srv_loop w) (Fatal 92)
    (rbind (conn_at 95 a w) (\<lambda>c.
     let n = (if connections w (conn_name c) = None then 0 else 1 :: nat);
         w = w\<lparr>connections := (connections w)(conn_name c := None)\<rparr>
     in check (n = 1) (Assertion 97)
          (Inr (post (conn_loop c) (ConnectDestroyed a) w))))"

definition removeConnection :: "conn_addr \<Rightarrow> 'a server_world_scheme \<Rightarrow> 'a server_world_scheme result" where
  "removeConnection a w =
     (if self w = srv_loop w then removeConnectionInLoop a w
      else Inr (post (srv_loop w) (RemoveConnectionInLoop a) w))"

text \<open>The callbacks of a connection of the server: its own close callback, and the user's.\<close>

definition server_usr ::
  "(user_call \<Rightarrow> 'a server_world_scheme \<Rightarrow> 'a server_world_scheme result)
   \<Rightarrow> user_call \<Rightarrow> 'a server_world_scheme \<Rightarrow> 'a server_world_scheme result" where
  "server_usr app u w = (case u of OnClose _ a \<Rightarrow> removeConnection a w | _ \<Rightarrow> app u w)"

definition conn_key :: "string \<Rightarrow> int \<Rightarrow> string" where
  \<comment> \<open>\<open>snprintf\<close> into 32 bytes, after the name of the server\<close>
  "conn_key nm i = nm @ take 31 (CHR ''#'' # dec_int i)"

definition newConnection ::
  "epoll_ctl \<Rightarrow> (user_call \<Rightarrow> 'a server_world_scheme \<Rightarrow> 'a server_world_scheme result)
   \<Rightarrow> int \<Rightarrow> sockaddr_in \<Rightarrow> 'a server_world_scheme \<Rightarrow> 'a server_world_scheme result" where
  "newConnection ctl app sockfd peer w =
     check (self w = srv_loop w) (Fatal 57)
    (check (nextConnId w < 2 ^ 31 - 1) (Undefined 62)
    (let connName = conn_key (srv_name w) (nextConnId w);
         w = w\<lparr>nextConnId := nextConnId w + 1\<rparr>;
         local = getLocalAddr (sock_names w sockfd)
     in rbind (getNextLoop w) (\<lambda>(ioLoop, w).
        case new_addrs w of
          [] \<Rightarrow> Inl (Thrown 72)
        | (a, ca) # rest \<Rightarrow>
            rbind (new_TcpConnection ioLoop connName sockfd local peer a ca (w\<lparr>new_addrs := rest\<rparr>)) (\<lambda>w.
            let w = w\<lparr>connections := (connections w)(connName \<mapsto> a)\<rparr>
            in rbind (conn_at 75 a w) (\<lambda>c.
               let c = setConnectionCallback (srv_connectionCallback w) c;
                   c = setMessageCallback (srv_messageCallback w) c;
                   c = setWriteCompleteCallback (srv_writeCompleteCallback w) c;
                   c = conn_setCloseCallback (Some 0) c;
                   w = put_conn a c w
               in if ioLoop = self w then connectEstablished ctl (server_usr app) True a w
                  else Inr (post ioLoop (ConnectEstablished a) w))))))"

section \<open>The acceptor\<close>

definition acceptor_listen :: "epoll_ctl \<Rightarrow> bool \<Rightarrow> 'a server_world_scheme \<Rightarrow> 'a server_world_scheme result" where
  "acceptor_listen ctl inl w =
     check inl (Fatal 30)
    (let w = w\<lparr>listenning := True\<rparr>
     in rbind (listenOrDie (listen_answer w)) (\<lambda>_.
          enableReading (loop_updateChannel ctl inl) (acceptChannel w) w))"

definition sys_accept ::
  "'a server_world_scheme \<Rightarrow> (int + int \<times> sockaddr_in) \<times> 'a server_world_scheme" where
  "sys_accept w =
     (case accept_answers w of
        [] \<Rightarrow> (Inl EAGAIN, w)
      | r # rest \<Rightarrow> (r, w\<lparr>accept_answers := rest\<rparr>))"

definition acceptor_handleRead ::
  "epoll_ctl \<Rightarrow> (user_call \<Rightarrow> 'a server_world_scheme \<Rightarrow> 'a server_world_scheme result) \<Rightarrow> bool
   \<Rightarrow> 'a server_world_scheme \<Rightarrow> 'a server_world_scheme result" where
  "acceptor_handleRead ctl app inl w =
     check inl (Fatal 42)
    (let (r, w) = sys_accept w
     in rbind (Socket_Accept r (InetAddress_port 0)) (\<lambda>(connfd, peerAddr).
        case connfd of
          None \<Rightarrow> Inr w
        | Some n \<Rightarrow>
            if newConnectionCallback w then newConnection ctl app n peerAddr w
            else Inr (w\<lparr>closed_socks := closed_socks w @ [n]\<rparr>)))"

definition start ::
  "epoll_ctl \<Rightarrow> (nat \<Rightarrow> nat) \<Rightarrow> bool \<Rightarrow> 'a server_world_scheme \<Rightarrow> 'a server_world_scheme result" where
  "start ctl new_loop inl w =
     rbind (if \<not> srv_started w then pool_start new_loop inl (w\<lparr>srv_started := True\<rparr>) else Inr w) (\<lambda>w.
       if \<not> listenning w
       then (if inl then acceptor_listen ctl inl w
             else Inr (queueInLoop inl (AcceptorListen (acceptChannel w)) w))
       else Inr w)"

text \<open>
  Construction: on the state \<open>w\<close> of the loop, with the descriptor \<open>socket(2)\<close> returned, the
  answer of \<open>bind(2)\<close> and the address of the acceptor's channel.
\<close>

definition new_Acceptor ::
  "int \<Rightarrow> int \<Rightarrow> chan_addr \<Rightarrow> 'a server_world_scheme \<Rightarrow> 'a server_world_scheme result" where
  "new_Acceptor sockfd bound ca w =
     rbind (createNonblockingOrDie sockfd) (\<lambda>n.
     let ch = new_Channel (self w) n;
         w = put_chan ca ch (w\<lparr>acceptSocket := n, acceptChannel := ca, listenning := False,
                                newConnectionCallback := False\<rparr>)
     in rbind (bindOrDie bound) (\<lambda>_.
          Inr (put_chan ca (setReadCallback (AcceptorRead ca) ch) w)))"

definition setNewConnectionCallback :: "'a server_world_scheme \<Rightarrow> 'a server_world_scheme" where
  "setNewConnectionCallback w = w\<lparr>newConnectionCallback := True\<rparr>"

definition new_EventLoopThreadPool :: "'a server_world_scheme \<Rightarrow> 'a server_world_scheme" where
  "new_EventLoopThreadPool w = w\<lparr>pool_started := False, numThreads := 0, next_loop := 0, loops := []\<rparr>"

definition new_TcpServer ::
  "sockaddr_in \<Rightarrow> int \<Rightarrow> int \<Rightarrow> chan_addr \<Rightarrow> 'a server_world_scheme \<Rightarrow> 'a server_world_scheme result" where
  "new_TcpServer listenAddr sockfd bound ca w =
     rbind (new_Acceptor sockfd bound ca (w\<lparr>srv_loop := self w, srv_name := toHostPort listenAddr\<rparr>)) (\<lambda>w.
     let w = new_EventLoopThreadPool w
     in Inr (setNewConnectionCallback
              (w\<lparr>srv_connectionCallback := None, srv_messageCallback := None,
                 srv_writeCompleteCallback := None, srv_started := False, nextConnId := 1,
                 connections := Map.empty\<rparr>)))"

definition srv_setConnectionCallback :: "nat option \<Rightarrow> 'a server_world_scheme \<Rightarrow> 'a server_world_scheme" where
  "srv_setConnectionCallback cb w = w\<lparr>srv_connectionCallback := cb\<rparr>"
definition srv_setMessageCallback :: "nat option \<Rightarrow> 'a server_world_scheme \<Rightarrow> 'a server_world_scheme" where
  "srv_setMessageCallback cb w = w\<lparr>srv_messageCallback := cb\<rparr>"
definition srv_setWriteCompleteCallback :: "nat option \<Rightarrow> 'a server_world_scheme \<Rightarrow> 'a server_world_scheme" where
  "srv_setWriteCompleteCallback cb w = w\<lparr>srv_writeCompleteCallback := cb\<rparr>"

section \<open>The functors and handlers of a loop of the server\<close>

definition server_call ::
  "epoll_ctl \<Rightarrow> (user_call \<Rightarrow> 'a server_world_scheme \<Rightarrow> 'a server_world_scheme result)
   \<Rightarrow> (task \<Rightarrow> 'a server_world_scheme \<Rightarrow> 'a server_world_scheme result)
   \<Rightarrow> task \<Rightarrow> 'a server_world_scheme \<Rightarrow> 'a server_world_scheme result" where
  "server_call ctl app other t w =
     (case t of
        ConnWrite a \<Rightarrow> handleWrite ctl True a w
      | ConnClose a \<Rightarrow> handleClose ctl (server_usr app) True a w
      | ConnError a \<Rightarrow> handleError a w
      | SendInLoop a m \<Rightarrow> sendInLoop ctl True m a w
      | ShutdownInLoop a \<Rightarrow> shutdownInLoop True a w
      | WriteComplete cb a \<Rightarrow> app (OnWriteComplete cb a) w
      | ConnectEstablished a \<Rightarrow> connectEstablished ctl (server_usr app) True a w
      | ConnectDestroyed a \<Rightarrow> connectDestroyed ctl (server_usr app) True a w
      | AcceptorListen _ \<Rightarrow> acceptor_listen ctl True w
      | RemoveConnectionInLoop a \<Rightarrow> removeConnectionInLoop a w
      | _ \<Rightarrow> other t w)"

definition server_callr ::
  "epoll_ctl \<Rightarrow> (user_call \<Rightarrow> 'a server_world_scheme \<Rightarrow> 'a server_world_scheme result)
   \<Rightarrow> (task \<Rightarrow> 'a server_world_scheme \<Rightarrow> 'a server_world_scheme result)
   \<Rightarrow> timestamp \<Rightarrow> task \<Rightarrow> 'a server_world_scheme \<Rightarrow> 'a server_world_scheme result" where
  "server_callr ctl app other receiveTime t w =
     (case t of
        ConnRead a \<Rightarrow> handleRead ctl (server_usr app) True receiveTime a w
      | AcceptorRead _ \<Rightarrow> acceptor_handleRead ctl app True w
      | LoopRead \<Rightarrow> Inr (handleWakeup w)
      | _ \<Rightarrow> other t w)"

section \<open>Switching loops\<close>

lemma park_unpark [simp]: "park (unpark m w) = m"
  by (simp add: park_def unpark_def)

lemma unpark_frames [simp]:
  "conns (unpark m w) = conns w" "chans (unpark m w) = chans w" "self (unpark m w) = self w"
  "parked (unpark m w) = parked w" "srv_loop (unpark m w) = srv_loop w"
  "connections (unpark m w) = connections w" "wire (unpark m w) = wire w"
  "shut_wr (unpark m w) = shut_wr w" "channels (unpark m w) = m_channels m"
  "kernel (unpark m w) = m_kernel m" "pendingFunctors (unpark m w) = m_pending m"
  "read_answers (unpark m w) = read_answers w" "write_answers (unpark m w) = write_answers w"
  by (simp_all add: unpark_def)

lemma switch_self [simp]: "switch (self w) w = w"
  by (simp add: switch_def)

lemma switch_frames [simp]:
  "self (switch l w) = l" "conns (switch l w) = conns w" "chans (switch l w) = chans w"
  "srv_loop (switch l w) = srv_loop w" "connections (switch l w) = connections w"
  "wire (switch l w) = wire w" "shut_wr (switch l w) = shut_wr w"
  "read_answers (switch l w) = read_answers w" "write_answers (switch l w) = write_answers w"
  by (simp_all add: switch_def)

lemma post_self: "l = self w \<Longrightarrow> post l t w = queueInLoop True t w"
proof -
  assume l: "l = self w"
  have "self (queueInLoop True t w) = self w" using queueInLoop_same(1)[of w] by (simp add: same_conns_def)
  then have "switch (self w) (queueInLoop True t w) = queueInLoop True t w" by (metis switch_self)
  with l show ?thesis by (simp add: post_def)
qed

lemma post_other:
  assumes "l \<noteq> self w"
  shows "post l t w = w\<lparr>parked := (parked w)(self w := park w,
    l := (parked w l)\<lparr>m_pending := m_pending (parked w l) @ [t], m_wakeups := m_wakeups (parked w l) + 1\<rparr>)\<rparr>"
  using assms
  by (cases "parked w l")
    (simp add: post_def switch_def queueInLoop_def push_pending_def wakeup_def Let_def unpark_def
      park_def)

lemma post_frames [simp]:
  "self (post l t w) = self w" "conns (post l t w) = conns w" "chans (post l t w) = chans w"
  "channels (post l t w) = channels w" "kernel (post l t w) = kernel w"
  "connections (post l t w) = connections w" "srv_loop (post l t w) = srv_loop w"
  "srv_name (post l t w) = srv_name w" "nextConnId (post l t w) = nextConnId w"
  "loops (post l t w) = loops w" "next_loop (post l t w) = next_loop w"
  "new_addrs (post l t w) = new_addrs w" "wire (post l t w) = wire w"
  "read_answers (post l t w) = read_answers w" "write_answers (post l t w) = write_answers w"
  by (cases "l = self w"; simp add: post_self post_other queueInLoop_def push_pending_def wakeup_def Let_def)+

section \<open>Accepting connections with a pool of loops\<close>

lemma dec_int_nonneg: "0 \<le> i \<Longrightarrow> dec_int i = dec_nat (nat i)"
  by (simp add: dec_int_def)

lemma conn_key_inj:
  assumes "0 \<le> i" "i < 2 ^ 31" "0 \<le> j" "j < 2 ^ 31" "conn_key nm i = conn_key nm j"
  shows "i = j"
proof -
  have "take 30 (dec_nat (nat k)) = dec_nat (nat k)" if "0 \<le> k" "k < 2 ^ 31" for k :: int
  proof -
    have "length (dec_nat (nat k)) \<le> Suc 29" unfolding length_dec_nat_le using that by simp
    then show ?thesis by simp
  qed
  with assms have "dec_nat (nat i) = dec_nat (nat j)" by (simp add: conn_key_def dec_int_nonneg)
  with assms show ?thesis by (simp add: dec_nat_inj)
qed

definition fresh_buffer :: buffer where
  "fresh_buffer = \<lparr>buf = replicate (kCheapPrepend + kInitialSize) zero_byte,
     readerIndex = kCheapPrepend, writerIndex = kCheapPrepend\<rparr>"

lemma new_Buffer_fresh: "new_Buffer = Inr fresh_buffer"
  by (simp add: new_Buffer_eq fresh_buffer_def buffer_consts)

text \<open>
  The state in which the loop of the server accepts connections for a pool of other loops:
  no name the counter will still produce is in the map.
\<close>

definition accepting :: "'a server_world_scheme \<Rightarrow> bool" where
  "accepting w \<longleftrightarrow> self w = srv_loop w \<and> loops w \<noteq> [] \<and> self w \<notin> set (loops w)
     \<and> next_loop w < length (loops w) \<and> 0 \<le> nextConnId w
     \<and> distinct (map fst (new_addrs w))"

definition server_conn ::
  "'a server_world_scheme \<Rightarrow> nat \<Rightarrow> string \<Rightarrow> int \<Rightarrow> sockaddr_in \<Rightarrow> chan_addr \<Rightarrow> tcp_conn" where
  "server_conn w l nm n peer ca = \<lparr>conn_loop = l, conn_name = nm, conn_state = KConnecting, sock = n,
     chan_of = ca, localAddr = getLocalAddr (sock_names w n), peerAddr = peer,
     connectionCallback = srv_connectionCallback w, messageCallback = srv_messageCallback w,
     conn_closeCallback = Some 0, writeCompleteCallback = srv_writeCompleteCallback w,
     highWaterMarkCallback = None, highWaterMark = 0,
     inputBuffer = fresh_buffer, outputBuffer = fresh_buffer\<rparr>"

lemma newConnection_pool:
  assumes acc: "accepting w" and id: "nextConnId w < 2 ^ 31 - 1"
    and new: "new_addrs w = (a, ca) # rest"
  defines "l \<equiv> loops w ! next_loop w" and "nm \<equiv> conn_key (srv_name w) (nextConnId w)"
  shows "\<exists>w'. newConnection ctl app n peer w = Inr w' \<and> accepting w'
    \<and> connections w' = (connections w)(nm \<mapsto> a) \<and> conns w' = (conns w)(a \<mapsto> server_conn w l nm n peer ca)
    \<and> new_addrs w' = rest \<and> nextConnId w' = nextConnId w + 1 \<and> loops w' = loops w \<and> self w' = self w
    \<and> next_loop w' = (next_loop w + 1) mod length (loops w)
    \<and> (\<forall>k. k \<noteq> self w \<longrightarrow> m_pending (parked w' k)
          = m_pending (parked w k) @ (if k = l then [ConnectEstablished a] else []))
    \<and> srv_name w' = srv_name w \<and> sock_names w' = sock_names w
    \<and> srv_connectionCallback w' = srv_connectionCallback w
    \<and> srv_messageCallback w' = srv_messageCallback w
    \<and> srv_writeCompleteCallback w' = srv_writeCompleteCallback w"
proof -
  have lp: "l \<noteq> self w" using acc by (auto simp: accepting_def l_def in_set_conv_nth)
  let ?k = "if length (loops w) \<le> Suc (next_loop w) then 0 else Suc (next_loop w)"
  have k: "?k = (next_loop w + 1) mod length (loops w)" "?k < length (loops w)"
    using acc by (auto simp: accepting_def mod_Suc)
  let ?w1 = "w\<lparr>nextConnId := nextConnId w + 1, next_loop := ?k, new_addrs := rest,
    chans := (chans w)(ca \<mapsto> (new_Channel l n)\<lparr>readCallback := Some (ConnRead a),
      writeCallback := Some (ConnWrite a), closeCallback := Some (ConnClose a),
      errorCallback := Some (ConnError a)\<rparr>),
    connections := (connections w)(nm \<mapsto> a), conns := (conns w)(a \<mapsto> server_conn w l nm n peer ca)\<rparr>"
  have run: "newConnection ctl app n peer w = Inr (post l (ConnectEstablished a) ?w1)"
    using acc id new lp
    by (simp add: accepting_def newConnection_def getNextLoop_def Let_def new_Buffer_fresh
        new_TcpConnection_def put_conn_def put_chan_def server_conn_def l_def nm_def
        setReadCallback_def setWriteCallback_def setCloseCallback_def setErrorCallback_def
        setConnectionCallback_def setMessageCallback_def setWriteCompleteCallback_def
        conn_setCloseCallback_def conn_at_def)
  have acc': "accepting (post l (ConnectEstablished a) ?w1)"
    using acc new k(2) by (auto simp: accepting_def)
  have pend: "m_pending (parked (post l (ConnectEstablished a) ?w1) j)
      = m_pending (parked w j) @ (if j = l then [ConnectEstablished a] else [])" if "j \<noteq> self w" for j
    using lp that by (simp add: post_other)
  show ?thesis
    using run acc' pend k(1) lp by (intro exI[of _ "post l (ConnectEstablished a) ?w1"]) (simp add: post_other)
qed

text \<open>Where the \<open>i\<close>-th connection accepted from now on goes.\<close>

definition nth_loop :: "'a server_world_scheme \<Rightarrow> nat \<Rightarrow> nat" where
  "nth_loop w i = loops w ! ((next_loop w + i) mod length (loops w))"

definition nth_conn :: "(int \<times> sockaddr_in) list \<Rightarrow> 'a server_world_scheme \<Rightarrow> nat \<Rightarrow> tcp_conn" where
  "nth_conn xs w i = server_conn w (nth_loop w i) (conn_key (srv_name w) (nextConnId w + int i))
     (fst (xs ! i)) (snd (xs ! i)) (snd (new_addrs w ! i))"

text \<open>What accepting a sequence of descriptors does, and what accepting the first of them does.\<close>

definition accepted :: "(int \<times> sockaddr_in) list \<Rightarrow> 'a server_world_scheme \<Rightarrow> 'a server_world_scheme \<Rightarrow> bool" where
  "accepted xs w w' \<longleftrightarrow>
     (\<forall>i < length xs. conns w' (fst (new_addrs w ! i)) = Some (nth_conn xs w i)
        \<and> connections w' (conn_key (srv_name w) (nextConnId w + int i)) = Some (fst (new_addrs w ! i)))
   \<and> (\<forall>nm. (\<forall>i < length xs. nm \<noteq> conn_key (srv_name w) (nextConnId w + int i)) \<longrightarrow> connections w' nm = connections w nm)
   \<and> (\<forall>b. (\<forall>i < length xs. b \<noteq> fst (new_addrs w ! i)) \<longrightarrow> conns w' b = conns w b)
   \<and> (\<forall>k. k \<noteq> self w \<longrightarrow> m_pending (parked w' k) = m_pending (parked w k)
        @ concat (map (\<lambda>i. if k = nth_loop w i then [ConnectEstablished (fst (new_addrs w ! i))] else []) [0..<length xs]))"

definition accepted_one :: "int \<times> sockaddr_in \<Rightarrow> 'a server_world_scheme \<Rightarrow> 'a server_world_scheme \<Rightarrow> bool" where
  "accepted_one x w w' \<longleftrightarrow> (let a = fst (hd (new_addrs w)) in
     connections w' = (connections w)(conn_key (srv_name w) (nextConnId w) \<mapsto> a)
   \<and> conns w' = (conns w)(a \<mapsto> nth_conn [x] w 0)
   \<and> new_addrs w' = tl (new_addrs w) \<and> nextConnId w' = nextConnId w + 1 \<and> loops w' = loops w \<and> self w' = self w
   \<and> next_loop w' = (next_loop w + 1) mod length (loops w)
   \<and> (\<forall>k. k \<noteq> self w \<longrightarrow> m_pending (parked w' k)
        = m_pending (parked w k) @ (if k = nth_loop w 0 then [ConnectEstablished a] else []))
   \<and> srv_name w' = srv_name w \<and> sock_names w' = sock_names w \<and> srv_connectionCallback w' = srv_connectionCallback w
   \<and> srv_messageCallback w' = srv_messageCallback w \<and> srv_writeCompleteCallback w' = srv_writeCompleteCallback w)"

lemma accept_first:
  assumes acc: "accepting w" and id: "nextConnId w < 2 ^ 31 - 1" and new: "new_addrs w \<noteq> []"
  shows "\<exists>w1. newConnection ctl app n peer w = Inr w1 \<and> accepting w1 \<and> accepted_one (n, peer) w w1"
proof -
  obtain a ca rest where n: "new_addrs w = (a, ca) # rest" using new by (cases "new_addrs w") auto
  have "nth_loop w 0 = loops w ! next_loop w" using acc by (simp add: nth_loop_def accepting_def)
  then show ?thesis
    using newConnection_pool[OF acc id n, of ctl app n peer] by (simp add: accepted_one_def Let_def n nth_conn_def)
qed

lemma accepted_shift:
  assumes "accepted_one x w w1" "new_addrs w \<noteq> []"
  shows "nth_loop w1 i = nth_loop w (Suc i)" "nth_conn xs w1 i = nth_conn (x # xs) w (Suc i)"
    "conn_key (srv_name w1) (nextConnId w1 + int i) = conn_key (srv_name w) (nextConnId w + int (Suc i))"
    "new_addrs w1 ! i = new_addrs w ! Suc i"
proof -
  show loop: "nth_loop w1 i = nth_loop w (Suc i)"
    using assms(1) mod_add_left_eq[of "Suc (next_loop w)" "length (loops w)" i]
    by (simp add: accepted_one_def Let_def nth_loop_def)
  show addr: "new_addrs w1 ! i = new_addrs w ! Suc i"
    using assms by (cases "new_addrs w") (simp_all add: accepted_one_def Let_def)
  show "conn_key (srv_name w1) (nextConnId w1 + int i) = conn_key (srv_name w) (nextConnId w + int (Suc i))"
    using assms by (simp add: accepted_one_def Let_def add.assoc)
  show "nth_conn xs w1 i = nth_conn (x # xs) w (Suc i)"
    using assms loop addr by (simp add: accepted_one_def Let_def nth_conn_def server_conn_def add.assoc)
qed

lemma accepted_Cons:
  assumes acc: "accepting w" and one: "accepted_one x w w1" and rest: "accepted xs w1 w'"
    and len: "length (x # xs) \<le> length (new_addrs w)" and id: "nextConnId w + int (length (x # xs)) < 2 ^ 31"
  shows "accepted (x # xs) w w'"
proof -
  let ?a = "fst (new_addrs w ! 0)" and ?key = "\<lambda>i. conn_key (srv_name w) (nextConnId w + int i)"
  have ne: "new_addrs w \<noteq> []" using len by auto
  note shift = accepted_shift[OF one ne]
  have one': "connections w1 = (connections w)(?key 0 \<mapsto> ?a)" "conns w1 = (conns w)(?a \<mapsto> nth_conn (x # xs) w 0)"
    "self w1 = self w" "\<And>k. k \<noteq> self w \<Longrightarrow> m_pending (parked w1 k)
        = m_pending (parked w k) @ (if k = nth_loop w 0 then [ConnectEstablished ?a] else [])"
    using one ne by (simp_all add: accepted_one_def Let_def hd_conv_nth nth_conn_def)
  have apart: "?key 0 \<noteq> ?key (Suc i)" if "i < length xs" for i
    using conn_key_inj[of "nextConnId w" "nextConnId w + int (Suc i)" "srv_name w"] acc id that
    by (auto simp: accepting_def)
  have aparta: "?a \<noteq> fst (new_addrs w ! Suc i)" if "i < length xs" for i
    using acc len that ne nth_eq_iff_index_eq[of "map fst (new_addrs w)" 0 "Suc i"] by (simp add: accepting_def)
  note rest' = rest[unfolded accepted_def shift one'(3)]
  have here: "conns w' ?a = Some (nth_conn (x # xs) w 0)" "connections w' (?key 0) = Some ?a"
    using rest' aparta apart one'(1,2) by auto
  have pend: "concat (map (\<lambda>i. if k = nth_loop w (Suc i) then [ConnectEstablished (fst (new_addrs w ! Suc i))] else []) [0..<length xs])
      = concat (map (\<lambda>i. if k = nth_loop w i then [ConnectEstablished (fst (new_addrs w ! i))] else []) [Suc 0..<Suc (length xs)])" for k
    by (simp add: map_Suc_upt[symmetric] comp_def del: upt_Suc)
  have pend0: "[0..<length (x # xs)] = 0 # [Suc 0..<Suc (length xs)]" by (simp add: upt_conv_Cons del: upt_Suc)
  show ?thesis
    unfolding accepted_def pend0 unfolding length_Cons All_less_Suc2
    using rest' here one' pend by simp
qed

lemma accept_all:
  "accepting w \<Longrightarrow> length xs \<le> length (new_addrs w) \<Longrightarrow> nextConnId w + int (length xs) < 2 ^ 31 \<Longrightarrow>
    \<exists>w'. for_each (\<lambda>(n, peer). newConnection ctl app n peer) xs w = Inr w' \<and> accepted xs w w'"
proof (induction xs arbitrary: w)
  case Nil
  then show ?case by (simp add: accepted_def)
next
  case (Cons x xs)
  obtain n peer where x: "x = (n, peer)" by (cases x)
  have "nextConnId w < 2 ^ 31 - 1" "new_addrs w \<noteq> []" using Cons.prems(2,3) by auto
  from accept_first[OF Cons.prems(1) this, of ctl app n peer] obtain w1 where
    w1: "newConnection ctl app n peer w = Inr w1" "accepting w1" "accepted_one x w w1" by (auto simp: x)
  have "length xs \<le> length (new_addrs w1)" "nextConnId w1 + int (length xs) < 2 ^ 31"
    using Cons.prems(2,3) w1(3) by (simp_all add: accepted_one_def Let_def)
  from Cons.IH[OF w1(2) this] obtain w' where
    "for_each (\<lambda>(n, peer). newConnection ctl app n peer) xs w1 = Inr w'" "accepted xs w1 w'" by blast
  then show ?case using accepted_Cons[OF Cons.prems(1) w1(3)] Cons.prems w1(1) by (auto simp: x)
qed

text \<open>C7: Connections are spread over the loops of the pool in turn. Accepting any sequence of
  descriptors files each connection in the map under a name of its own (the name of the
  server, \<open>#\<close> and the running number), with the descriptor, peer and callbacks it was given,
  assigns the \<open>i\<close>-th to the loop \<open>i\<close> places after the current one, cyclically, and queues its
  \<open>connectEstablished\<close> in that loop, in the order of arrival; no other entry of the map changes.\<close>

theorem accept_round_robin:
  assumes "accepting w" "length xs \<le> length (new_addrs w)" "nextConnId w + int (length xs) < 2 ^ 31"
  shows "\<exists>w'. for_each (\<lambda>(n, peer). newConnection ctl app n peer) xs w = Inr w'
    \<and> (\<forall>i < length xs. conns w' (fst (new_addrs w ! i)) = Some (nth_conn xs w i)
          \<and> connections w' (conn_key (srv_name w) (nextConnId w + int i)) = Some (fst (new_addrs w ! i)))
    \<and> (\<forall>nm. (\<forall>i < length xs. nm \<noteq> conn_key (srv_name w) (nextConnId w + int i)) \<longrightarrow>
          connections w' nm = connections w nm)
    \<and> (\<forall>b. (\<forall>i < length xs. b \<noteq> fst (new_addrs w ! i)) \<longrightarrow> conns w' b = conns w b)
    \<and> (\<forall>k. k \<noteq> self w \<longrightarrow> m_pending (parked w' k) = m_pending (parked w k)
          @ concat (map (\<lambda>i. if k = nth_loop w i then [ConnectEstablished (fst (new_addrs w ! i))] else [])
              [0..<length xs]))"
  using accept_all[OF assms, of ctl app] by (simp only: accepted_def)

section \<open>Closing connections\<close>

lemma asked_conn: "conn_ok a c ch w \<Longrightarrow> asked_events w (sock c) = events ch"
  using event_poller.asked_ok[OF epoll_event_poller[OF linux_ctl_documented], of w "sock c"]
  by (simp add: conn_ok_def)

text \<open>A change of the events of a connection, with everything it leaves alone.\<close>

lemma conn_change_frame:
  assumes doc: "epoll_documented ctl" and ok: "conn_ok a c ch w"
  shows "\<exists>h k i. change_events l (loop_updateChannel ctl True) f (chan_of c) w
      = Inr (w\<lparr>chans := h, channels := channels w, kernel := k\<rparr>)
    \<and> h = (chans w)(chan_of c \<mapsto> ch\<lparr>events := f (events ch), index := i\<rparr>)
    \<and> conn_ok a c (ch\<lparr>events := f (events ch), index := i\<rparr>) (w\<lparr>chans := h, channels := channels w, kernel := k\<rparr>)"
proof -
  note D = conn_okD[OF ok]
  obtain w' i where w': "change_events l (loop_updateChannel ctl True) f (chan_of c) w = Inr w'"
    "ep_ok w'" "channels w' = (channels w)(fd ch \<mapsto> chan_of c)"
    "chans w' = (chans w)(chan_of c \<mapsto> ch\<lparr>events := f (events ch), index := i\<rparr>)"
    "w' = w\<lparr>chans := chans w', channels := channels w', kernel := kernel w'\<rparr>"
    using loop_change_ok[OF doc D(1,3) _ D(5), of l f] D(4,6) by auto
  have same: "channels w' = channels w" using w'(3) D(4,6) by (simp add: fun_upd_idem)
  have eq: "w' = w\<lparr>chans := chans w', channels := channels w, kernel := kernel w'\<rparr>"
    using w'(5) unfolding same .
  let ?w = "w\<lparr>chans := chans w', channels := channels w, kernel := kernel w'\<rparr>"
  have "ep_ok ?w" using w'(2) unfolding eq[symmetric] .
  then have "conn_ok a c (ch\<lparr>events := f (events ch), index := i\<rparr>) ?w"
    using w'(4) D by (simp add: conn_ok_def)
  then show ?thesis using w'(1,4) eq by (intro exI[of _ "chans w'"] exI[of _ "kernel w'"] exI[of _ i]) simp
qed

lemma readFd_eof: "buffer_inv b \<Longrightarrow> readFd (Inr []) b = Inr (0, None, b)"
  by (simp add: readFd_def copy_to_def buffer_inv_def mem_write_def vector_max_def size_max_def)

text \<open>What \<open>handleClose\<close> and a read at the end of the stream do before they call the owner.\<close>

lemma handleClose_owner:
  assumes doc: "epoll_documented ctl" and ok: "conn_ok a c ch w"
    and st: "conn_state c = KConnected \<or> conn_state c = KDisconnecting" and cb: "conn_closeCallback c = Some f"
  shows "\<exists>h k i. h = (chans w)(chan_of c \<mapsto> ch\<lparr>events := kNoneEvent, index := i\<rparr>)
    \<and> conn_ok a c (ch\<lparr>events := kNoneEvent, index := i\<rparr>) (w\<lparr>chans := h, channels := channels w, kernel := k\<rparr>)
    \<and> handleClose ctl usr True a w = usr (OnClose f a) (w\<lparr>chans := h, channels := channels w, kernel := k\<rparr>)"
proof -
  from conn_change_frame[OF doc ok, of 87 "\<lambda>e. kNoneEvent"] obtain h k i where
    "disableAll (loop_updateChannel ctl True) (chan_of c) w
      = Inr (w\<lparr>chans := h, channels := channels w, kernel := k\<rparr>)"
    "h = (chans w)(chan_of c \<mapsto> ch\<lparr>events := kNoneEvent, index := i\<rparr>)"
    "conn_ok a c (ch\<lparr>events := kNoneEvent, index := i\<rparr>) (w\<lparr>chans := h, channels := channels w, kernel := k\<rparr>)"
    unfolding disableAll_def by blast
  with st cb conn_okD(2)[OF ok] show ?thesis
    by (intro exI[of _ h] exI[of _ k] exI[of _ i]) (simp add: handleClose_def call_user_def)
qed

lemma handleRead_eof:
  assumes ok: "conn_ok a c ch w" and eof: "read_answers w = Inr [] # rest" and inp: "buffer_inv (inputBuffer c)"
  shows "handleRead ctl usr True t a w = handleClose ctl usr True a (w\<lparr>read_answers := rest\<rparr>)"
proof -
  have "put_conn a (c\<lparr>inputBuffer := inputBuffer c\<rparr>) (w\<lparr>read_answers := rest\<rparr>) = w\<lparr>read_answers := rest\<rparr>"
    using conn_okD(2)[OF ok] by (simp add: put_conn_def fun_upd_idem)
  then show ?thesis
    using conn_okD[OF ok] eof
    by (simp add: handleRead_def sys_readv_def readFd_eof[OF inp])
qed

lemma conn_ok_cong:
  assumes "chans v = chans w" "channels v = channels w" "kernel v = kernel w" "self v = self w"
    "conns v a = conns w a"
  shows "conn_ok a c ch v = conn_ok a c ch w"
  using assms by (simp add: conn_ok_def ep_ok_cong[of v w])

lemma destroy_ok:
  assumes doc: "epoll_documented ctl" and ok: "conn_ok a c ch w"
    and st: "conn_state c = KConnected \<or> conn_state c = KDisconnecting" and cb: "connectionCallback c = Some g"
    and app: "\<And>v. \<exists>v'. usr (OnConnection g a) v = Inr v' \<and> same_conns v v'"
  shows "\<exists>w'. connectDestroyed ctl usr True a w = Inr w' \<and> st_of w' a = Some KDisconnected
    \<and> channels w' = (channels w)(sock c := None) \<and> ep_ok w' \<and> asked_events w' (sock c) = kNoneEvent"
proof -
  let ?c = "setState KDisconnected c"
  let ?w = "put_conn a ?c w"
  have ok1: "conn_ok a ?c ch ?w" using ok by (simp add: conn_ok_def setState_def)
  have cc: "chan_of ?c = chan_of c" "sock ?c = sock c" by (simp_all add: setState_def)
  from conn_change_frame[OF doc ok1, of 87 "\<lambda>e. kNoneEvent"] obtain h k i where
    u: "disableAll (loop_updateChannel ctl True) (chan_of c) ?w
      = Inr (?w\<lparr>chans := h, channels := channels w, kernel := k\<rparr>)"
    and oku: "conn_ok a ?c (ch\<lparr>events := kNoneEvent, index := i\<rparr>)
      (?w\<lparr>chans := h, channels := channels w, kernel := k\<rparr>)"
    unfolding disableAll_def cc by auto
  let ?u = "?w\<lparr>chans := h, channels := channels w, kernel := k\<rparr>"
  obtain v where v: "usr (OnConnection g a) ?u = Inr v" "same_conns ?u v" using app by blast
  note okv = conn_ok_same[OF oku v(2)]
  note D = conn_okD[OF okv]
  obtain w' where w': "loop_removeChannel ctl True (chan_of c) v = Inr w'" "ep_ok w'"
    "channels w' = (channels v)(sock c := None)"
    using loop_remove_ok[OF doc D(1), of "chan_of c" "ch\<lparr>events := kNoneEvent, index := i\<rparr>"] D cc by auto
  have vch: "channels v = channels w" using v(2) by (simp add: same_conns_def)
  have "connectDestroyed ctl usr True a w = Inr w'"
    using conn_okD(2)[OF ok] st cb u v(1) w'(1) by (simp add: connectDestroyed_def call_user_def)
  moreover have "st_of w' a = Some KDisconnected"
    using loop_remove_conns[OF w'(1)] D(2) by (simp add: st_of_def setState_def)
  moreover have "asked_events w' (sock c) = kNoneEvent"
    using event_poller.asked_ok[OF epoll_event_poller[OF doc] w'(2), of "sock c"] w'(3) by simp
  ultimately show ?thesis using w'(2,3) vch by auto
qed

lemma removeConnectionInLoop_run:
  assumes "self w = srv_loop w" "conns w a = Some c" "connections w (conn_name c) = Some a"
  shows "removeConnectionInLoop a w = Inr (post (conn_loop c) (ConnectDestroyed a)
    (w\<lparr>connections := (connections w)(conn_name c := None)\<rparr>))"
  using assms by (simp add: removeConnectionInLoop_def Let_def)

lemma queueInLoop_pending [simp]: "pendingFunctors (queueInLoop inl t w) = pendingFunctors w @ [t]"
  by (simp add: queueInLoop_def push_pending_def wakeup_def Let_def)

lemma conn_ok_queue [simp]: "conn_ok a c ch (queueInLoop True t w) = conn_ok a c ch w"
  using queueInLoop_same(1)[of w] by (intro conn_ok_cong) (simp_all add: same_conns_def)

lemma switch_post:
  assumes "l \<noteq> self v"
  shows "pendingFunctors (switch l (post l t v)) = m_pending (parked v l) @ [t]"
    "channels (switch l (post l t v)) = m_channels (parked v l)"
    "kernel (switch l (post l t v)) = m_kernel (parked v l)"
  using assms by (simp_all add: switch_def post_other)

text \<open>The way of a removal from an I/O loop to the loop of the server and back.\<close>

lemma remote_removal:
  assumes away: "self w \<noteq> srv_loop w" and c: "conns w a = Some c" "conn_loop c = self w"
    and map: "connections w (conn_name c) = Some a"
  defines "w1 \<equiv> post (srv_loop w) (RemoveConnectionInLoop a) w"
  shows "removeConnection a w = Inr w1"
    "pendingFunctors (switch (srv_loop w) w1)
      = pendingFunctors (switch (srv_loop w) w) @ [RemoveConnectionInLoop a]"
    "\<exists>w2. removeConnectionInLoop a (switch (srv_loop w) w1) = Inr w2
      \<and> connections w2 = (connections w)(conn_name c := None)
      \<and> pendingFunctors (switch (self w) w2) = pendingFunctors w @ [ConnectDestroyed a]
      \<and> channels (switch (self w) w2) = channels w \<and> kernel (switch (self w) w2) = kernel w
      \<and> conns w2 = conns w \<and> chans w2 = chans w"
proof -
  have ne: "srv_loop w \<noteq> self w" using away by simp
  show "removeConnection a w = Inr w1" using away by (simp add: removeConnection_def w1_def)
  show "pendingFunctors (switch (srv_loop w) w1)
      = pendingFunctors (switch (srv_loop w) w) @ [RemoveConnectionInLoop a]"
    using ne by (simp add: w1_def post_other switch_def)
  let ?v = "switch (srv_loop w) w1"
  have p: "parked ?v (self w) = park w" using ne by (simp add: w1_def post_other switch_def park_def)
  have v: "self ?v = srv_loop ?v" "conns ?v = conns w" "chans ?v = chans w" "connections ?v = connections w"
    by (simp_all add: w1_def)
  show "\<exists>w2. removeConnectionInLoop a ?v = Inr w2
      \<and> connections w2 = (connections w)(conn_name c := None)
      \<and> pendingFunctors (switch (self w) w2) = pendingFunctors w @ [ConnectDestroyed a]
      \<and> channels (switch (self w) w2) = channels w \<and> kernel (switch (self w) w2) = kernel w
      \<and> conns w2 = conns w \<and> chans w2 = chans w"
  proof -
    let ?u = "?v\<lparr>connections := (connections w)(conn_name c := None)\<rparr>"
    let ?w2 = "post (self w) (ConnectDestroyed a) ?u"
    have "removeConnectionInLoop a ?v = Inr ?w2"
      using removeConnectionInLoop_run[OF v(1), of a c] c map v by simp
    moreover have "self w \<noteq> self ?u" "parked ?u (self w) = park w" using ne p by simp_all
    ultimately show ?thesis
      using switch_post[of "self w" ?u "ConnectDestroyed a"] v
      by (intro exI[of _ ?w2]) (simp add: park_def)
  qed
qed

section \<open>Properties\<close>

text \<open>The steps of a close: the end of the input removes the connection, at once when the loop is that of the
  server, or there later; then the connection is destroyed.\<close>

lemma eof_removes:
  fixes w :: "'a server_world_scheme"
  assumes doc: "epoll_documented ctl" and ok: "conn_ok a c ch w"
    and st: "conn_state c = KConnected \<or> conn_state c = KDisconnecting" and cb: "conn_closeCallback c = Some f"
    and eof: "read_answers w = Inr [] # rest" and inp: "buffer_inv (inputBuffer c)"
  shows "\<exists>v ch'. handleRead ctl (server_usr app) True t a w = removeConnection a v \<and> conn_ok a c ch' v
    \<and> self v = self w \<and> srv_loop v = srv_loop w \<and> connections v = connections w \<and> pendingFunctors v = pendingFunctors w
    \<and> channels v = channels w \<and> parked v = parked w
    \<and> (\<forall>u :: 'a server_world_scheme. kernel u = kernel v \<longrightarrow> asked_events u (sock c) = kNoneEvent)"
proof -
  let ?r = "w\<lparr>read_answers := rest\<rparr>"
  have okr: "conn_ok a c ch ?r" using ok by (subst conn_ok_cong[of _ w]) simp_all
  from handleClose_owner[OF doc okr st cb, of "server_usr app"] obtain h k i where
    okv: "conn_ok a c (ch\<lparr>events := kNoneEvent, index := i\<rparr>) (?r\<lparr>chans := h, channels := channels w, kernel := k\<rparr>)"
    and run: "handleClose ctl (server_usr app) True a ?r
      = server_usr app (OnClose f a) (?r\<lparr>chans := h, channels := channels w, kernel := k\<rparr>)"
    by auto
  let ?v = "?r\<lparr>chans := h, channels := channels w, kernel := k\<rparr>"
  have "handleRead ctl (server_usr app) True t a w = removeConnection a ?v"
    using handleRead_eof[OF ok eof inp] run by (simp add: server_usr_def)
  moreover have "asked_events u (sock c) = kNoneEvent" if "kernel u = kernel ?v" for u :: "'a server_world_scheme"
    using asked_conn[OF okv] that by (simp add: asked_events_def)
  ultimately show ?thesis
    using okv by (intro exI[of _ ?v] exI[of _ "ch\<lparr>events := kNoneEvent, index := i\<rparr>"]) simp
qed

lemma removal_at_server:
  assumes ok: "conn_ok a c ch v" and own: "self v = srv_loop v" "conn_loop c = self v"
    and map: "connections v (conn_name c) = Some a"
  shows "\<exists>w1. removeConnection a v = Inr w1 \<and> conn_ok a c ch w1 \<and> connections w1 = (connections v)(conn_name c := None)
    \<and> pendingFunctors w1 = pendingFunctors v @ [ConnectDestroyed a] \<and> channels w1 = channels v \<and> kernel w1 = kernel v
    \<and> switch (self v) w1 = w1"
proof -
  let ?m = "v\<lparr>connections := (connections v)(conn_name c := None)\<rparr>"
  let ?w1 = "queueInLoop True (ConnectDestroyed a) ?m"
  have fr: "same_conns ?m ?w1" by simp
  have "removeConnection a v = Inr ?w1"
    using removeConnectionInLoop_run[of v a c] conn_okD(2)[OF ok] map own by (simp add: removeConnection_def post_self)
  moreover have "conn_ok a c ch ?w1" using ok conn_ok_cong[of ?m v a c ch] by simp
  moreover have "channels ?w1 = channels v" "self ?w1 = self v" "kernel ?w1 = kernel v" using fr by (simp_all add: same_conns_def)
  moreover have "connections ?w1 = (connections v)(conn_name c := None)" "pendingFunctors ?w1 = pendingFunctors v @ [ConnectDestroyed a]"
    by (simp_all add: queueInLoop_def push_pending_def wakeup_def Let_def)
  moreover have "switch (self v) ?w1 = ?w1" using calculation(4) by (metis switch_self)
  ultimately show ?thesis by blast
qed

lemma removal_elsewhere:
  fixes v :: "'a server_world_scheme"
  assumes ok: "conn_ok a c ch v" and own: "self v \<noteq> srv_loop v" "conn_loop c = self v"
    and map: "connections v (conn_name c) = Some a"
  shows "\<exists>w1 w2. removeConnection a v = Inr w1 \<and> kernel w1 = kernel v
    \<and> pendingFunctors (switch (srv_loop v) w1) = pendingFunctors (switch (srv_loop v) v) @ [RemoveConnectionInLoop a]
    \<and> server_call ctl app other (RemoveConnectionInLoop a) (switch (srv_loop v) w1) = Inr w2
    \<and> connections w2 = (connections v)(conn_name c := None)
    \<and> pendingFunctors (switch (self v) w2) = pendingFunctors v @ [ConnectDestroyed a]
    \<and> conn_ok a c ch (switch (self v) w2) \<and> channels (switch (self v) w2) = channels v"
proof -
  let ?w1 = "post (srv_loop v) (RemoveConnectionInLoop a) v"
  note R = remote_removal[OF own(1) conn_okD(2)[OF ok] own(2) map]
  from R(3) obtain w2 where w2: "removeConnectionInLoop a (switch (srv_loop v) ?w1) = Inr w2"
    "connections w2 = (connections v)(conn_name c := None)"
    "pendingFunctors (switch (self v) w2) = pendingFunctors v @ [ConnectDestroyed a]"
    "channels (switch (self v) w2) = channels v" "kernel (switch (self v) w2) = kernel v"
    "conns w2 = conns v" "chans w2 = chans v" by blast
  have "conn_ok a c ch (switch (self v) w2)" using ok w2 by (subst conn_ok_cong[of _ v]) simp_all
  then show ?thesis using R(1,2) w2 by (auto simp: server_call_def)
qed

lemma removed_is_destroyed:
  assumes doc: "epoll_documented ctl" and ok: "conn_ok a c ch u"
    and st: "conn_state c = KConnected \<or> conn_state c = KDisconnecting" and cb: "connectionCallback c = Some g"
    and app: "\<And>v. \<exists>v'. app (OnConnection g a) v = Inr v' \<and> same_conns v v'"
  shows "\<exists>w3. server_call ctl app other (ConnectDestroyed a) u = Inr w3 \<and> st_of w3 a = Some KDisconnected
    \<and> channels w3 = (channels u)(sock c := None) \<and> asked_events w3 (sock c) = kNoneEvent"
proof -
  have "\<exists>v'. server_usr app (OnConnection g a) x = Inr v' \<and> same_conns x v'" for x using app by (simp add: server_usr_def)
  then show ?thesis using destroy_ok[OF doc ok st cb, of "server_usr app"] by (auto simp: server_call_def)
qed

text \<open>C6: The orderly end of a connection of the server. When the peer has closed, the read handler
  stops watching the descriptor; the entry of the map is erased in the loop of the server,
  directly or through a queued functor when the connection lives in another loop; then
  \<open>connectDestroyed\<close> is queued in the loop of the connection, and run there it passes every
  assertion, leaves the connection \<open>kDisconnected\<close> and takes the descriptor out of the poller.\<close>

theorem orderly_close:
  fixes w :: "'a server_world_scheme"
  assumes doc: "epoll_documented ctl" and ok: "conn_ok a c ch w"
    and st: "conn_state c = KConnected \<or> conn_state c = KDisconnecting"
    and cb: "conn_closeCallback c = Some f" "connectionCallback c = Some g"
    and own: "conn_loop c = self w" and map: "connections w (conn_name c) = Some a"
    and eof: "read_answers w = Inr [] # rest" and inp: "buffer_inv (inputBuffer c)"
    and app: "\<And>v. \<exists>v'. app (OnConnection g a) v = Inr v' \<and> same_conns v v'"
  shows "\<exists>w1 w2 w3. handleRead ctl (server_usr app) True t a w = Inr w1
    \<and> asked_events w1 (sock c) = kNoneEvent
    \<and> (if self w = srv_loop w then w2 = w1
       else pendingFunctors (switch (srv_loop w) w1)
              = pendingFunctors (switch (srv_loop w) w) @ [RemoveConnectionInLoop a]
            \<and> server_call ctl app other (RemoveConnectionInLoop a) (switch (srv_loop w) w1) = Inr w2)
    \<and> connections w2 = (connections w)(conn_name c := None)
    \<and> pendingFunctors (switch (self w) w2) = pendingFunctors w @ [ConnectDestroyed a]
    \<and> server_call ctl app other (ConnectDestroyed a) (switch (self w) w2) = Inr w3
    \<and> st_of w3 a = Some KDisconnected \<and> channels w3 = (channels w)(sock c := None)
    \<and> asked_events w3 (sock c) = kNoneEvent"
proof -
  from eof_removes[OF doc ok st cb(1) eof inp, of app t] obtain v ch' where
    rd: "handleRead ctl (server_usr app) True t a w = removeConnection a v" and okv: "conn_ok a c ch' v"
    and v: "self v = self w" "srv_loop v = srv_loop w" "connections v = connections w" "pendingFunctors v = pendingFunctors w"
      "channels v = channels w" "parked v = parked w"
    and none: "\<And>u :: 'a server_world_scheme. kernel u = kernel v \<Longrightarrow> asked_events u (sock c) = kNoneEvent"
    by blast
  have map': "connections v (conn_name c) = Some a" and own': "conn_loop c = self v" using map own v by simp_all
  have fin: "\<exists>w3. server_call ctl app other (ConnectDestroyed a) u = Inr w3 \<and> st_of w3 a = Some KDisconnected
    \<and> channels w3 = (channels u)(sock c := None) \<and> asked_events w3 (sock c) = kNoneEvent" if "conn_ok a c ch' u" for u
    by (rule removed_is_destroyed[OF doc that st cb(2)]) (rule app)
  show ?thesis
  proof (cases "self w = srv_loop w")
    case True
    then have "self v = srv_loop v" using v by simp
    from removal_at_server[OF okv this own' map'] obtain w1 where w1: "removeConnection a v = Inr w1" "conn_ok a c ch' w1"
      "connections w1 = (connections w)(conn_name c := None)" "pendingFunctors w1 = pendingFunctors w @ [ConnectDestroyed a]"
      "channels w1 = channels w" "kernel w1 = kernel v" "switch (self w) w1 = w1"
      unfolding v by blast
    then show ?thesis using True rd fin[OF w1(2)] none[OF w1(6)] by auto
  next
    case False
    then have "self v \<noteq> srv_loop v" using v by simp
    from removal_elsewhere[OF okv this own' map', of ctl app other] obtain w1 w2 where w12:
      "removeConnection a v = Inr w1" "kernel w1 = kernel v"
      "pendingFunctors (switch (srv_loop w) w1) = pendingFunctors (switch (srv_loop w) v) @ [RemoveConnectionInLoop a]"
      "server_call ctl app other (RemoveConnectionInLoop a) (switch (srv_loop w) w1) = Inr w2"
      "connections w2 = (connections w)(conn_name c := None)"
      "pendingFunctors (switch (self w) w2) = pendingFunctors w @ [ConnectDestroyed a]"
      "conn_ok a c ch' (switch (self w) w2)" "channels (switch (self w) w2) = channels w"
      unfolding v by blast
    have "pendingFunctors (switch (srv_loop w) v) = pendingFunctors (switch (srv_loop w) w)"
      using False v by (simp add: switch_def)
    then show ?thesis using False rd w12 fin[OF w12(7)] none[OF w12(2)] by auto
  qed
qed

lemma removeConnection_here:
  assumes "self w = srv_loop w" "conns w a = Some c" "connections w (conn_name c) = Some a" "conn_loop c = self w"
  shows "removeConnection a w = Inr (queueInLoop True (ConnectDestroyed a)
    (w\<lparr>connections := (connections w)(conn_name c := None)\<rparr>))"
  using removeConnectionInLoop_run[OF assms(1-3)] assms(1,4)
  by (simp add: removeConnection_def post_self)

lemma removeConnectionInLoop_gone:
  assumes "self w = srv_loop w" "conns w a = Some c" "connections w (conn_name c) = None"
  shows "removeConnectionInLoop a w = Inl (Assertion 97)"
  using assms by (simp add: removeConnectionInLoop_def Let_def)

lemma ep_ok_put_chan:
  assumes ok: "ep_ok w" and ch: "chans w x = Some ch"
    and same: "fd d = fd ch" "index d = index ch" "events d = events ch"
  shows "ep_ok (put_chan x d w)"
  unfolding ep_ok_def
proof (intro conjI allI impI)
  fix n y assume "channels (put_chan x d w) n = Some y"
  then have "channels w n = Some y" by (simp add: put_chan_def)
  from ep_okD(1)[OF ok this] show "\<exists>c. chans (put_chan x d w) y = Some c \<and> fd c = n
        \<and> (index c = kAdded \<and> kernel (put_chan x d w) n = Some (events c, y)
           \<or> index c = kDeleted \<and> events c = kNoneEvent \<and> kernel (put_chan x d w) n = None)"
    using ch same by (cases "y = x") (simp_all add: put_chan_def)
next
  fix n assume "channels (put_chan x d w) n = None"
  then show "kernel (put_chan x d w) n = None" using ep_okD(2)[OF ok] by (simp add: put_chan_def)
next
  fix y c assume "chans (put_chan x d w) y = Some c" "channels (put_chan x d w) (fd c) \<noteq> Some y"
  then show "index c = kNew"
    using ep_okD(3)[OF ok] ch same by (cases "y = x") (auto simp: put_chan_def)
qed

lemma conn_ok_handling:
  assumes "conn_ok a c ch w"
  shows "conn_ok a c (ch\<lparr>eventHandling := b\<rparr>) (put_chan (chan_of c) (ch\<lparr>eventHandling := b\<rparr>) w)"
  using assms ep_ok_put_chan[of w "chan_of c" ch "ch\<lparr>eventHandling := b\<rparr>"]
  by (simp add: conn_ok_def) (simp add: put_chan_def)

lemma queueInLoop_server [simp]:
  "read_answers (queueInLoop inl t w) = read_answers w" "srv_loop (queueInLoop inl t w) = srv_loop w"
  "connections (queueInLoop inl t w) = connections w" "self (queueInLoop inl t w) = self w"
  "chans (queueInLoop inl t w) = chans w"
  by (simp_all add: queueInLoop_def push_pending_def wakeup_def Let_def)

text \<open>C27: A hang-up without readable data closes a connection twice. \<open>handleEvent\<close> calls the close
  callback for \<open>POLLHUP\<close> without \<open>POLLIN\<close>, and then the read callback too, since \<open>POLLHUP\<close> is in
  its mask; \<open>handleClose\<close> has left the state alone, so the read of the end of the stream closes
  again, and the server, finding no entry in its map, fails its assertion.\<close>

theorem hangup_closes_twice:
  fixes w :: "'a server_world_scheme"
  assumes doc: "epoll_documented ctl" and ok: "conn_ok a c ch w"
    and st: "conn_state c = KConnected \<or> conn_state c = KDisconnecting" and cb: "conn_closeCallback c = Some f"
    and own: "conn_loop c = self w" "self w = srv_loop w" and map: "connections w (conn_name c) = Some a"
    and ch: "closeCallback ch = Some (ConnClose a)" "readCallback ch = Some (ConnRead a)" "revents ch = POLLHUP"
    and eof: "read_answers w = Inr [] # rest" and inp: "buffer_inv (inputBuffer c)"
  shows "handleEvent (server_call ctl app other) (server_callr ctl app other) t (chan_of c) w
    = Inl (Assertion 97)"
proof -
  let ?ch = "ch\<lparr>eventHandling := True\<rparr>"
  let ?w0 = "put_chan (chan_of c) ?ch w"
  have bits: "wants_close POLLHUP" "\<not> wants_error POLLHUP" "wants_read POLLHUP"
    by (simp_all add: wants_close_def wants_error_def wants_read_def has_def poll_bits)
  have fr0: "self ?w0 = self w" "srv_loop ?w0 = srv_loop w" "connections ?w0 = connections w"
    "read_answers ?w0 = read_answers w" by (simp_all add: put_chan_def)
  from handleClose_owner[OF doc conn_ok_handling[OF ok, of True] st cb, of "server_usr app"] obtain h k i where
    h: "h = (chans ?w0)(chan_of c \<mapsto> ?ch\<lparr>events := kNoneEvent, index := i\<rparr>)"
    and ok1: "conn_ok a c (?ch\<lparr>events := kNoneEvent, index := i\<rparr>)
      (?w0\<lparr>chans := h, channels := channels ?w0, kernel := k\<rparr>)"
    and run: "handleClose ctl (server_usr app) True a ?w0
      = server_usr app (OnClose f a) (?w0\<lparr>chans := h, channels := channels ?w0, kernel := k\<rparr>)"
    by blast
  let ?v = "?w0\<lparr>chans := h, channels := channels ?w0, kernel := k\<rparr>"
  have pre: "self ?v = srv_loop ?v" "conns ?v a = Some c" "connections ?v (conn_name c) = Some a"
    "conn_loop c = self ?v"
    using own map conn_okD(2)[OF ok1] fr0 by simp_all
  let ?w1 = "queueInLoop True (ConnectDestroyed a) (?v\<lparr>connections := (connections ?v)(conn_name c := None)\<rparr>)"
  have first: "server_call ctl app other (ConnClose a) ?w0 = Inr ?w1"
    using run removeConnection_here[OF pre] by (simp add: server_call_def server_usr_def)
  have c1: "chans ?w1 (chan_of c) = Some (?ch\<lparr>events := kNoneEvent, index := i\<rparr>)" using h by simp
  have "conn_ok a c (?ch\<lparr>events := kNoneEvent, index := i\<rparr>) ?w1"
    using ok1 conn_ok_cong[of "?v\<lparr>connections := (connections ?v)(conn_name c := None)\<rparr>" ?v a c] by simp
  then have ok2: "conn_ok a c (?ch\<lparr>events := kNoneEvent, index := i\<rparr>) (?w1\<lparr>read_answers := rest\<rparr>)"
    by (subst conn_ok_cong[of _ ?w1]) simp_all
  from handleClose_owner[OF doc ok2 st cb, of "server_usr app"] obtain h' k' where
    run': "handleClose ctl (server_usr app) True a (?w1\<lparr>read_answers := rest\<rparr>)
      = server_usr app (OnClose f a) (?w1\<lparr>read_answers := rest, chans := h',
          channels := channels (?w1\<lparr>read_answers := rest\<rparr>), kernel := k'\<rparr>)" by blast
  let ?u = "?w1\<lparr>read_answers := rest, chans := h', channels := channels (?w1\<lparr>read_answers := rest\<rparr>), kernel := k'\<rparr>"
  have "self ?u = srv_loop ?u" "conns ?u a = Some c" "connections ?u (conn_name c) = None"
    using own conn_okD(2)[OF ok2] fr0 by simp_all
  then have "removeConnection a ?u = Inl (Assertion 97)"
    using removeConnectionInLoop_gone[of ?u a c] by (simp add: removeConnection_def)
  moreover have "conn_ok a c (?ch\<lparr>events := kNoneEvent, index := i\<rparr>) ?w1"
    using ok2 by (subst conn_ok_cong[of _ "?w1\<lparr>read_answers := rest\<rparr>"]) simp_all
  moreover have "read_answers ?w1 = Inr [] # rest" using eof fr0 by simp
  ultimately have second: "server_callr ctl app other t (ConnRead a) ?w1 = Inl (Assertion 97)"
    using run' handleRead_eof[OF _ _ inp, of a _ ?w1 rest] 
    by (simp add: server_callr_def server_usr_def)
  show ?thesis
    using conn_okD(3)[OF ok] ch bits first second c1
    by (simp add: handleEvent_def dispatch_def)
qed

text \<open>A close in the loop of the connection, when the server runs in another.\<close>

lemma close_elsewhere:
  fixes w :: "'a server_world_scheme"
  assumes doc: "epoll_documented ctl" and ok: "conn_ok a c ch w"
    and st: "conn_state c = KConnected \<or> conn_state c = KDisconnecting" and cb: "conn_closeCallback c = Some f"
    and own: "self w \<noteq> srv_loop w"
  shows "\<exists>w1 ch'. handleClose ctl (server_usr app) True a w = Inr w1 \<and> conn_ok a c ch' w1 \<and> events ch' = kNoneEvent
    \<and> self w1 = self w \<and> srv_loop w1 = srv_loop w \<and> connections w1 = connections w \<and> write_answers w1 = write_answers w
    \<and> pendingFunctors (switch (srv_loop w) w1) = pendingFunctors (switch (srv_loop w) w) @ [RemoveConnectionInLoop a]"
proof -
  from handleClose_owner[OF doc ok st cb, of "server_usr app"] obtain h k i where
    ok1: "conn_ok a c (ch\<lparr>events := kNoneEvent, index := i\<rparr>) (w\<lparr>chans := h, channels := channels w, kernel := k\<rparr>)"
    and run: "handleClose ctl (server_usr app) True a w
      = server_usr app (OnClose f a) (w\<lparr>chans := h, channels := channels w, kernel := k\<rparr>)" by blast
  let ?v = "w\<lparr>chans := h, channels := channels w, kernel := k\<rparr>"
  let ?w1 = "post (srv_loop w) (RemoveConnectionInLoop a) ?v"
  have "handleClose ctl (server_usr app) True a w = Inr ?w1"
    using run own by (simp add: server_usr_def removeConnection_def)
  moreover have "conn_ok a c (ch\<lparr>events := kNoneEvent, index := i\<rparr>) ?w1" using ok1 by (subst conn_ok_cong[of _ ?v]) simp_all
  moreover have "pendingFunctors (switch (srv_loop w) ?w1) = pendingFunctors (switch (srv_loop w) w) @ [RemoveConnectionInLoop a]"
    using switch_post(1)[of "srv_loop w" ?v "RemoveConnectionInLoop a"] own by (simp add: switch_def)
  ultimately show ?thesis by (intro exI[of _ ?w1] exI[of _ "ch\<lparr>events := kNoneEvent, index := i\<rparr>"]) simp
qed

text \<open>A \<open>send\<close> that the socket refuses is buffered and asks to be told when it can write, on a channel that had
  been switched off.\<close>

lemma send_switches_on:
  fixes w :: "'a server_world_scheme"
  assumes doc: "epoll_documented ctl" and ok: "conn_ok a c ch w" and off: "events ch = kNoneEvent"
    and st: "conn_state c = KConnected" and out: "content (outputBuffer c) = []" "m \<noteq> []" "length m \<le> room (outputBuffer c)"
    and err: "write_answers w = Inl e # rest"
  shows "\<exists>w2 b ch'. send ctl True m a w = Inr w2 \<and> conn_ok a (c\<lparr>outputBuffer := b\<rparr>) ch' w2 \<and> events ch' = kWriteEvent
    \<and> self w2 = self w \<and> srv_loop w2 = srv_loop w \<and> connections w2 = connections w
    \<and> (\<forall>l. l \<noteq> self w \<longrightarrow> pendingFunctors (switch l w2) = pendingFunctors (switch l w))"
proof -
  let ?u = "w\<lparr>write_answers := rest\<rparr>"
  have oku: "conn_ok a c ch ?u" using ok by (subst conn_ok_cong[of _ w]) simp_all
  obtain b where b: "append m (outputBuffer c) = Inr b" "buffer_inv b"
    using bufq.put_ok[OF conn_okD(7)[OF ok] out(3)] by blast
  let ?c = "c\<lparr>outputBuffer := b\<rparr>"
  have okp: "conn_ok a ?c ch (put_conn a ?c ?u)" by (rule conn_ok_put_out[OF oku b(2)])
  from conn_change_frame[OF doc okp, of 77 "\<lambda>e. e OR kWriteEvent"] obtain h2 k2 i2 where
    en: "enableWriting (loop_updateChannel ctl True) (chan_of c) (put_conn a ?c ?u)
      = Inr ((put_conn a ?c ?u)\<lparr>chans := h2, channels := channels (put_conn a ?c ?u), kernel := k2\<rparr>)"
    and ok2: "conn_ok a ?c (ch\<lparr>events := kNoneEvent OR kWriteEvent, index := i2\<rparr>)
      ((put_conn a ?c ?u)\<lparr>chans := h2, channels := channels (put_conn a ?c ?u), kernel := k2\<rparr>)"
    unfolding enableWriting_def off by auto
  let ?w2 = "(put_conn a ?c ?u)\<lparr>chans := h2, channels := channels (put_conn a ?c ?u), kernel := k2\<rparr>"
  have none: "\<not> isWriting ch" using off by (simp add: isWriting_def has_def kNoneEvent_def)
  have empty: "readableBytes (outputBuffer c) = 0" using readable_content[OF conn_okD(7)[OF ok]] out(1) by simp
  have wr: "sys_write (fd ch) m w = (Inl e, ?u)" using err by (simp add: sys_write_def)
  have "send ctl True m a w = Inr ?w2"
    using conn_okD(2,3)[OF ok] st none empty wr out(2) b(1) en by (simp add: send_def sendInLoop_def buffer_rest_def)
  moreover have "events (ch\<lparr>events := kNoneEvent OR kWriteEvent, index := i2\<rparr>) = kWriteEvent" by (simp add: kNoneEvent_def)
  moreover have "pendingFunctors (switch l ?w2) = pendingFunctors (switch l w)" if "l \<noteq> self w" for l
    using that by (simp add: switch_def put_conn_def)
  ultimately show ?thesis
    using ok2 by (intro exI[of _ ?w2] exI[of _ b] exI[of _ "ch\<lparr>events := kNoneEvent OR kWriteEvent, index := i2\<rparr>"])
      (simp add: put_conn_def)
qed

lemma removed_twice_aborts:
  fixes s :: "'a server_world_scheme"
  assumes "self s = srv_loop s" "conns s a = Some c" "connections s (conn_name c) = Some a"
  shows "for_each (server_call ctl app other) [RemoveConnectionInLoop a, RemoveConnectionInLoop a] s = Inl (Assertion 97)"
proof -
  let ?s1 = "post (conn_loop c) (ConnectDestroyed a) (s\<lparr>connections := (connections s)(conn_name c := None)\<rparr>)"
  have "removeConnectionInLoop a s = Inr ?s1" by (rule removeConnectionInLoop_run[OF assms])
  moreover have "removeConnectionInLoop a ?s1 = Inl (Assertion 97)"
    using assms by (intro removeConnectionInLoop_gone[of _ _ c]) simp_all
  ultimately show ?thesis by (simp add: server_call_def)
qed

text \<open>C26: A send to a closed connection brings the server down. After \<open>handleClose\<close> the connection is
  still \<open>kConnected\<close> until its \<open>connectDestroyed\<close> has gone through both loops; a \<open>send\<close> that the
  kernel refuses in between buffers the message and makes the poller watch the descriptor
  again, the hang-up it reports closes the connection a second time, and of the two removals
  queued in the loop of the server the second fails its assertion.\<close>

theorem send_after_close_aborts:
  fixes w :: "'a server_world_scheme"
  assumes doc: "epoll_documented ctl" and ok: "conn_ok a c ch w"
    and st: "conn_state c = KConnected" and cb: "conn_closeCallback c = Some f"
    and own: "conn_loop c = self w" "self w \<noteq> srv_loop w" and map: "connections w (conn_name c) = Some a"
    and out: "content (outputBuffer c) = []" "m \<noteq> []" "length m \<le> room (outputBuffer c)"
    and err: "write_answers w = Inl e # rest"
  shows "\<exists>w1 w2 w3. handleClose ctl (server_usr app) True a w = Inr w1
    \<and> asked_events w1 (sock c) = kNoneEvent
    \<and> send ctl True m a w1 = Inr w2 \<and> asked_events w2 (sock c) = kWriteEvent
    \<and> handleClose ctl (server_usr app) True a w2 = Inr w3
    \<and> pendingFunctors (switch (srv_loop w) w3) = pendingFunctors (switch (srv_loop w) w)
          @ [RemoveConnectionInLoop a, RemoveConnectionInLoop a]
    \<and> for_each (server_call ctl app other) [RemoveConnectionInLoop a, RemoveConnectionInLoop a]
          (switch (srv_loop w) w3) = Inl (Assertion 97)"
proof -
  from close_elsewhere[OF doc ok disjI1[OF st] cb own(2), of app] obtain w1 ch1 where
    w1: "handleClose ctl (server_usr app) True a w = Inr w1" "conn_ok a c ch1 w1" "events ch1 = kNoneEvent" "self w1 = self w"
      "srv_loop w1 = srv_loop w" "connections w1 = connections w" "write_answers w1 = Inl e # rest"
      "pendingFunctors (switch (srv_loop w) w1) = pendingFunctors (switch (srv_loop w) w) @ [RemoveConnectionInLoop a]"
    using err by auto
  from send_switches_on[OF doc w1(2,3) st out w1(7)] obtain w2 b ch2 where
    w2: "send ctl True m a w1 = Inr w2" "conn_ok a (c\<lparr>outputBuffer := b\<rparr>) ch2 w2" "events ch2 = kWriteEvent" "self w2 = self w"
      "srv_loop w2 = srv_loop w" "connections w2 = connections w"
      "pendingFunctors (switch (srv_loop w) w2) = pendingFunctors (switch (srv_loop w) w1)"
    using w1(4-6) own(2) by (metis w1(4))
  have pre: "conn_state (c\<lparr>outputBuffer := b\<rparr>) = KConnected" "conn_closeCallback (c\<lparr>outputBuffer := b\<rparr>) = Some f"
    "self w2 \<noteq> srv_loop w2"
    using st cb own(2) w2(4,5) by simp_all
  from close_elsewhere[OF doc w2(2) disjI1[OF pre(1)] pre(2,3), of app] obtain w3 ch3 where
    w3: "handleClose ctl (server_usr app) True a w2 = Inr w3" "conn_ok a (c\<lparr>outputBuffer := b\<rparr>) ch3 w3" "self w3 = self w"
      "srv_loop w3 = srv_loop w" "connections w3 = connections w"
      "pendingFunctors (switch (srv_loop w) w3) = pendingFunctors (switch (srv_loop w) w2) @ [RemoveConnectionInLoop a]"
    unfolding w2(4-6) by blast
  have "for_each (server_call ctl app other) [RemoveConnectionInLoop a, RemoveConnectionInLoop a] (switch (srv_loop w) w3)
      = Inl (Assertion 97)"
    using conn_okD(2)[OF w3(2)] w3(4,5) map by (intro removed_twice_aborts[of _ _ "c\<lparr>outputBuffer := b\<rparr>"]) simp_all
  moreover have "asked_events w1 (sock c) = kNoneEvent" using asked_conn[OF w1(2)] w1(3) by simp
  moreover have "asked_events w2 (sock c) = kWriteEvent" using asked_conn[OF w2(2)] w2(3) by simp
  ultimately show ?thesis using w1(1,8) w2(1,7) w3(1,6) by auto
qed

section \<open>Witnesses\<close>

text \<open>Connection 20 of loop 0 in a server whose own loop is \<open>base\<close>.\<close>

definition wit_server_conn :: tcp_conn where
  "wit_server_conn = \<lparr>conn_loop = 0, conn_name = ''c'', conn_state = KConnected, sock = 5, chan_of = 7,
     localAddr = zero_sockaddr, peerAddr = zero_sockaddr,
     connectionCallback = Some 0, messageCallback = Some 1, conn_closeCallback = Some 2,
     writeCompleteCallback = None, highWaterMarkCallback = None, highWaterMark = 0,
     inputBuffer = fresh_buffer, outputBuffer = fresh_buffer\<rparr>"

definition wit_server_chan :: channel where
  "wit_server_chan = (new_Channel 0 5)\<lparr>events := kReadEvent, index := kAdded, revents := POLLHUP,
     closeCallback := Some (ConnClose 20), readCallback := Some (ConnRead 20)\<rparr>"

definition wit_mem :: loop_mem where
  "wit_mem = \<lparr>m_channels = Map.empty, m_events_size = 16, m_kernel = Map.empty, m_looping = True,
     m_quit = False, m_calling = False, m_pollReturnTime = 0, m_wakeups = 0, m_pending = []\<rparr>"

definition wit_server :: "nat \<Rightarrow> server_world" where
  "wit_server base = \<lparr>chans = [7 \<mapsto> wit_server_chan], channels = [5 \<mapsto> 7], events_size = 16,
     kernel = [5 \<mapsto> (kReadEvent, 7)], self = 0, looping = True, quit = False,
     callingPendingFunctors = False, pollReturnTime = 0, wakeups = 0, pendingFunctors = [],
     conns = [20 \<mapsto> wit_server_conn], write_answers = [Inl 32], read_answers = [Inr []],
     wire = (\<lambda>_. []), shut_wr = (\<lambda>_. False), parked = (\<lambda>_. wit_mem), srv_loop = base,
     srv_name = ''s'', srv_connectionCallback = Some 0, srv_messageCallback = Some 1,
     srv_writeCompleteCallback = None, srv_started = True, nextConnId = 1,
     connections = [''c'' \<mapsto> 20], acceptSocket = 3, acceptChannel = 2,
     newConnectionCallback = True, listenning = True, pool_started = True, numThreads = 2,
     next_loop = 0, loops = [1, 2], new_addrs = [(21, 8), (22, 9), (23, 10)],
     sock_names = (\<lambda>_. None), accept_answers = [], listen_answer = 0, closed_socks = []\<rparr>"

lemma wit_server_ok: "conn_ok 20 wit_server_conn wit_server_chan (wit_server base)"
  by (auto simp: conn_ok_def ep_ok_def wit_server_def wit_server_conn_def wit_server_chan_def
      new_Channel_def fresh_buffer_def buffer_inv_def buffer_consts split: if_splits)

lemma wit_server_conn_simps:
  "conn_state wit_server_conn = KConnected" "conn_closeCallback wit_server_conn = Some 2"
  "connectionCallback wit_server_conn = Some 0" "conn_loop wit_server_conn = 0"
  "conn_name wit_server_conn = ''c''" "sock wit_server_conn = 5" "chan_of wit_server_conn = 7"
  "buffer_inv (inputBuffer wit_server_conn)" "content (outputBuffer wit_server_conn) = []"
  "1 \<le> room (outputBuffer wit_server_conn)"
  by (simp_all add: wit_server_conn_def fresh_buffer_def buffer_inv_def buffer_consts content_def room_def)

lemma wit_server_simps:
  "self (wit_server b) = 0" "srv_loop (wit_server b) = b" "connections (wit_server b) ''c'' = Some 20"
  "read_answers (wit_server b) = [Inr []]" "write_answers (wit_server b) = [Inl 32]"
  "channels (wit_server b) = [5 \<mapsto> 7]"
  by (simp_all add: wit_server_def)

theorem accept_round_robin_witness:
  "\<exists>w'. for_each (\<lambda>(n, peer). newConnection linux_ctl (\<lambda>_. Inr) n peer)
        [(6::int, zero_sockaddr), (7, zero_sockaddr), (8, zero_sockaddr)] (wit_server 0) = Inr w'
    \<and> connections w' (conn_key ''s'' 3) = Some 23 \<and> (\<exists>c. conns w' 23 = Some c \<and> conn_loop c = 1)"
proof -
  let ?xs = "[(6::int, zero_sockaddr), (7, zero_sockaddr), (8, zero_sockaddr)]"
  let ?w = "wit_server 0"
  have "accepting ?w" "length ?xs \<le> length (new_addrs ?w)" "nextConnId ?w + int (length ?xs) < 2 ^ 31"
    by (simp_all add: accepting_def wit_server_def)
  from accept_round_robin[OF this, of linux_ctl "\<lambda>_. Inr"] obtain w' where
    w': "for_each (\<lambda>(n, peer). newConnection linux_ctl (\<lambda>_. Inr) n peer) ?xs ?w = Inr w'"
    and at: "\<And>i. i < length ?xs \<Longrightarrow> conns w' (fst (new_addrs ?w ! i)) = Some (nth_conn ?xs ?w i)
        \<and> connections w' (conn_key (srv_name ?w) (nextConnId ?w + int i)) = Some (fst (new_addrs ?w ! i))"
    by blast
  have "new_addrs ?w ! 2 = (23, 10)" "nextConnId ?w + int 2 = 3" "srv_name ?w = ''s''"
    "conn_loop (nth_conn ?xs ?w 2) = 1"
    by (simp_all add: wit_server_def nth_conn_def server_conn_def nth_loop_def)
  with at[of 2] w' show ?thesis by auto
qed

theorem orderly_close_witness:
  "\<exists>w1 w2 w3. handleRead linux_ctl (server_usr (\<lambda>_. Inr)) True 9 20 (wit_server 4) = Inr w1
    \<and> server_call linux_ctl (\<lambda>_. Inr) (\<lambda>_. Inr) (RemoveConnectionInLoop 20) (switch 4 w1) = Inr w2
    \<and> connections w2 ''c'' = None
    \<and> server_call linux_ctl (\<lambda>_. Inr) (\<lambda>_. Inr) (ConnectDestroyed 20) (switch 0 w2) = Inr w3
    \<and> channels w3 = Map.empty"
proof -
  have app: "\<exists>v'. (\<lambda>_. Inr) (OnConnection 0 20) v = Inr v' \<and> same_conns v v'" for v :: server_world by simp
  have own: "conn_loop wit_server_conn = self (wit_server 4)"
    "connections (wit_server 4) (conn_name wit_server_conn) = Some 20"
    by (simp_all add: wit_server_simps wit_server_conn_simps)
  show ?thesis
    using orderly_close[OF linux_ctl_documented wit_server_ok[of 4] disjI1[OF wit_server_conn_simps(1)]
        wit_server_conn_simps(2,3) own wit_server_simps(4) wit_server_conn_simps(8) app, of 9 "\<lambda>_. Inr"]
    by (auto simp: wit_server_simps wit_server_conn_simps)
qed

theorem hangup_closes_twice_witness:
  "handleEvent (server_call linux_ctl (\<lambda>_. Inr) (\<lambda>_. Inr)) (server_callr linux_ctl (\<lambda>_. Inr) (\<lambda>_. Inr)) 9 7
     (wit_server 0) = Inl (Assertion 97)"
proof -
  have "conn_loop wit_server_conn = self (wit_server 0)" "self (wit_server 0) = srv_loop (wit_server 0)"
    "connections (wit_server 0) (conn_name wit_server_conn) = Some 20"
    "closeCallback wit_server_chan = Some (ConnClose 20)" "readCallback wit_server_chan = Some (ConnRead 20)"
    "revents wit_server_chan = POLLHUP"
    by (simp_all add: wit_server_simps wit_server_conn_simps wit_server_chan_def)
  from hangup_closes_twice[OF linux_ctl_documented wit_server_ok[of 0] disjI1[OF wit_server_conn_simps(1)]
      wit_server_conn_simps(2) this wit_server_simps(4) wit_server_conn_simps(8)]
  show ?thesis by (simp add: wit_server_conn_simps)
qed

theorem send_after_close_aborts_witness:
  "\<exists>w1 w2 w3. handleClose linux_ctl (server_usr (\<lambda>_. Inr)) True 20 (wit_server 4) = Inr w1
    \<and> send linux_ctl True ''x'' 20 w1 = Inr w2
    \<and> handleClose linux_ctl (server_usr (\<lambda>_. Inr)) True 20 w2 = Inr w3
    \<and> for_each (server_call linux_ctl (\<lambda>_. Inr) (\<lambda>_. Inr)) (pendingFunctors (switch 4 w3)) (switch 4 w3)
        = Inl (Assertion 97)"
proof -
  have h: "conn_loop wit_server_conn = self (wit_server 4)" "self (wit_server 4) \<noteq> srv_loop (wit_server 4)"
    "connections (wit_server 4) (conn_name wit_server_conn) = Some 20"
    "content (outputBuffer wit_server_conn) = []" "''x'' \<noteq> []"
    "length ''x'' \<le> room (outputBuffer wit_server_conn)"
    using wit_server_conn_simps(10) by (simp_all add: wit_server_simps wit_server_conn_simps)
  have none: "pendingFunctors (switch 4 (wit_server 4)) = []"
    by (simp add: switch_def wit_server_def wit_mem_def)
  from send_after_close_aborts[OF linux_ctl_documented wit_server_ok[of 4] wit_server_conn_simps(1,2) h
      wit_server_simps(5), of "\<lambda>_. Inr" "\<lambda>_. Inr"] none
  show ?thesis unfolding wit_server_simps by (metis append_Nil)
qed

end
