(* ===== verification/Connectors.thy ===== *)
theory Connectors
  imports Tcp_Lifecycle
begin

text \<open>
  \<open>Connector\<close> (src/net/Connector.h, Connector.cpp): the active opening of a connection, with its
  retries. The state extends that of the loop; \<open>newcb\<close> is the callback for a new connection.
  What \<open>socket\<close>, \<open>connect\<close>, \<open>getsockopt\<close>, \<open>getsockname\<close> and \<open>getpeername\<close> answer and the addresses
  of new channels are components of the state. The timers of the loop are the list of those
  armed, each with its identity, its delay in milliseconds and its callback.
\<close>

section \<open>State\<close>

datatype connector_state = CDisconnected | CConnecting | CConnected

record connector_world = tcp_world +
  serverAddr :: sockaddr_in
  cn_connect :: bool
  cn_state :: connector_state
  cn_channel :: "chan_addr option"
  retryDelayMs :: int
  cn_timerId :: "nat option" \<comment> \<open>\<open>None\<close> is \<open>TimerId()\<close>\<close>
  timers :: "(nat \<times> int \<times> task) list"
  next_timer :: nat
  socket_answers :: "int list"
  connect_answers :: "int list" \<comment> \<open>0, or the \<open>errno\<close>\<close>
  so_error :: "int \<Rightarrow> int + int"
  local_names :: "int \<Rightarrow> sockaddr_in option"
  peer_names :: "int \<Rightarrow> sockaddr_in option"
  fresh_chans :: "chan_addr list"
  closed_fds :: "int list"

definition kMaxRetryDelayMs :: int where "kMaxRetryDelayMs = 30 * 1000"
definition kInitRetryDelayMs :: int where "kInitRetryDelayMs = 500"

definition new_Connector :: "sockaddr_in \<Rightarrow> 'a connector_world_scheme \<Rightarrow> 'a connector_world_scheme" where
  "new_Connector addr w = w\<lparr>serverAddr := addr, cn_connect := False, cn_state := CDisconnected,
     cn_channel := None, retryDelayMs := kInitRetryDelayMs, cn_timerId := None\<rparr>"

text \<open>\<open>EventLoop::runAfter\<close> and \<open>EventLoop::cancel\<close>, and what the system calls answer.\<close>

definition runAfter :: "int \<Rightarrow> task \<Rightarrow> 'a connector_world_scheme \<Rightarrow> nat \<times> 'a connector_world_scheme" where
  "runAfter ms cb w = (next_timer w, w\<lparr>timers := timers w @ [(next_timer w, ms, cb)], next_timer := next_timer w + 1\<rparr>)"

definition cancel_timer :: "nat option \<Rightarrow> 'a connector_world_scheme \<Rightarrow> 'a connector_world_scheme" where
  "cancel_timer i w = w\<lparr>timers := filter (\<lambda>(j, _). Some j \<noteq> i) (timers w)\<rparr>"

definition sys_socket :: "'a connector_world_scheme \<Rightarrow> int \<times> 'a connector_world_scheme" where
  "sys_socket w = (case socket_answers w of [] \<Rightarrow> (- 1, w) | n # rest \<Rightarrow> (n, w\<lparr>socket_answers := rest\<rparr>))"

definition sys_connect :: "'a connector_world_scheme \<Rightarrow> int \<times> 'a connector_world_scheme" where
  "sys_connect w = (case connect_answers w of [] \<Rightarrow> (EINPROGRESS, w) | e # rest \<Rightarrow> (e, w\<lparr>connect_answers := rest\<rparr>))"

definition sys_close :: "int \<Rightarrow> 'a connector_world_scheme \<Rightarrow> 'a connector_world_scheme" where
  "sys_close n w = w\<lparr>closed_fds := closed_fds w @ [n]\<rparr>"

definition cn_setState :: "connector_state \<Rightarrow> 'a connector_world_scheme \<Rightarrow> 'a connector_world_scheme" where
  "cn_setState s w = w\<lparr>cn_state := s\<rparr>"

section \<open>Operations\<close>

definition cn_retry :: "int \<Rightarrow> 'a connector_world_scheme \<Rightarrow> 'a connector_world_scheme" where
  "cn_retry sockfd w =
     (let w = cn_setState CDisconnected (sys_close sockfd w)
      in if cn_connect w
         then let (i, w) = runAfter (retryDelayMs w) (ConnectorStart 0) w
              in w\<lparr>cn_timerId := Some i, retryDelayMs := min (retryDelayMs w * 2) kMaxRetryDelayMs\<rparr>
         else w)"

definition connecting ::
  "epoll_ctl \<Rightarrow> bool \<Rightarrow> int \<Rightarrow> 'a connector_world_scheme \<Rightarrow> 'a connector_world_scheme result" where
  "connecting ctl inl sockfd w =
     (let w = cn_setState CConnecting w
      in check (cn_channel w = None) (Assertion 108)
        (case fresh_chans w of
           [] \<Rightarrow> Inl (Thrown 109)
         | ca # rest \<Rightarrow>
             let ch = setErrorCallback (ConnectorError 0)
                        (setWriteCallback (ConnectorWrite 0) (new_Channel (self w) sockfd));
                 w = put_chan ca ch (w\<lparr>fresh_chans := rest, cn_channel := Some ca\<rparr>)
             in enableWriting (loop_updateChannel ctl inl) ca w))"

definition connect :: "epoll_ctl \<Rightarrow> bool \<Rightarrow> 'a connector_world_scheme \<Rightarrow> 'a connector_world_scheme result" where
  "connect ctl inl w =
     (let (n, w) = sys_socket w
      in rbind (createNonblockingOrDie n) (\<lambda>sockfd.
         let (savedErrno, w) = sys_connect w
         in if savedErrno \<in> {0, EINPROGRESS, EINTR, EISCONN} then connecting ctl inl sockfd w
            else if savedErrno \<in> {EAGAIN, EADDRINUSE, EADDRNOTAVAIL, ECONNREFUSED, ENETUNREACH}
            then Inr (cn_retry sockfd w)
            else Inr (sys_close sockfd w)))"

definition startInLoop :: "epoll_ctl \<Rightarrow> bool \<Rightarrow> 'a connector_world_scheme \<Rightarrow> 'a connector_world_scheme result" where
  "startInLoop ctl inl w =
     check inl (Fatal 40)
    (check (cn_state w = CDisconnected) (Assertion 41)
      (if cn_connect w then connect ctl inl w else Inr w))"

definition cn_start :: "epoll_ctl \<Rightarrow> bool \<Rightarrow> 'a connector_world_scheme \<Rightarrow> 'a connector_world_scheme result" where
  "cn_start ctl inl w =
     (let w = w\<lparr>cn_connect := True\<rparr>
      in if inl then startInLoop ctl inl w else Inr (queueInLoop inl (ConnectorStart 0) w))"

definition cn_restart :: "epoll_ctl \<Rightarrow> bool \<Rightarrow> 'a connector_world_scheme \<Rightarrow> 'a connector_world_scheme result" where
  "cn_restart ctl inl w =
     check inl (Fatal 92)
       (startInLoop ctl inl ((cn_setState CDisconnected w)\<lparr>retryDelayMs := kInitRetryDelayMs, cn_connect := True\<rparr>))"

definition cn_stop :: "'a connector_world_scheme \<Rightarrow> 'a connector_world_scheme" where
  "cn_stop w = (let w = w\<lparr>cn_connect := False\<rparr> in cancel_timer (cn_timerId w) w)"

definition removeAndResetChannel ::
  "epoll_ctl \<Rightarrow> bool \<Rightarrow> 'a connector_world_scheme \<Rightarrow> (int \<times> 'a connector_world_scheme) result" where
  "removeAndResetChannel ctl inl w =
     (case cn_channel w of
        None \<Rightarrow> Inl (Undefined 117)
      | Some ca \<Rightarrow>
          rbind (disableAll (loop_updateChannel ctl inl) ca w) (\<lambda>w.
          rbind (loop_removeChannel ctl inl ca w) (\<lambda>w.
          rbind (chan_at 119 ca w) (\<lambda>ch.
            Inr (fd ch, queueInLoop inl (ConnectorReset 0) w)))))"

definition resetChannel :: "bool \<Rightarrow> 'a connector_world_scheme \<Rightarrow> 'a connector_world_scheme result" where
  "resetChannel inl w =
     check inl (Fatal 128)
       (case cn_channel w of
          None \<Rightarrow> Inr w
        | Some ca \<Rightarrow> delete_Channel ca (w\<lparr>cn_channel := None\<rparr>))"

definition cn_handleWrite ::
  "epoll_ctl \<Rightarrow> (int \<Rightarrow> 'a connector_world_scheme \<Rightarrow> 'a connector_world_scheme result) \<Rightarrow> bool
   \<Rightarrow> 'a connector_world_scheme \<Rightarrow> 'a connector_world_scheme result" where
  "cn_handleWrite ctl newcb inl w =
     check inl (Fatal 134)
       (if cn_state w = CConnecting
        then rbind (removeAndResetChannel ctl inl w) (\<lambda>(sockfd, w).
               let err = getSocketError (so_error w sockfd)
               in if err \<noteq> 0 then Inr (cn_retry sockfd w)
                  else if isSelfConnect (local_names w sockfd) (peer_names w sockfd)
                  then Inr (cn_retry sockfd w)
                  else let w = cn_setState CConnected w
                       in if cn_connect w then newcb sockfd w else Inr (sys_close sockfd w))
        else check (cn_state w = CDisconnected) (Assertion 164) (Inr w))"

definition cn_handleError :: "epoll_ctl \<Rightarrow> bool \<Rightarrow> 'a connector_world_scheme \<Rightarrow> 'a connector_world_scheme result" where
  "cn_handleError ctl inl w =
     check (cn_state w = CConnecting) (Assertion 171)
       (rbind (removeAndResetChannel ctl inl w) (\<lambda>(sockfd, w). Inr (cn_retry sockfd w)))"

definition delete_Connector :: "'a connector_world_scheme \<Rightarrow> 'a connector_world_scheme result" where
  "delete_Connector w =
     (let w = cancel_timer (cn_timerId w) w in check (cn_channel w = None) (Assertion 29) (Inr w))"

text \<open>A retry timer goes off: the timer queue takes it out and calls \<open>startInLoop\<close>.\<close>

definition timer_fires :: "epoll_ctl \<Rightarrow> nat \<Rightarrow> 'a connector_world_scheme \<Rightarrow> 'a connector_world_scheme result" where
  "timer_fires ctl i w = startInLoop ctl True (w\<lparr>timers := filter (\<lambda>(j, _). j \<noteq> i) (timers w)\<rparr>)"

section \<open>Lemmas\<close>

lemma errno_distinct [simp]: "ECONNREFUSED \<notin> {0, EINPROGRESS, EINTR, EISCONN}"
  by (simp add: errnos)

text \<open>A state in which the connector waits for its retry timer \<open>i\<close>, the only one armed.\<close>

definition backing_off :: "nat \<Rightarrow> int \<Rightarrow> 'a connector_world_scheme \<Rightarrow> bool" where
  "backing_off i ms w \<longleftrightarrow> cn_state w = CDisconnected \<and> cn_connect w \<and> timers w = [(i, ms, ConnectorStart 0)]
     \<and> cn_timerId w = Some i \<and> retryDelayMs w = min (ms * 2) kMaxRetryDelayMs"

definition retriable :: "int \<Rightarrow> bool" where
  "retriable e \<longleftrightarrow> e \<in> {EAGAIN, EADDRINUSE, EADDRNOTAVAIL, ECONNREFUSED, ENETUNREACH}"

lemma retriable_not_ok: "retriable e \<Longrightarrow> e \<notin> {0, EINPROGRESS, EINTR, EISCONN}"
  by (auto simp: retriable_def errnos)

lemma failed_attempt:
  assumes st: "cn_state w = CDisconnected" "cn_connect w" "timers w = []"
    and ans: "socket_answers w = n # ns" "0 \<le> n" "connect_answers w = e # es" "retriable e"
  shows "\<exists>w'. startInLoop ctl True w = Inr w' \<and> backing_off (next_timer w) (retryDelayMs w) w'
    \<and> closed_fds w' = closed_fds w @ [n] \<and> socket_answers w' = ns \<and> connect_answers w' = es
    \<and> next_timer w' = next_timer w + 1"
  using assms retriable_not_ok[OF ans(4)]
  by (auto simp: startInLoop_def connect_def sys_socket_def sys_connect_def createNonblockingOrDie_def
      cn_retry_def cn_setState_def sys_close_def runAfter_def backing_off_def retriable_def Let_def)

text \<open>The \<open>k\<close>-th delay of the back-off.\<close>

definition backoff :: "nat \<Rightarrow> int" where
  "backoff k = min (500 * 2 ^ k) 30000"

lemma backoff_Suc: "min (backoff k * 2) kMaxRetryDelayMs = backoff (Suc k)"
proof -
  have "(500 :: int) \<le> 500 * 2 ^ k" by simp
  then show ?thesis by (auto simp: backoff_def kMaxRetryDelayMs_def min_def)
qed

fun fire_all :: "epoll_ctl \<Rightarrow> nat \<Rightarrow> 'a connector_world_scheme \<Rightarrow> 'a connector_world_scheme result" where
  \<comment> \<open>the armed timers go off, \<open>k\<close> times over\<close>
  "fire_all ctl 0 w = Inr w"
| "fire_all ctl (Suc k) w = rbind (fire_all ctl k w) (\<lambda>w. for_each (timer_fires ctl) (map fst (timers w)) w)"

lemma fire_all_backoff:
  assumes "backing_off i (backoff j) w" "socket_answers w = ns" "\<forall>n \<in> set ns. 0 \<le> n"
    "connect_answers w = es" "\<forall>e \<in> set es. retriable e" "k \<le> length ns" "k \<le> length es" "next_timer w = Suc i"
  shows "\<exists>w'. fire_all ctl k w = Inr w' \<and> backing_off (i + k) (backoff (j + k)) w'
    \<and> closed_fds w' = closed_fds w @ take k ns \<and> socket_answers w' = drop k ns
    \<and> connect_answers w' = drop k es \<and> next_timer w' = Suc (i + k)"
  using assms(6,7)
proof (induction k)
  case 0
  then show ?case using assms by simp
next
  case (Suc k)
  then obtain w1 where w1: "fire_all ctl k w = Inr w1" "backing_off (i + k) (backoff (j + k)) w1"
    "closed_fds w1 = closed_fds w @ take k ns" "socket_answers w1 = drop k ns"
    "connect_answers w1 = drop k es" "next_timer w1 = Suc (i + k)" by auto
  obtain n ns' where n: "drop k ns = n # ns'" "n = ns ! k" "ns' = drop (Suc k) ns"
    using Suc.prems(1) by (metis Cons_nth_drop_Suc Suc_le_lessD)
  obtain e es' where e: "drop k es = e # es'" "e = es ! k" "es' = drop (Suc k) es"
    using Suc.prems(2) by (metis Cons_nth_drop_Suc Suc_le_lessD)
  let ?w1 = "w1\<lparr>timers := []\<rparr>"
  have fire: "for_each (timer_fires ctl) (map fst (timers w1)) w1 = startInLoop ctl True ?w1"
    using w1(2) by (simp add: backing_off_def timer_fires_def)
  have "0 \<le> n" "retriable e" using n(2) e(2) assms(3,5) Suc.prems by (auto simp: Suc_le_eq)
  then obtain w' where w': "startInLoop ctl True ?w1 = Inr w'"
    "backing_off (next_timer ?w1) (retryDelayMs ?w1) w'" "closed_fds w' = closed_fds ?w1 @ [n]"
    "socket_answers w' = ns'" "connect_answers w' = es'" "next_timer w' = next_timer ?w1 + 1"
    using failed_attempt[of ?w1 n ns' e es' ctl] w1 n(1) e(1) by (auto simp: backing_off_def)
  have "retryDelayMs ?w1 = backoff (j + Suc k)"
    using w1(2) backoff_Suc[of "j + k"] by (simp add: backing_off_def)
  moreover have "take (Suc k) ns = take k ns @ [n]"
    using n(2) Suc.prems(1) by (simp add: take_Suc_conv_app_nth)
  ultimately show ?case using w1 w' fire n(3) e(3) by (intro exI[of _ w']) simp
qed

text \<open>A new channel leaves the poller as it is.\<close>

lemma ep_ok_fresh:
  assumes ok: "ep_ok w" and new: "chans w ca = None" "index ch = kNew"
  shows "ep_ok (put_chan ca ch w)"
  unfolding ep_ok_def
proof (intro conjI allI impI)
  fix n y assume "channels (put_chan ca ch w) n = Some y"
  then have "channels w n = Some y" by (simp add: put_chan_def)
  from ep_okD(1)[OF ok this] show "\<exists>c. chans (put_chan ca ch w) y = Some c \<and> fd c = n
        \<and> (index c = kAdded \<and> kernel (put_chan ca ch w) n = Some (events c, y)
           \<or> index c = kDeleted \<and> events c = kNoneEvent \<and> kernel (put_chan ca ch w) n = None)"
    using new by (auto simp: put_chan_def)
next
  fix n assume "channels (put_chan ca ch w) n = None"
  then show "kernel (put_chan ca ch w) n = None" using ep_okD(2)[OF ok] by (simp add: put_chan_def)
next
  fix y c assume "chans (put_chan ca ch w) y = Some c" "channels (put_chan ca ch w) (fd c) \<noteq> Some y"
  then show "index c = kNew"
    using ep_okD(3)[OF ok] new by (cases "y = ca") (auto simp: put_chan_def)
qed

definition connector_chan :: "nat \<Rightarrow> int \<Rightarrow> channel" where
  "connector_chan l n = setErrorCallback (ConnectorError 0) (setWriteCallback (ConnectorWrite 0) (new_Channel l n))"

lemma connecting_ok:
  assumes doc: "epoll_documented ctl" and ok: "ep_ok w" and none: "cn_channel w = None"
    and fresh: "fresh_chans w = ca # rest" "chans w ca = None" "channels w n = None"
  shows "\<exists>h m k i. connecting ctl True n w
      = Inr (w\<lparr>cn_state := CConnecting, fresh_chans := rest, cn_channel := Some ca,
               chans := h, channels := m, kernel := k\<rparr>)
    \<and> ep_ok (w\<lparr>cn_state := CConnecting, fresh_chans := rest, cn_channel := Some ca,
               chans := h, channels := m, kernel := k\<rparr>)
    \<and> h = (chans w)(ca \<mapsto> (connector_chan (self w) n)\<lparr>events := kWriteEvent, index := i\<rparr>)
    \<and> m = (channels w)(n \<mapsto> ca)"
proof -
  let ?u = "w\<lparr>cn_state := CConnecting, fresh_chans := rest, cn_channel := Some ca\<rparr>"
  let ?ch = "connector_chan (self w) n"
  let ?w = "put_chan ca ?ch ?u"
  have ch: "fd ?ch = n" "loop ?ch = self w" "index ?ch = kNew" "events ?ch = 0"
    by (simp_all add: connector_chan_def setErrorCallback_def setWriteCallback_def new_Channel_def kNew_def)
  have "ep_ok ?u" using ok by (simp add: ep_ok_cong[of ?u w])
  then have okw: "ep_ok ?w" using ch fresh(2) by (intro ep_ok_fresh) simp_all
  obtain w' i where w': "change_events 77 (loop_updateChannel ctl True) (\<lambda>e. e OR kWriteEvent) ca ?w = Inr w'"
    "ep_ok w'" "channels w' = (channels ?w)(fd ?ch \<mapsto> ca)"
    "chans w' = (chans ?w)(ca \<mapsto> ?ch\<lparr>events := events ?ch OR kWriteEvent, index := i\<rparr>)"
    "w' = ?w\<lparr>chans := chans w', channels := channels w', kernel := kernel w'\<rparr>"
    using loop_change_ok[OF doc okw, of ca ?ch 77 "\<lambda>e. e OR kWriteEvent"] ch fresh(3)
    by (auto simp: put_chan_def)
  have eq: "w' = ?u\<lparr>chans := chans w', channels := channels w', kernel := kernel w'\<rparr>"
    using w'(5) by (simp add: put_chan_def)
  have "connecting ctl True n w = Inr w'"
    using none fresh(1) w'(1)
    by (simp add: connecting_def cn_setState_def Let_def enableWriting_def connector_chan_def)
  then show ?thesis
    using w'(2-4) eq ch
    by (intro exI[of _ "chans w'"] exI[of _ "channels w'"] exI[of _ "kernel w'"] exI[of _ i])
      (simp add: put_chan_def)
qed

lemma removeAndResetChannel_ok:
  assumes doc: "epoll_documented ctl" and ok: "ep_ok w" and cn: "cn_channel w = Some ca"
    and ch: "chans w ca = Some ch" "channels w (fd ch) = Some ca" "loop ch = self w"
  shows "\<exists>h m k. removeAndResetChannel ctl True w
      = Inr (fd ch, queueInLoop True (ConnectorReset 0) (w\<lparr>chans := h, channels := m, kernel := k\<rparr>))
    \<and> ep_ok (w\<lparr>chans := h, channels := m, kernel := k\<rparr>) \<and> m = (channels w)(fd ch := None)
    \<and> h = (chans w)(ca \<mapsto> ch\<lparr>events := kNoneEvent, index := kNew\<rparr>)"
proof -
  obtain u i where u: "disableAll (loop_updateChannel ctl True) ca w = Inr u" "ep_ok u"
    "channels u = (channels w)(fd ch \<mapsto> ca)"
    "chans u = (chans w)(ca \<mapsto> ch\<lparr>events := kNoneEvent, index := i\<rparr>)"
    "u = w\<lparr>chans := chans u, channels := channels u, kernel := kernel u\<rparr>"
    using loop_change_ok[OF doc ok ch(1) _ ch(3), of 87 "\<lambda>e. kNoneEvent"] ch(2)
    by (auto simp: disableAll_def)
  have uself: "self u = self w" using loop_frame(1)[OF u(5)] .
  obtain v where v: "loop_removeChannel ctl True ca u = Inr v" "ep_ok v"
    "channels v = (channels u)(fd ch := None)"
    "chans v = (chans u)(ca \<mapsto> ch\<lparr>events := kNoneEvent, index := kNew\<rparr>)"
    "v = u\<lparr>chans := chans v, channels := channels v, kernel := kernel v\<rparr>"
    using loop_remove_ok[OF doc u(2), of ca "ch\<lparr>events := kNoneEvent, index := i\<rparr>"] u(3,4) ch(3) uself
    by auto
  have eq: "v = w\<lparr>chans := chans v, channels := channels v, kernel := kernel v\<rparr>"
    by (subst v(5), subst u(5)) simp
  have "removeAndResetChannel ctl True w = Inr (fd ch, queueInLoop True (ConnectorReset 0) v)"
    using cn u(1) v(1,4) by (simp add: removeAndResetChannel_def)
  then show ?thesis
    using eq v(2-4) u(3,4)
    by (intro exI[of _ "chans v"] exI[of _ "channels v"] exI[of _ "kernel v"]) auto
qed

section \<open>Properties\<close>

text \<open>The back-off. From a fresh connector, every attempt that the kernel refuses with one of
  the retriable errors closes its socket, leaves the connector disconnected and arms exactly one
  timer; after \<open>k + 1\<close> refused attempts its delay is \<open>min (500 * 2 ^ k) 30000\<close> milliseconds, so the
  delays double from half a second up to thirty seconds and stay there.\<close>

theorem backoff_schedule:
  assumes new: "cn_state w = CDisconnected" "timers w = []" "retryDelayMs w = kInitRetryDelayMs"
    and ans: "\<forall>n \<in> set (socket_answers w). 0 \<le> n" "\<forall>e \<in> set (connect_answers w). retriable e"
    and len: "k < length (socket_answers w)" "k < length (connect_answers w)"
  shows "\<exists>w1 w2. cn_start ctl True w = Inr w1 \<and> fire_all ctl k w1 = Inr w2
    \<and> timers w2 = [(next_timer w + k, min (500 * 2 ^ k) 30000, ConnectorStart 0)] \<and> cn_timerId w2 = Some (next_timer w + k)
    \<and> cn_state w2 = CDisconnected
    \<and> closed_fds w2 = closed_fds w @ take (Suc k) (socket_answers w)"
proof -
  obtain n ns e es where split: "socket_answers w = n # ns" "connect_answers w = e # es"
    using len by (metis length_greater_0_conv neq_Nil_conv gr0I less_nat_zero_code list.size(3))
  let ?w = "w\<lparr>cn_connect := True\<rparr>"
  obtain w1 where w1: "startInLoop ctl True ?w = Inr w1" "backing_off (next_timer w) (backoff 0) w1"
    "closed_fds w1 = closed_fds w @ [n]" "socket_answers w1 = ns" "connect_answers w1 = es"
    "next_timer w1 = Suc (next_timer w)"
    using failed_attempt[of ?w n ns e es ctl] new ans split
    by (auto simp: backoff_def kInitRetryDelayMs_def)
  obtain w2 where w2: "fire_all ctl k w1 = Inr w2" "backing_off (next_timer w + k) (backoff k) w2"
    "closed_fds w2 = closed_fds w1 @ take k ns"
    using fire_all_backoff[OF w1(2,4) _ w1(5) _ _ _ w1(6), of k ctl] ans split len by auto
  have "cn_start ctl True w = Inr w1" using w1(1) by (simp add: cn_start_def)
  moreover have "timers w2 = [(next_timer w + k, min (500 * 2 ^ k) 30000, ConnectorStart 0)]"
    "cn_timerId w2 = Some (next_timer w + k)" "cn_state w2 = CDisconnected"
    using w2(2) by (simp_all add: backing_off_def backoff_def)
  moreover have "closed_fds w2 = closed_fds w @ take (Suc k) (socket_answers w)"
    using w2(3) w1(3) split by simp
  ultimately show ?thesis using w2(1) by blast
qed

text \<open>Calling \<open>start\<close> again while the connector waits for its retry timer brings the program
  down: the second attempt gets under way, the timer is still armed, and when it goes off
  \<open>startInLoop\<close> finds the state \<open>kConnecting\<close> and fails its assertion.\<close>

theorem start_during_backoff_aborts:
  assumes doc: "epoll_documented ctl" and ok: "ep_ok w" and wait: "backing_off i ms w"
    and none: "cn_channel w = None"
    and ans: "socket_answers w = n # ns" "0 \<le> n" "connect_answers w = EINPROGRESS # es"
    and fresh: "fresh_chans w = ca # rest" "chans w ca = None" "channels w n = None"
  shows "\<exists>w1. cn_start ctl True w = Inr w1 \<and> cn_state w1 = CConnecting
    \<and> asked_events w1 n = kWriteEvent \<and> timers w1 = [(i, ms, ConnectorStart 0)]
    \<and> timer_fires ctl i w1 = Inl (Assertion 41)"
proof -
  let ?u = "w\<lparr>cn_connect := True, socket_answers := ns, connect_answers := es\<rparr>"
  have "ep_ok ?u" using ok by (simp add: ep_ok_cong[of ?u w])
  from connecting_ok[OF doc this, of ca rest n] none fresh obtain h m k i where
    run: "connecting ctl True n ?u = Inr (?u\<lparr>cn_state := CConnecting, fresh_chans := rest,
      cn_channel := Some ca, chans := h, channels := m, kernel := k\<rparr>)"
    and ok1: "ep_ok (?u\<lparr>cn_state := CConnecting, fresh_chans := rest,
      cn_channel := Some ca, chans := h, channels := m, kernel := k\<rparr>)"
    and h: "h = (chans w)(ca \<mapsto> (connector_chan (self w) n)\<lparr>events := kWriteEvent, index := i\<rparr>)"
      "m = (channels w)(n \<mapsto> ca)" by auto
  let ?w1 = "?u\<lparr>cn_state := CConnecting, fresh_chans := rest, cn_channel := Some ca,
    chans := h, channels := m, kernel := k\<rparr>"
  have "cn_start ctl True w = Inr ?w1"
    using wait ans run
    by (simp add: cn_start_def startInLoop_def connect_def sys_socket_def sys_connect_def
        createNonblockingOrDie_def backing_off_def)
  moreover have "asked_events ?w1 n = kWriteEvent"
    using event_poller.asked_ok[OF epoll_event_poller[OF doc] ok1, of n] h by simp
  ultimately show ?thesis using wait by (simp add: backing_off_def timer_fires_def startInLoop_def)
qed

section \<open>Witnesses\<close>

definition wit_connector :: "int list \<Rightarrow> connector_world" where
  "wit_connector es = \<lparr>chans = Map.empty, channels = Map.empty, events_size = 16,
     kernel = Map.empty, self = 0, looping = True, quit = False,
     callingPendingFunctors = False, pollReturnTime = 0, wakeups = 0, pendingFunctors = [],
     conns = Map.empty, write_answers = [], read_answers = [],
     wire = (\<lambda>_. []), shut_wr = (\<lambda>_. False), serverAddr = InetAddress_port 80, cn_connect = False,
     cn_state = CDisconnected, cn_channel = None, retryDelayMs = kInitRetryDelayMs, cn_timerId = None,
     timers = [], next_timer = 1, socket_answers = [5, 6, 7], connect_answers = es,
     so_error = (\<lambda>_. Inr 0), local_names = (\<lambda>_. None), peer_names = (\<lambda>_. Some (InetAddress_port 80)),
     fresh_chans = [7], closed_fds = []\<rparr>"

theorem backoff_schedule_witness:
  "\<exists>w1 w2. cn_start linux_ctl True (wit_connector [ECONNREFUSED, ECONNREFUSED, ECONNREFUSED]) = Inr w1
    \<and> fire_all linux_ctl 2 w1 = Inr w2 \<and> timers w2 = [(3, 2000, ConnectorStart 0)] \<and> closed_fds w2 = [5, 6, 7]"
proof -
  let ?w = "wit_connector [ECONNREFUSED, ECONNREFUSED, ECONNREFUSED]"
  have "cn_state ?w = CDisconnected" "timers ?w = []" "retryDelayMs ?w = kInitRetryDelayMs"
    "\<forall>n \<in> set (socket_answers ?w). 0 \<le> n" "\<forall>e \<in> set (connect_answers ?w). retriable e"
    "2 < length (socket_answers ?w)" "2 < length (connect_answers ?w)"
    by (simp_all add: wit_connector_def retriable_def)
  moreover have "next_timer ?w = 1" "socket_answers ?w = [5, 6, 7]" "closed_fds ?w = []"
    by (simp_all add: wit_connector_def)
  ultimately show ?thesis using backoff_schedule[of ?w 2 linux_ctl] by auto
qed

theorem start_during_backoff_aborts_witness:
  "\<exists>w1. cn_start linux_ctl True ((wit_connector [EINPROGRESS])\<lparr>cn_connect := True,
      timers := [(1, 500, ConnectorStart 0)], cn_timerId := Some 1, retryDelayMs := 1000\<rparr>) = Inr w1
    \<and> timer_fires linux_ctl 1 w1 = Inl (Assertion 41)"
proof -
  let ?w = "(wit_connector [EINPROGRESS])\<lparr>cn_connect := True,
      timers := [(1, 500, ConnectorStart 0)], cn_timerId := Some 1, retryDelayMs := 1000\<rparr>"
  have ok: "ep_ok ?w" by (simp add: ep_ok_def wit_connector_def)
  have wait: "backing_off 1 500 ?w"
    by (simp add: backing_off_def wit_connector_def kMaxRetryDelayMs_def)
  have h: "cn_channel ?w = None" "socket_answers ?w = 5 # [6, 7]" "0 \<le> (5::int)"
    "connect_answers ?w = EINPROGRESS # []"
    "fresh_chans ?w = 7 # []" "chans ?w 7 = None" "channels ?w 5 = None"
    by (simp_all add: wit_connector_def)
  from start_during_backoff_aborts[OF linux_ctl_documented ok wait h] show ?thesis by blast
qed

end
