(* ===== verification/Tcp_Client.thy ===== *)
theory Tcp_Client
  imports Connectors
begin

text \<open>
  \<open>TcpClient\<close> (src/net/TcpClient.h, TcpClient.cpp): a connector and the one connection it opens.
  Close callback 0 is \<open>TcpClient::removeConnection\<close>, 1 is \<open>detail::removeConnection\<close>. The mutex
  around \<open>connection_\<close> is left out: every operation here is one step of one thread.
\<close>

section \<open>State\<close>

record client_world = connector_world +
  cl_connectionCallback :: "nat option"
  cl_messageCallback :: "nat option"
  cl_writeCompleteCallback :: "nat option"
  cl_retry :: bool
  cl_connect :: bool
  cl_nextConnId :: int
  connection :: "conn_addr option"
  fresh_conns :: "(conn_addr \<times> chan_addr) list" \<comment> \<open>what the allocator will return\<close>

definition new_TcpClient :: "sockaddr_in \<Rightarrow> 'a client_world_scheme \<Rightarrow> 'a client_world_scheme" where
  "new_TcpClient addr w = (new_Connector addr w)\<lparr>cl_connectionCallback := None, cl_messageCallback := None,
     cl_writeCompleteCallback := None, cl_retry := False, cl_connect := True, cl_nextConnId := 1,
     connection := None\<rparr>"

definition cl_enableRetry :: "'a client_world_scheme \<Rightarrow> 'a client_world_scheme" where
  "cl_enableRetry w = w\<lparr>cl_retry := True\<rparr>"
definition cl_setConnectionCallback :: "nat option \<Rightarrow> 'a client_world_scheme \<Rightarrow> 'a client_world_scheme" where
  "cl_setConnectionCallback cb w = w\<lparr>cl_connectionCallback := cb\<rparr>"
definition cl_setMessageCallback :: "nat option \<Rightarrow> 'a client_world_scheme \<Rightarrow> 'a client_world_scheme" where
  "cl_setMessageCallback cb w = w\<lparr>cl_messageCallback := cb\<rparr>"
definition cl_setWriteCompleteCallback :: "nat option \<Rightarrow> 'a client_world_scheme \<Rightarrow> 'a client_world_scheme" where
  "cl_setWriteCompleteCallback cb w = w\<lparr>cl_writeCompleteCallback := cb\<rparr>"

section \<open>Operations\<close>

definition cl_connect_op :: "epoll_ctl \<Rightarrow> bool \<Rightarrow> 'a client_world_scheme \<Rightarrow> 'a client_world_scheme result" where
  "cl_connect_op ctl inl w = cn_start ctl inl (w\<lparr>cl_connect := True\<rparr>)"

definition cl_disconnect :: "bool \<Rightarrow> 'a client_world_scheme \<Rightarrow> 'a client_world_scheme result" where
  "cl_disconnect inl w =
     (let w = w\<lparr>cl_connect := False\<rparr>
      in case connection w of None \<Rightarrow> Inr w | Some a \<Rightarrow> shutdown inl a w)"

definition cl_stop :: "'a client_world_scheme \<Rightarrow> 'a client_world_scheme" where
  "cl_stop w = cn_stop (w\<lparr>cl_connect := False\<rparr>)"

definition cl_removeConnection ::
  "epoll_ctl \<Rightarrow> bool \<Rightarrow> conn_addr \<Rightarrow> 'a client_world_scheme \<Rightarrow> 'a client_world_scheme result" where
  "cl_removeConnection ctl inl a w =
     check inl (Fatal 131)
    (rbind (conn_at 132 a w) (\<lambda>c.
     check (conn_loop c = self w) (Assertion 132)
    (check (connection w = Some a) (Assertion 136)
    (let w = queueInLoop inl (ConnectDestroyed a) (w\<lparr>connection := None\<rparr>)
     in if cl_retry w \<and> cl_connect w then cn_restart ctl inl w else Inr w))))"

definition detail_removeConnection :: "bool \<Rightarrow> conn_addr \<Rightarrow> 'a client_world_scheme \<Rightarrow> 'a client_world_scheme result" where
  "detail_removeConnection inl a w = Inr (queueInLoop inl (ConnectDestroyed a) w)"

definition client_usr ::
  "epoll_ctl \<Rightarrow> (user_call \<Rightarrow> 'a client_world_scheme \<Rightarrow> 'a client_world_scheme result) \<Rightarrow> bool
   \<Rightarrow> user_call \<Rightarrow> 'a client_world_scheme \<Rightarrow> 'a client_world_scheme result" where
  "client_usr ctl app inl u w =
     (case u of
        OnClose f a \<Rightarrow> if f = 0 then cl_removeConnection ctl inl a w else detail_removeConnection inl a w
      | _ \<Rightarrow> app u w)"

definition client_key :: "string \<Rightarrow> int \<Rightarrow> string" where
  \<comment> \<open>\<open>snprintf\<close> into 32 bytes\<close>
  "client_key peer i = take 31 (CHR '':'' # peer @ CHR ''#'' # dec_int i)"

definition cl_newConnection ::
  "epoll_ctl \<Rightarrow> (user_call \<Rightarrow> 'a client_world_scheme \<Rightarrow> 'a client_world_scheme result) \<Rightarrow> bool
   \<Rightarrow> int \<Rightarrow> 'a client_world_scheme \<Rightarrow> 'a client_world_scheme result" where
  "cl_newConnection ctl app inl sockfd w =
     check inl (Fatal 101)
    (let peer = getPeerAddr (peer_names w sockfd)
     in check (cl_nextConnId w < 2 ^ 31 - 1) (Undefined 105)
       (let connName = client_key (toHostPort peer) (cl_nextConnId w);
            w = w\<lparr>cl_nextConnId := cl_nextConnId w + 1\<rparr>;
            local = getLocalAddr (local_names w sockfd)
        in case fresh_conns w of
             [] \<Rightarrow> Inl (Thrown 111)
           | (a, ca) # rest \<Rightarrow>
               rbind (new_TcpConnection (self w) connName sockfd local peer a ca (w\<lparr>fresh_conns := rest\<rparr>)) (\<lambda>w.
               rbind (conn_at 117 a w) (\<lambda>c.
               let c = setConnectionCallback (cl_connectionCallback w) c;
                   c = setMessageCallback (cl_messageCallback w) c;
                   c = setWriteCompleteCallback (cl_writeCompleteCallback w) c;
                   c = conn_setCloseCallback (Some 0) c;
                   w = (put_conn a c w)\<lparr>connection := Some a\<rparr>
               in connectEstablished ctl (client_usr ctl app inl) inl a w))))"

text \<open>The destructor: an open connection is left with a close callback that outlives the client.\<close>

definition set_close :: "conn_addr \<Rightarrow> nat \<Rightarrow> 'a client_world_scheme \<Rightarrow> 'a client_world_scheme result" where
  "set_close a cb w = rbind (conn_at 58 a w) (\<lambda>c. Inr (put_conn a (conn_setCloseCallback (Some cb) c) w))"

definition delete_TcpClient :: "bool \<Rightarrow> 'a client_world_scheme \<Rightarrow> 'a client_world_scheme result" where
  "delete_TcpClient inl w =
     (case connection w of
        Some a \<Rightarrow> if inl then set_close a 1 w else Inr (queueInLoop inl (SetCloseCallback a 1) w)
      | None \<Rightarrow> Inr (snd (runAfter 1000 RemoveConnector (cn_stop w))))"

section \<open>The functors and handlers of the loop of the client\<close>

definition client_call ::
  "epoll_ctl \<Rightarrow> (user_call \<Rightarrow> 'a client_world_scheme \<Rightarrow> 'a client_world_scheme result)
   \<Rightarrow> (task \<Rightarrow> 'a client_world_scheme \<Rightarrow> 'a client_world_scheme result)
   \<Rightarrow> task \<Rightarrow> 'a client_world_scheme \<Rightarrow> 'a client_world_scheme result" where
  "client_call ctl app other t w =
     (case t of
        ConnWrite a \<Rightarrow> handleWrite ctl True a w
      | ConnClose a \<Rightarrow> handleClose ctl (client_usr ctl app True) True a w
      | ConnError a \<Rightarrow> handleError a w
      | SendInLoop a m \<Rightarrow> sendInLoop ctl True m a w
      | ShutdownInLoop a \<Rightarrow> shutdownInLoop True a w
      | WriteComplete cb a \<Rightarrow> app (OnWriteComplete cb a) w
      | ConnectDestroyed a \<Rightarrow> connectDestroyed ctl (client_usr ctl app True) True a w
      | ConnectorWrite _ \<Rightarrow> cn_handleWrite ctl (cl_newConnection ctl app True) True w
      | ConnectorError _ \<Rightarrow> cn_handleError ctl True w
      | ConnectorStart _ \<Rightarrow> startInLoop ctl True w
      | ConnectorReset _ \<Rightarrow> resetChannel True w
      | SetCloseCallback a cb \<Rightarrow> set_close a cb w
      | RemoveConnector \<Rightarrow> Inr w
      | _ \<Rightarrow> other t w)"

definition client_callr ::
  "epoll_ctl \<Rightarrow> (user_call \<Rightarrow> 'a client_world_scheme \<Rightarrow> 'a client_world_scheme result)
   \<Rightarrow> (task \<Rightarrow> 'a client_world_scheme \<Rightarrow> 'a client_world_scheme result)
   \<Rightarrow> timestamp \<Rightarrow> task \<Rightarrow> 'a client_world_scheme \<Rightarrow> 'a client_world_scheme result" where
  "client_callr ctl app other receiveTime t w =
     (case t of
        ConnRead a \<Rightarrow> handleRead ctl (client_usr ctl app True) True receiveTime a w
      | LoopRead \<Rightarrow> Inr (handleWakeup w)
      | _ \<Rightarrow> other t w)"

section \<open>Lemmas\<close>

text \<open>\<open>connectEstablished\<close> up to the user's callback, with everything it leaves alone.\<close>

lemma establish_ok:
  assumes doc: "epoll_documented ctl" and ok: "ep_ok w"
    and c: "conns w a = Some c" "conn_state c = KConnecting" "connectionCallback c = Some g"
    and ch: "chans w (chan_of c) = Some ch" "fd ch = sock c" "loop ch = self w" "events ch = kNoneEvent"
    and free: "channels w (sock c) = None"
  shows "\<exists>h m k i. h = (chans w)(chan_of c \<mapsto> ch\<lparr>events := kReadEvent, index := i\<rparr>)
    \<and> m = (channels w)(sock c \<mapsto> chan_of c)
    \<and> ep_ok ((put_conn a (setState KConnected c) w)\<lparr>chans := h, channels := m, kernel := k\<rparr>)
    \<and> connectEstablished ctl usr True a w
      = usr (OnConnection g a) ((put_conn a (setState KConnected c) w)\<lparr>chans := h, channels := m, kernel := k\<rparr>)"
proof -
  let ?w0 = "put_conn a (setState KConnected c) w"
  have zero: "x OR kReadEvent = kReadEvent" if "x = kNoneEvent" for x :: events
    using that by (simp add: kNoneEvent_def)
  obtain u i where u: "enableReading (loop_updateChannel ctl True) (chan_of c) ?w0 = Inr u" "ep_ok u"
    "channels u = (channels w)(sock c \<mapsto> chan_of c)"
    "chans u = (chans w)(chan_of c \<mapsto> ch\<lparr>events := kReadEvent, index := i\<rparr>)"
    "u = ?w0\<lparr>chans := chans u, channels := channels u, kernel := kernel u\<rparr>"
    using loop_change_ok[OF doc, of ?w0 "chan_of c" ch 72 "\<lambda>e. e OR kReadEvent"] ok ch free
    by (auto simp: enableReading_def zero)
  have "connectEstablished ctl usr True a w = usr (OnConnection g a) u"
    using c u(1) by (simp add: connectEstablished_def call_user_def)
  then show ?thesis
    using u(2-5) by (intro exI[of _ "chans u"] exI[of _ "channels u"] exI[of _ "kernel u"] exI[of _ i]) simp
qed

lemma new_Buffer_default:
  "new_Buffer = Inr \<lparr>buf = replicate 1032 zero_byte, readerIndex = 8, writerIndex = 8\<rparr>"
  by (rule new_Buffer_eq)

text \<open>\<open>newConnection\<close> of the client: the connection is made, remembered and established.\<close>

lemma cl_newConnection_ok:
  assumes doc: "epoll_documented ctl" and ok: "ep_ok w"
    and id: "cl_nextConnId w < 2 ^ 31 - 1" and fresh: "fresh_conns w = (a, ca) # rest" "chans w ca = None"
    and free: "channels w n = None" and cb: "cl_connectionCallback w = Some g"
    and app: "\<And>v. \<exists>v'. app (OnConnection g a) v = Inr v' \<and> same_conns v v'
      \<and> connection v' = connection v \<and> cn_state v' = cn_state v"
  shows "\<exists>w' c. cl_newConnection ctl app True n w = Inr w' \<and> connection w' = Some a \<and> ep_ok w'
    \<and> conns w' a = Some c \<and> conn_state c = KConnected \<and> sock c = n
    \<and> conn_name c = client_key (toHostPort (getPeerAddr (peer_names w n))) (cl_nextConnId w)
    \<and> asked_events w' n = kReadEvent \<and> cn_state w' = cn_state w"
proof -
  define nm where "nm = client_key (toHostPort (getPeerAddr (peer_names w n))) (cl_nextConnId w)"
  define ch where "ch = (new_Channel (self w) n)\<lparr>readCallback := Some (ConnRead a),
      writeCallback := Some (ConnWrite a), closeCallback := Some (ConnClose a), errorCallback := Some (ConnError a)\<rparr>"
  define b0 where "b0 = \<lparr>buf = replicate 1032 zero_byte, readerIndex = 8, writerIndex = 8\<rparr>"
  define c where "c = \<lparr>conn_loop = self w, conn_name = nm, conn_state = KConnecting, sock = n, chan_of = ca,
     localAddr = getLocalAddr (local_names w n), peerAddr = getPeerAddr (peer_names w n),
     connectionCallback = Some g, messageCallback = cl_messageCallback w, conn_closeCallback = Some 0,
     writeCompleteCallback = cl_writeCompleteCallback w, highWaterMarkCallback = None, highWaterMark = 0,
     inputBuffer = b0, outputBuffer = b0\<rparr>"
  let ?w1 = "w\<lparr>cl_nextConnId := cl_nextConnId w + 1, fresh_conns := rest, chans := (chans w)(ca \<mapsto> ch),
    conns := (conns w)(a \<mapsto> c), connection := Some a\<rparr>"
  have run: "cl_newConnection ctl app True n w = connectEstablished ctl (client_usr ctl app True) True a ?w1"
    using id fresh cb
    by (simp add: cl_newConnection_def Let_def new_TcpConnection_def new_Buffer_default put_conn_def put_chan_def
        setReadCallback_def setWriteCallback_def setCloseCallback_def setErrorCallback_def
        setConnectionCallback_def setMessageCallback_def setWriteCompleteCallback_def
        conn_setCloseCallback_def conn_at_def nm_def[symmetric] c_def ch_def b0_def)
  have "ep_ok (put_chan ca ch w)"
    using ok fresh(2) by (intro ep_ok_fresh) (simp_all add: ch_def new_Channel_def kNew_def)
  then have ok1: "ep_ok ?w1" by (subst ep_ok_cong[of _ "put_chan ca ch w"]) (simp_all add: put_chan_def)
  have "conns ?w1 a = Some c" "conn_state c = KConnecting" "connectionCallback c = Some g"
    "chans ?w1 (chan_of c) = Some ch" "fd ch = sock c" "loop ch = self ?w1" "events ch = kNoneEvent"
    "channels ?w1 (sock c) = None"
    using free by (simp_all add: c_def ch_def new_Channel_def kNoneEvent_def)
  from establish_ok[OF doc ok1 this, of "client_usr ctl app True"] obtain h m k i where
    h: "h = (chans ?w1)(chan_of c \<mapsto> ch\<lparr>events := kReadEvent, index := i\<rparr>)"
      "m = (channels ?w1)(sock c \<mapsto> chan_of c)"
    and oku: "ep_ok ((put_conn a (setState KConnected c) ?w1)\<lparr>chans := h, channels := m, kernel := k\<rparr>)"
    and est: "connectEstablished ctl (client_usr ctl app True) True a ?w1 = client_usr ctl app True (OnConnection g a)
      ((put_conn a (setState KConnected c) ?w1)\<lparr>chans := h, channels := m, kernel := k\<rparr>)" by blast
  let ?u = "(put_conn a (setState KConnected c) ?w1)\<lparr>chans := h, channels := m, kernel := k\<rparr>"
  obtain v where v: "app (OnConnection g a) ?u = Inr v" "same_conns ?u v" "connection v = connection ?u"
    "cn_state v = cn_state ?u" using app by blast
  have okv: "ep_ok v" using oku v(2) ep_ok_cong[of v ?u] by (simp add: same_conns_def)
  have sc: "sock c = n" "chan_of c = ca" by (simp_all add: c_def)
  have "asked_events v n = kReadEvent"
    using event_poller.asked_ok[OF epoll_event_poller[OF doc] okv, of n] v(2) h sc
    by (simp add: same_conns_def)
  moreover have "connection v = Some a" "cn_state v = cn_state w" "conns v a = Some (setState KConnected c)"
    using v(2-4) by (simp_all add: put_conn_def same_conns_def)
  moreover have "cl_newConnection ctl app True n w = Inr v"
    using run est v(1) by (simp add: client_usr_def)
  ultimately show ?thesis
    using okv by (intro exI[of _ v] exI[of _ "setState KConnected c"]) (simp add: setState_def c_def nm_def)
qed

section \<open>Properties\<close>

text \<open>The two halves of connecting: the first attempt, and what is done when it succeeds.\<close>

definition same_client :: "'a client_world_scheme \<Rightarrow> 'a client_world_scheme \<Rightarrow> bool" where
  "same_client w v \<longleftrightarrow> self v = self w \<and> so_error v = so_error w \<and> local_names v = local_names w \<and> peer_names v = peer_names w
     \<and> fresh_conns v = fresh_conns w \<and> cl_nextConnId v = cl_nextConnId w \<and> cl_connectionCallback v = cl_connectionCallback w"

lemma connect_starts:
  fixes w :: "'a client_world_scheme"
  assumes doc: "epoll_documented ctl" and ok: "ep_ok w" and st: "cn_state w = CDisconnected" "cn_channel w = None"
    and ans: "socket_answers w = n # ns" "0 \<le> n" "connect_answers w = EINPROGRESS # es"
    and fresh: "fresh_chans w = ca0 # rest0" "chans w ca0 = None" "channels w n = None"
  shows "\<exists>w1 ch. cl_connect_op ctl True w = Inr w1 \<and> ep_ok w1 \<and> cn_state w1 = CConnecting \<and> cn_connect w1
    \<and> asked_events w1 n = kWriteEvent \<and> cn_channel w1 = Some ca0 \<and> chans w1 = (chans w)(ca0 \<mapsto> ch)
    \<and> channels w1 = (channels w)(n \<mapsto> ca0) \<and> fd ch = n \<and> loop ch = self w \<and> same_client w w1"
proof -
  let ?u = "w\<lparr>cl_connect := True, cn_connect := True, socket_answers := ns, connect_answers := es\<rparr>"
  have "ep_ok ?u" using ok by (simp add: ep_ok_cong[of ?u w])
  from connecting_ok[OF doc this, of ca0 rest0 n] st fresh obtain h m k i where
    run: "connecting ctl True n ?u = Inr (?u\<lparr>cn_state := CConnecting, fresh_chans := rest0,
      cn_channel := Some ca0, chans := h, channels := m, kernel := k\<rparr>)"
    and ok1: "ep_ok (?u\<lparr>cn_state := CConnecting, fresh_chans := rest0,
      cn_channel := Some ca0, chans := h, channels := m, kernel := k\<rparr>)"
    and h: "h = (chans w)(ca0 \<mapsto> (connector_chan (self w) n)\<lparr>events := kWriteEvent, index := i\<rparr>)"
      "m = (channels w)(n \<mapsto> ca0)" by auto
  let ?w1 = "?u\<lparr>cn_state := CConnecting, fresh_chans := rest0, cn_channel := Some ca0,
    chans := h, channels := m, kernel := k\<rparr>"
  let ?ch = "(connector_chan (self w) n)\<lparr>events := kWriteEvent, index := i\<rparr>"
  have "cl_connect_op ctl True w = Inr ?w1"
    using st ans run
    by (simp add: cl_connect_op_def cn_start_def startInLoop_def connect_def sys_socket_def sys_connect_def
        createNonblockingOrDie_def)
  moreover have "asked_events ?w1 n = kWriteEvent"
    using event_poller.asked_ok[OF epoll_event_poller[OF doc] ok1, of n] h by simp
  moreover have "fd ?ch = n" "loop ?ch = self w"
    by (simp_all add: connector_chan_def setErrorCallback_def setWriteCallback_def new_Channel_def)
  ultimately show ?thesis using ok1 h by (intro exI[of _ ?w1] exI[of _ ?ch]) (simp add: same_client_def)
qed

lemma connected_hands_over:
  fixes w :: "'a client_world_scheme"
  assumes doc: "epoll_documented ctl" and ok: "ep_ok w" and cn: "cn_channel w = Some ca0" "cn_connect w" "cn_state w = CConnecting"
    and ch: "chans w ca0 = Some ch" "channels w n = Some ca0" "fd ch = n" "loop ch = self w"
    and ans: "so_error w n = Inr 0" "\<not> isSelfConnect (local_names w n) (peer_names w n)"
  shows "\<exists>x. cn_handleWrite ctl newc True w = newc n x \<and> ep_ok x \<and> cn_state x = CConnected \<and> channels x = (channels w)(n := None)
    \<and> (\<forall>b. b \<noteq> ca0 \<longrightarrow> chans x b = chans w b) \<and> same_client w x"
proof -
  have pre: "channels w (fd ch) = Some ca0" using ch by simp
  from removeAndResetChannel_ok[OF doc ok cn(1) ch(1) pre ch(4)] obtain h m k where
    rem: "removeAndResetChannel ctl True w = Inr (fd ch, queueInLoop True (ConnectorReset 0) (w\<lparr>chans := h, channels := m, kernel := k\<rparr>))"
    and ok2: "ep_ok (w\<lparr>chans := h, channels := m, kernel := k\<rparr>)"
    and h: "m = (channels w)(fd ch := None)" "h = (chans w)(ca0 \<mapsto> ch\<lparr>events := kNoneEvent, index := kNew\<rparr>)" by blast
  let ?v = "queueInLoop True (ConnectorReset 0) (w\<lparr>chans := h, channels := m, kernel := k\<rparr>)"
  let ?x = "?v\<lparr>cn_state := CConnected\<rparr>"
  have q: "same_client w ?x" "cn_connect ?v = cn_connect w"
    by (simp_all add: same_client_def queueInLoop_def push_pending_def wakeup_def Let_def)
  have qs: "chans ?v = h" "channels ?v = m" "kernel ?v = k"
    using queueInLoop_same(1)[of "w\<lparr>chans := h, channels := m, kernel := k\<rparr>" True "ConnectorReset 0"]
    by (simp_all add: same_conns_def)
  have "cn_handleWrite ctl newc True w = newc n ?x"
    using rem q cn ans unfolding ch(3) same_client_def by (simp add: cn_handleWrite_def getSocketError_def cn_setState_def)
  moreover have "ep_ok ?x" using ok2 qs by (subst ep_ok_cong[of _ "w\<lparr>chans := h, channels := m, kernel := k\<rparr>"]) simp_all
  ultimately show ?thesis using h q(1) qs ch(3) by (intro exI[of _ ?x]) simp
qed

text \<open>C8: A connection of the client is set up in two steps. \<open>connect\<close> starts a connection and has the
  poller watch its descriptor for writing; when it becomes writable without a pending error
  and without being connected to itself, the connector gives the descriptor up and hands it to
  the client, which remembers a connection in state \<open>kConnected\<close> under its name and has the
  poller watch the same descriptor for reading, now for the connection.\<close>

theorem client_connects:
  fixes w :: "'a client_world_scheme"
  assumes doc: "epoll_documented ctl" and ok: "ep_ok w"
    and st: "cn_state w = CDisconnected" "cn_channel w = None"
    and ans: "socket_answers w = n # ns" "0 \<le> n" "connect_answers w = EINPROGRESS # es" "so_error w n = Inr 0"
      "\<not> isSelfConnect (local_names w n) (peer_names w n)"
    and fresh: "fresh_chans w = ca0 # rest0" "fresh_conns w = (a, ca) # rest" "ca \<noteq> ca0"
      "chans w ca0 = None" "chans w ca = None" "channels w n = None"
    and id: "cl_nextConnId w < 2 ^ 31 - 1" and cb: "cl_connectionCallback w = Some g"
    and app: "\<And>v. \<exists>v'. app (OnConnection g a) v = Inr v' \<and> same_conns v v'
      \<and> connection v' = connection v \<and> cn_state v' = cn_state v"
  shows "\<exists>w1 w2 c. cl_connect_op ctl True w = Inr w1 \<and> cn_state w1 = CConnecting
    \<and> asked_events w1 n = kWriteEvent
    \<and> client_call ctl app other (ConnectorWrite 0) w1 = Inr w2 \<and> cn_state w2 = CConnected
    \<and> connection w2 = Some a \<and> conns w2 a = Some c \<and> conn_state c = KConnected \<and> sock c = n
    \<and> conn_name c = client_key (toHostPort (getPeerAddr (peer_names w n))) (cl_nextConnId w)
    \<and> asked_events w2 n = kReadEvent \<and> ep_ok w2"
proof -
  from connect_starts[OF doc ok st ans(1-3) fresh(1,4,6)] obtain w1 ch where w1: "cl_connect_op ctl True w = Inr w1" "ep_ok w1"
    "cn_state w1 = CConnecting" "cn_connect w1" "asked_events w1 n = kWriteEvent" "cn_channel w1 = Some ca0"
    "chans w1 = (chans w)(ca0 \<mapsto> ch)" "channels w1 = (channels w)(n \<mapsto> ca0)" "fd ch = n" "loop ch = self w" "same_client w w1"
    by blast
  have pre: "chans w1 ca0 = Some ch" "channels w1 n = Some ca0" "loop ch = self w1" "so_error w1 n = Inr 0"
    "\<not> isSelfConnect (local_names w1 n) (peer_names w1 n)"
    using w1(7-11) ans(4,5) by (simp_all add: same_client_def)
  from connected_hands_over[OF doc w1(2,6,4,3) pre(1,2) w1(9) pre(3-5), of "cl_newConnection ctl app True"] obtain x where
    x: "cn_handleWrite ctl (cl_newConnection ctl app True) True w1 = cl_newConnection ctl app True n x" "ep_ok x"
      "cn_state x = CConnected" "channels x = (channels w1)(n := None)" "\<forall>b. b \<noteq> ca0 \<longrightarrow> chans x b = chans w1 b" "same_client w1 x"
    by blast
  have fx: "cl_nextConnId x < 2 ^ 31 - 1" "fresh_conns x = (a, ca) # rest" "chans x ca = None" "channels x n = None"
    "cl_connectionCallback x = Some g"
    using id fresh cb w1(7,11) x(4-6) by (simp_all add: same_client_def)
  have "\<exists>w2 c. cl_newConnection ctl app True n x = Inr w2 \<and> connection w2 = Some a \<and> ep_ok w2
    \<and> conns w2 a = Some c \<and> conn_state c = KConnected \<and> sock c = n
    \<and> conn_name c = client_key (toHostPort (getPeerAddr (peer_names x n))) (cl_nextConnId x)
    \<and> asked_events w2 n = kReadEvent \<and> cn_state w2 = cn_state x"
    by (rule cl_newConnection_ok[OF doc x(2) fx]) (rule app)
  moreover have "peer_names x = peer_names w" "cl_nextConnId x = cl_nextConnId w"
    using w1(11) x(6) by (simp_all add: same_client_def)
  ultimately show ?thesis using w1(1,3,5) x(1,3) by (auto simp: client_call_def)
qed

definition wit_client :: client_world where
  "wit_client = connector_world.extend (wit_connector [EINPROGRESS])
     (client_world.fields (Some 0) (Some 1) None False True 1 None [(20, 9)])"

lemma wit_client_simps:
  "cn_state wit_client = CDisconnected" "cn_channel wit_client = None"
  "socket_answers wit_client = 5 # [6, 7]" "connect_answers wit_client = EINPROGRESS # []"
  "so_error wit_client 5 = Inr 0" "local_names wit_client 5 = None"
  "peer_names wit_client 5 = Some (InetAddress_port 80)" "fresh_chans wit_client = 7 # []"
  "fresh_conns wit_client = (20, 9) # []" "chans wit_client = Map.empty" "channels wit_client = Map.empty"
  "kernel wit_client = Map.empty" "cl_nextConnId wit_client = 1" "cl_connectionCallback wit_client = Some 0"
  by (simp_all add: wit_client_def wit_connector_def connector_world.defs client_world.defs)

theorem client_connects_witness:
  "\<exists>w1 w2. cl_connect_op linux_ctl True wit_client = Inr w1
    \<and> client_call linux_ctl (\<lambda>_. Inr) (\<lambda>_. Inr) (ConnectorWrite 0) w1 = Inr w2
    \<and> connection w2 = Some 20 \<and> asked_events w2 5 = kReadEvent"
proof -
  have ok: "ep_ok wit_client" by (simp add: ep_ok_def wit_client_simps)
  have self: "\<not> isSelfConnect (local_names wit_client 5) (peer_names wit_client 5)"
    by (simp add: wit_client_simps isSelfConnect_def getLocalAddr_def getPeerAddr_def zero_sockaddr_def
        InetAddress_port_def hostToNetwork16_def)
  have h: "0 \<le> (5::int)" "(9::nat) \<noteq> 7" "chans wit_client 7 = None" "chans wit_client 9 = None"
    "channels wit_client 5 = None" "cl_nextConnId wit_client < 2 ^ 31 - 1"
    by (simp_all add: wit_client_simps)
  have app: "\<exists>v'. (\<lambda>_. Inr) (OnConnection 0 20) v = Inr v' \<and> same_conns v v'
      \<and> connection v' = connection v \<and> cn_state v' = cn_state v" for v :: client_world by simp
  show ?thesis
    using client_connects[OF linux_ctl_documented ok wit_client_simps(1,2,3) h(1) wit_client_simps(4,5) self
        wit_client_simps(8,9) h(2-6) wit_client_simps(14), of "\<lambda>_. Inr"] app by blast
qed

end
