(* ===== verification/Dates.thy ===== *)
theory Dates
  imports Timestamps
begin

text \<open>
  Gregorian dates as Julian day numbers: src/base/datetime/Date.h, Date.cc. C's division
  truncates and is written \<open>sdiv\<close>, its remainder \<open>smod\<close>. Numbers are unbounded here; the
  properties bound them by what fits into \<open>int\<close>.
\<close>

section \<open>Definitions\<close>

record yearMonthDay =
  ymd_year :: int
  ymd_month :: int
  ymd_day :: int

definition getJulianDayNumber :: "int \<Rightarrow> int \<Rightarrow> int \<Rightarrow> int" where
  "getJulianDayNumber year month day =
     (let a = (14 - month) sdiv 12;
          y = year + 4800 - a;
          m = month + 12 * a - 3
      in day + (153 * m + 2) sdiv 5 + y * 365 + y sdiv 4 - y sdiv 100 + y sdiv 400 - 32045)"

definition getYearMonthDay :: "int \<Rightarrow> yearMonthDay" where
  "getYearMonthDay julianDayNumber =
     (let a = julianDayNumber + 32044;
          b = (4 * a + 3) sdiv 146097;
          c = a - ((b * 146097) sdiv 4);
          d = (4 * c + 3) sdiv 1461;
          e = c - ((1461 * d) sdiv 4);
          m = (5 * e + 2) sdiv 153
      in \<lparr>ymd_year = b * 100 + d - 4800 + (m sdiv 10),
          ymd_month = m + 3 - 12 * (m sdiv 10),
          ymd_day = e - ((153 * m + 2) sdiv 5) + 1\<rparr>)"

type_synonym date = int \<comment> \<open>\<open>julianDayNumber_\<close>\<close>

definition kDaysPerWeek :: int where "kDaysPerWeek = 7"
definition kJulianDayOf1970_01_01 :: int where "kJulianDayOf1970_01_01 = getJulianDayNumber 1970 1 1"

definition Date_default :: date where "Date_default = 0"
definition Date_ymd :: "int \<Rightarrow> int \<Rightarrow> int \<Rightarrow> date" where "Date_ymd y m d = getJulianDayNumber y m d"
definition Date_julian :: "int \<Rightarrow> date" where "Date_julian j = j"
definition julianDayNumber :: "date \<Rightarrow> int" where "julianDayNumber d = d"
definition date_swap :: "date \<Rightarrow> date \<Rightarrow> date \<times> date" where "date_swap d that = (that, d)"
definition date_less :: "date \<Rightarrow> date \<Rightarrow> bool" where "date_less x y \<longleftrightarrow> julianDayNumber x < julianDayNumber y"
definition date_equal :: "date \<Rightarrow> date \<Rightarrow> bool" where "date_equal x y \<longleftrightarrow> julianDayNumber x = julianDayNumber y"
definition date_valid :: "date \<Rightarrow> bool" where "date_valid d \<longleftrightarrow> d > 0"
definition date_yearMonthDay :: "date \<Rightarrow> yearMonthDay" where "date_yearMonthDay d = getYearMonthDay d"
definition date_year :: "date \<Rightarrow> int" where "date_year d = ymd_year (date_yearMonthDay d)"
definition date_month :: "date \<Rightarrow> int" where "date_month d = ymd_month (date_yearMonthDay d)"
definition date_day :: "date \<Rightarrow> int" where "date_day d = ymd_day (date_yearMonthDay d)"
definition weekDay :: "date \<Rightarrow> int" where "weekDay d = (d + 1) smod kDaysPerWeek"

text \<open>\<open>%4d-%02d-%02d\<close> into 32 bytes.\<close>

definition toIsoString :: "date \<Rightarrow> string" where
  "toIsoString d =
     (let ymd = date_yearMonthDay d
      in take 31 (dec_width 4 (ymd_year ymd) @ CHR ''-'' # dec_zero 2 (ymd_month ymd)
                  @ CHR ''-'' # dec_zero 2 (ymd_day ymd)))"

section \<open>The calendar\<close>

definition leap_year :: "int \<Rightarrow> bool" where
  "leap_year y \<longleftrightarrow> 4 dvd y \<and> (\<not> 100 dvd y \<or> 400 dvd y)"

definition days_in_month :: "int \<Rightarrow> int \<Rightarrow> int" where
  "days_in_month y m = (if m = 2 then if leap_year y then 29 else 28
     else if m \<in> {4, 6, 9, 11} then 30 else 31)"

definition calendar_date :: "int \<Rightarrow> int \<Rightarrow> int \<Rightarrow> bool" where
  "calendar_date y m d \<longleftrightarrow> 1 \<le> m \<and> m \<le> 12 \<and> 1 \<le> d \<and> d \<le> days_in_month y m"

section \<open>Lemmas\<close>

lemma div_bounds: "0 < k \<Longrightarrow> k * (n div k) \<le> n" "0 < k \<Longrightarrow> n < k * (n div k) + k" for n k :: int
  using pos_mod_sign[of k n] pos_mod_bound[of k n] mult_div_mod_eq[of k n] by linarith+

lemma div_eqI: "k * q \<le> n \<Longrightarrow> n < k * q + k \<Longrightarrow> n div k = q" for n k q :: int
  by (rule int_div_pos_eq[of _ _ _ "n - k * q"]) auto

lemma div_obtain:
  fixes k n :: int
  assumes "0 < k"
  obtains q where "n div k = q" "k * q \<le> n" "n < k * q + k"
  using div_bounds[OF assms] by blast

text \<open>
  Both functions count from a day in March: with \<open>cy\<close> the year that begins in March, \<open>cm\<close> the
  month in it and \<open>k\<close> the day in it, the day number is that of the first day of the year plus \<open>k\<close>.
\<close>

definition march_day :: "int \<Rightarrow> int" where
  "march_day cy = 365 * cy + cy div 4 - cy div 100 + cy div 400"

lemma julian_march:
  assumes mo: "1 \<le> month" "month \<le> 12" and y: "(if month \<le> 2 then 1 else 0) \<le> year + 4800"
  defines "a \<equiv> (if month \<le> 2 then 1 else 0)"
  shows "getJulianDayNumber year month day
    = march_day (year + 4800 - a) + (153 * (month + 12 * a - 3) + 2) div 5 + day - 32045"
proof -
  have a: "(14 - month) sdiv 12 = a"
  proof -
    have "(14 - month) sdiv 12 = (14 - month) div 12" using assms by (intro sdiv_nonneg) auto
    also have "... = a" using assms by (auto intro!: div_eqI simp: a_def)
    finally show ?thesis .
  qed
  have "0 \<le> year + 4800 - a" "0 \<le> 153 * (month + 12 * a - 3) + 2" using assms by auto
  then show ?thesis
    unfolding getJulianDayNumber_def Let_def a by (simp add: sdiv_nonneg march_day_def)
qed

lemma march_split:
  assumes "0 \<le> b" "0 \<le> d" "d < 100"
  shows "march_day (100 * b + d) = (b * 146097) div 4 + (1461 * d) div 4"
proof -
  obtain q where q: "d div 4 = q" "4 * q \<le> d" "d < 4 * q + 4" by (rule div_obtain[of 4 d]) simp
  obtain r where r: "b div 4 = r" "4 * r \<le> b" "b < 4 * r + 4" by (rule div_obtain[of 4 b]) simp
  have "(100 * b + d) div 100 = b" "(100 * b + d) div 400 = r" "(b * 146097) div 4 = 36524 * b + r"
    "(100 * b + d) div 4 = 25 * b + q" "(1461 * d) div 4 = 365 * d + q"
    using assms q(2,3) r(2,3) by (auto intro!: div_eqI)
  then show ?thesis by (simp add: march_day_def)
qed

text \<open>From a day number to the date and back.\<close>

lemma ymd_of_julian:
  fixes j :: int
  assumes nn: "0 \<le> j + 32044"
  defines "a \<equiv> j + 32044"
  defines "b \<equiv> (4 * a + 3) div 146097"
  defines "c \<equiv> a - (b * 146097) div 4"
  defines "d \<equiv> (4 * c + 3) div 1461"
  defines "e \<equiv> c - (1461 * d) div 4"
  defines "m \<equiv> (5 * e + 2) div 153"
  shows "getYearMonthDay j = \<lparr>ymd_year = b * 100 + d - 4800 + m div 10,
      ymd_month = m + 3 - 12 * (m div 10), ymd_day = e - (153 * m + 2) div 5 + 1\<rparr>"
    and "0 \<le> b" "0 \<le> c" "c \<le> 36524" "0 \<le> d" "d < 100" "0 \<le> e" "e \<le> 365" "0 \<le> m" "m \<le> 11"
proof -
  have a: "0 \<le> a" using nn by (simp add: a_def)
  show b: "0 \<le> b" using a by (simp add: b_def)
  have B: "146097 * b \<le> 4 * a + 3" "4 * a + 3 < 146097 * b + 146097"
    unfolding b_def by (rule div_bounds, simp)+
  obtain p where p: "(b * 146097) div 4 = p" "4 * p \<le> b * 146097" "b * 146097 < 4 * p + 4"
    by (rule div_obtain[of 4 "b * 146097"]) simp
  show c: "0 \<le> c" "c \<le> 36524" unfolding c_def p(1) using B p(2,3) by linarith+
  have D: "1461 * d \<le> 4 * c + 3" "4 * c + 3 < 1461 * d + 1461"
    unfolding d_def by (rule div_bounds, simp)+
  show d: "0 \<le> d" "d < 100" using c D by linarith+
  obtain r where r: "(1461 * d) div 4 = r" "4 * r \<le> 1461 * d" "1461 * d < 4 * r + 4"
    by (rule div_obtain[of 4 "1461 * d"]) simp
  show e: "0 \<le> e" "e \<le> 365" unfolding e_def r(1) using D r(2,3) by linarith+
  have M: "153 * m \<le> 5 * e + 2" "5 * e + 2 < 153 * m + 153"
    unfolding m_def by (rule div_bounds, simp)+
  show m: "0 \<le> m" "m \<le> 11" using e M by linarith+
  have s: "(4 * a + 3) sdiv 146097 = b" "(b * 146097) sdiv 4 = (b * 146097) div 4"
    "(4 * c + 3) sdiv 1461 = d" "(1461 * d) sdiv 4 = (1461 * d) div 4" "(5 * e + 2) sdiv 153 = m"
    "m sdiv 10 = m div 10" "(153 * m + 2) sdiv 5 = (153 * m + 2) div 5"
    using a b c d e m by (simp_all add: sdiv_nonneg b_def[symmetric] d_def[symmetric] m_def[symmetric])
  show "getYearMonthDay j = \<lparr>ymd_year = b * 100 + d - 4800 + m div 10,
      ymd_month = m + 3 - 12 * (m div 10), ymd_day = e - (153 * m + 2) div 5 + 1\<rparr>"
    unfolding getYearMonthDay_def Let_def a_def[symmetric] s c_def[symmetric] e_def[symmetric] ..
qed

lemma month_tens: "0 \<le> m \<Longrightarrow> m \<le> 11 \<Longrightarrow> m div 10 = (if m \<le> 9 then 0 else 1)" for m :: int
  by (auto intro!: div_eqI)

lemma julian_of_ymd:
  assumes "0 \<le> b" "0 \<le> d" "d < 100" "0 \<le> m" "m \<le> 11"
  shows "getJulianDayNumber (b * 100 + d - 4800 + m div 10) (m + 3 - 12 * (m div 10)) day
    = (b * 146097) div 4 + (1461 * d) div 4 + (153 * m + 2) div 5 + day - 32045"
proof (cases "m \<le> 9")
  case True
  then have "m div 10 = 0" using month_tens assms by simp
  then show ?thesis
    using assms True julian_march[of "m + 3" "b * 100 + d - 4800" day] march_split[of b d]
    by (simp add: mult.commute)
next
  case False
  then have "m div 10 = 1" using month_tens assms by simp
  then show ?thesis
    using assms False julian_march[of "m - 9" "b * 100 + d - 4799" day] march_split[of b d]
    by (simp add: mult.commute)
qed

lemma ymd_of_march:
  assumes b: "0 \<le> b" and d: "0 \<le> d" "d < 100" and m: "0 \<le> m" "m \<le> 11"
    and k: "0 \<le> k" "153 * m \<le> 5 * k + 2" "5 * k + 2 < 153 * m + 153"
    and leap: "k \<le> 364 \<or> k \<le> 365 \<and> d mod 4 = 3 \<and> (d \<noteq> 99 \<or> b mod 4 = 3)"
    and j: "j + 32044 = (b * 146097) div 4 + (1461 * d) div 4 + k"
  shows "getYearMonthDay j = \<lparr>ymd_year = b * 100 + d - 4800 + m div 10,
      ymd_month = m + 3 - 12 * (m div 10), ymd_day = k - (153 * m + 2) div 5 + 1\<rparr>"
proof -
  obtain bq bm where bq: "b = 4 * bq + bm" "0 \<le> bm" "bm < 4" "bm = b mod 4"
    using mult_div_mod_eq[of 4 b] pos_mod_bound[of 4 b] pos_mod_sign[of 4 b] by (metis zero_less_numeral)
  obtain dq dm where dq: "d = 4 * dq + dm" "0 \<le> dm" "dm < 4" "dm = d mod 4"
    using mult_div_mod_eq[of 4 d] pos_mod_bound[of 4 d] pos_mod_sign[of 4 d] by (metis zero_less_numeral)
  have dq': "0 \<le> dq" "dq \<le> 24" using dq(1-3) d by presburger+
  have p: "(b * 146097) div 4 = 36524 * b + bq" and r: "(1461 * d) div 4 = 365 * d + dq"
    using bq(1-3) dq(1-3) by (auto intro!: div_eqI)
  have leap': "k \<le> 364 \<or> k \<le> 365 \<and> dm = 3 \<and> (d \<le> 98 \<or> bm = 3)"
    using leap d bq(4) dq(4) by auto
  have last: "d \<le> 98 \<or> dm = 3"
  proof (cases "d = 99")
    case True
    then show ?thesis using dq(4) by simp
  qed (use d in simp)
  have d1: "dm \<le> d" using dq(1) dq' by simp
  have small: "1461 * d - dm + 4 * k + 3 < 146097 + bm \<and> 4 * k + 3 < 1461 + dm"
    using leap' last d bq(2) dq(2,3) by (elim disjE conjE) simp_all
  have N: "4 * (36524 * b + bq + (365 * d + dq) + k) + 3 = 146097 * b + (1461 * d - dm + 4 * k + 3 - bm)"
    using bq(1) dq(1) by (simp add: algebra_simps)
  have B: "(4 * (j + 32044) + 3) div 146097 = b"
    unfolding j p r N using small d1 bq(3) k(1) dq(2) by (intro div_eqI) simp_all
  have N': "4 * (365 * d + dq + k) + 3 = 1461 * d + (4 * k + 3 - dm)"
    using dq(1) by (simp add: algebra_simps)
  have D: "(4 * (365 * d + dq + k) + 3) div 1461 = d"
    unfolding N' using small dq(3) k(1) by (intro div_eqI) simp_all
  have M: "(5 * k + 2) div 153 = m" using k by (intro div_eqI) auto
  have nn: "0 \<le> j + 32044" unfolding j p r using b d(1) bq(1-3) dq' k(1) by simp
  have c: "j + 32044 - (b * 146097) div 4 = 365 * d + dq + k" unfolding j p r by simp
  have e: "365 * d + dq + k - (1461 * d) div 4 = k" unfolding r by simp
  show ?thesis using ymd_of_julian(1)[OF nn] unfolding B c D e M .
qed

text \<open>A calendar date, counted from March.\<close>

definition march_shift :: "int \<Rightarrow> int" where
  "march_shift m = (if m \<le> 2 then 1 else 0)"

definition march_month :: "int \<Rightarrow> int" where
  "march_month m = m + 12 * march_shift m - 3"

definition year_day :: "int \<Rightarrow> int \<Rightarrow> int" where
  "year_day m d = (153 * march_month m + 2) div 5 + (d - 1)"

lemma month_cases: "1 \<le> m \<Longrightarrow> m \<le> 12 \<Longrightarrow>
    m = 1 \<or> m = 2 \<or> m = 3 \<or> m = 4 \<or> m = 5 \<or> m = 6 \<or> m = 7 \<or> m = 8 \<or> m = 9 \<or> m = 10 \<or> m = 11 \<or> m = (12::int)"
  by presburger

lemma year_day_bounds:
  assumes "calendar_date y m d"
  shows "0 \<le> march_month m" "march_month m \<le> 11" "0 \<le> year_day m d"
    "153 * march_month m \<le> 5 * year_day m d + 2" "5 * year_day m d + 2 < 153 * march_month m + 153"
    "year_day m d \<le> 364 \<or> year_day m d \<le> 365 \<and> m = 2 \<and> leap_year y"
proof -
  have m: "1 \<le> m" "m \<le> 12" and d: "1 \<le> d" "d \<le> days_in_month y m"
    using assms by (simp_all add: calendar_date_def)
  show "0 \<le> march_month m" "march_month m \<le> 11" using m by (simp_all add: march_month_def march_shift_def)
  from month_cases[OF m] d
  show "0 \<le> year_day m d" "153 * march_month m \<le> 5 * year_day m d + 2"
    "5 * year_day m d + 2 < 153 * march_month m + 153"
    "year_day m d \<le> 364 \<or> year_day m d \<le> 365 \<and> m = 2 \<and> leap_year y"
    by (elim disjE; simp add: year_day_def march_month_def march_shift_def days_in_month_def split: if_splits)+
qed

lemma leap_march:
  assumes "leap_year y" "0 \<le> y"
  shows "((y + 4799) mod 100) mod 4 = 3" "(y + 4799) mod 100 = 99 \<Longrightarrow> ((y + 4799) div 100) mod 4 = 3"
proof -
  obtain q where q: "y = 4 * q" using assms(1) by (auto simp: leap_year_def)
  have "((y + 4799) mod 100) mod 4 = (y + 4799) mod 4" by (rule mod_mod_cancel) simp
  also have "... = (3 + 4 * (q + 1199)) mod 4" by (simp add: q)
  also have "... = 3" by (simp only: mod_mult_self2) simp
  finally show "((y + 4799) mod 100) mod 4 = 3" .
  let ?k = "(y + 4799) div 100"
  assume "(y + 4799) mod 100 = 99"
  then have "y = 100 * (?k - 47)" using mult_div_mod_eq[of 100 "y + 4799"] by simp
  then have "100 dvd y" by (rule dvdI)
  then have "400 dvd y" using assms(1) by (simp add: leap_year_def)
  then obtain r where r: "y = 400 * r" by (elim dvdE)
  have "(400 * r + 4799) div 100 = 3 + 4 * (r + 11)" by (intro div_eqI) auto
  then show "?k mod 4 = 3" by (simp only: r mod_mult_self2) simp
qed

lemma julian_inverse:
  assumes "- 32044 \<le> j"
  shows "\<exists>y m d. getYearMonthDay j = \<lparr>ymd_year = y, ymd_month = m, ymd_day = d\<rparr>
    \<and> 1 \<le> m \<and> m \<le> 12 \<and> 1 \<le> d \<and> d \<le> 31 \<and> getJulianDayNumber y m d = j"
proof -
  have nn: "0 \<le> j + 32044" using assms by simp
  note Y = ymd_of_julian[OF nn]
  define a where "a = j + 32044"
  define b where "b = (4 * a + 3) div 146097"
  define c where "c = a - (b * 146097) div 4"
  define d where "d = (4 * c + 3) div 1461"
  define e where "e = c - (1461 * d) div 4"
  define m where "m = (5 * e + 2) div 153"
  note Y = Y[folded a_def, folded b_def, folded c_def, folded d_def, folded e_def, folded m_def]
  have M: "153 * m \<le> 5 * e + 2" "5 * e + 2 < 153 * m + 153"
    unfolding m_def by (rule div_bounds, simp)+
  obtain s where s: "(153 * m + 2) div 5 = s" "5 * s \<le> 153 * m + 2" "153 * m + 2 < 5 * s + 5"
    by (rule div_obtain[of 5 "153 * m + 2"]) simp
  have day: "1 \<le> e - s + 1" "e - s + 1 \<le> 31" using M s(2,3) by linarith+
  have "1 \<le> m + 3 - 12 * (m div 10)" "m + 3 - 12 * (m div 10) \<le> 12"
    using month_tens[OF Y(9,10)] Y(9,10) by auto
  moreover have "getJulianDayNumber (b * 100 + d - 4800 + m div 10) (m + 3 - 12 * (m div 10)) (e - s + 1) = j"
    using julian_of_ymd[OF Y(2,5,6,9,10), of "e - s + 1"] s(1) by (simp add: e_def c_def a_def)
  ultimately show ?thesis using Y(1) day s(1) by blast
qed

lemma julian_bounds:
  fixes b d k j :: int
  assumes "0 \<le> b" "b \<le> 10048" "0 \<le> d" "d < 100" "0 \<le> k" "k \<le> 365"
    and "j + 32044 = (b * 146097) div 4 + (1461 * d) div 4 + k"
  shows "- 32044 \<le> j" "4 * (j + 32044) + 3 < 2 ^ 31"
proof -
  obtain p where p: "(b * 146097) div 4 = p" "4 * p \<le> b * 146097" "b * 146097 < 4 * p + 4"
    by (rule div_obtain[of 4 "b * 146097"]) simp
  obtain q where q: "(1461 * d) div 4 = q" "4 * q \<le> 1461 * d" "1461 * d < 4 * q + 4"
    by (rule div_obtain[of 4 "1461 * d"]) simp
  have "0 \<le> p" "0 \<le> q" using p(2,3) q(2,3) assms(1,3) by linarith+
  with p q assms show "- 32044 \<le> j" "4 * (j + 32044) + 3 < 2 ^ 31" by simp_all
qed

section \<open>Properties\<close>



end
