(* ===== verification/Time_Zones.thy ===== *)
theory Time_Zones
  imports Dates "HOL-Library.Word"
begin

text \<open>
  Broken-down times and time zones: src/base/datetime/TimeZone.h, TimeZone.cc, and
  \<open>Timestamp::toFormattedString\<close> of Timestamp.cpp. A zone file is the list of its bytes.
  \<open>gmtime_r\<close> and \<open>timegm\<close> are the conversions \<open>toUtcTime\<close> and \<open>fromUtcTime\<close>, which follow
  their specification; \<open>timegm\<close> is only used on times whose fields are in range.
\<close>

section \<open>UTC\<close>

record tm =
  tm_sec :: int
  tm_min :: int
  tm_hour :: int
  tm_mday :: int
  tm_mon :: int
  tm_year :: int
  tm_wday :: int
  tm_yday :: int
  tm_isdst :: int
  tm_gmtoff :: int
  tm_zone :: string

definition zero_tm :: tm where
  "zero_tm = \<lparr>tm_sec = 0, tm_min = 0, tm_hour = 0, tm_mday = 0, tm_mon = 0, tm_year = 0,
     tm_wday = 0, tm_yday = 0, tm_isdst = 0, tm_gmtoff = 0, tm_zone = []\<rparr>"

definition kSecondsPerDay :: int where "kSecondsPerDay = 24 * 60 * 60"

definition fillHMS :: "int \<Rightarrow> tm \<Rightarrow> tm" where
  "fillHMS seconds utc =
     (let minutes = seconds div 60
      in utc\<lparr>tm_sec := seconds mod 60, tm_min := minutes mod 60, tm_hour := minutes div 60\<rparr>)"

definition toUtcTime :: "int \<Rightarrow> bool \<Rightarrow> tm" where
  "toUtcTime secondsSinceEpoch yday =
     (let utc = zero_tm\<lparr>tm_zone := ''GMT''\<rparr>;
          seconds = secondsSinceEpoch smod kSecondsPerDay;
          days = secondsSinceEpoch sdiv kSecondsPerDay;
          (seconds, days) = (if seconds < 0 then (seconds + kSecondsPerDay, days - 1) else (seconds, days));
          utc = fillHMS seconds utc;
          date = Date_julian (days + kJulianDayOf1970_01_01);
          ymd = date_yearMonthDay date;
          utc = utc\<lparr>tm_year := ymd_year ymd - 1900, tm_mon := ymd_month ymd - 1,
                    tm_mday := ymd_day ymd, tm_wday := weekDay date\<rparr>
      in if yday
         then let startOfYear = Date_ymd (ymd_year ymd) 1 1
              in utc\<lparr>tm_yday := julianDayNumber date - julianDayNumber startOfYear\<rparr>
         else utc)"

definition fromUtcTime_ymdhms :: "int \<Rightarrow> int \<Rightarrow> int \<Rightarrow> int \<Rightarrow> int \<Rightarrow> int \<Rightarrow> int" where
  "fromUtcTime_ymdhms year month day hour minute seconds =
     (let date = Date_ymd year month day;
          secondsInDay = hour * 3600 + minute * 60 + seconds;
          days = julianDayNumber date - kJulianDayOf1970_01_01
      in days * kSecondsPerDay + secondsInDay)"

definition fromUtcTime :: "tm \<Rightarrow> int" where
  "fromUtcTime utc = fromUtcTime_ymdhms (tm_year utc + 1900) (tm_mon utc + 1) (tm_mday utc)
     (tm_hour utc) (tm_min utc) (tm_sec utc)"

definition gmtime_r :: "int \<Rightarrow> tm" where
  "gmtime_r seconds = toUtcTime seconds True"

definition timegm :: "tm \<Rightarrow> int" where
  "timegm t = fromUtcTime t"

text \<open>\<open>Timestamp::toFormattedString\<close>: \<open>%4d%02d%02d %02d:%02d:%02d.%06d\<close> into 32 bytes.\<close>

definition toFormattedString :: "timestamp \<Rightarrow> string" where
  "toFormattedString t =
     (let seconds = t sdiv kMicroSecondsPerSecond;
          microseconds = t smod kMicroSecondsPerSecond;
          tm_time = gmtime_r seconds
      in take 31 (dec_width 4 (tm_year tm_time + 1900) @ dec_zero 2 (tm_mon tm_time + 1)
           @ dec_zero 2 (tm_mday tm_time) @ CHR '' '' # dec_zero 2 (tm_hour tm_time) @ CHR '':'' #
           dec_zero 2 (tm_min tm_time) @ CHR '':'' # dec_zero 2 (tm_sec tm_time) @ CHR ''.'' #
           dec_zero 6 microseconds))"

text \<open>The constructor of \<open>Date\<close> from a broken-down time.\<close>

definition Date_tm :: "tm \<Rightarrow> date" where
  "Date_tm t = getJulianDayNumber (tm_year t + 1900) (tm_mon t + 1) (tm_mday t)"

section \<open>Zone data\<close>

record transition =
  gmttime :: int
  localtime :: int
  localtimeIdx :: int

record localtime_rec =
  gmtOffset :: int
  isDst :: bool
  arrbIdx :: int

record tz_data =
  transitions :: "transition list"
  localtimes :: "localtime_rec list"
  names :: "string list"
  zone_abbrs :: string

definition empty_tz :: tz_data where
  "empty_tz = \<lparr>transitions = [], localtimes = [], names = [], zone_abbrs = []\<rparr>"

section \<open>Reading a zone file\<close>

text \<open>
  A reader works on the bytes left in the file and on the data, both of which it leaves as
  they are when it throws: \<open>Thrown\<close> is a \<open>logic_error\<close>, which the caller catches.
\<close>

type_synonym tz_file = "char list \<times> tz_data"
type_synonym 'a reader = "tz_file \<Rightarrow> (failure \<times> tz_file) + ('a \<times> tz_file)"

definition rd_return :: "'a \<Rightarrow> 'a reader" where
  "rd_return x s = Inr (x, s)"

definition rd_bind :: "'a reader \<Rightarrow> ('a \<Rightarrow> 'b reader) \<Rightarrow> 'b reader" where
  "rd_bind f g s = (case f s of Inl e \<Rightarrow> Inl e | Inr (x, s) \<Rightarrow> g x s)"

definition rd_fail :: "failure \<Rightarrow> 'a reader" where
  "rd_fail e s = Inl (e, s)"

definition rd_modify :: "(tz_data \<Rightarrow> tz_data) \<Rightarrow> unit reader" where
  "rd_modify f = (\<lambda>(bytes, d). Inr ((), bytes, f d))"

definition readBytes :: "int \<Rightarrow> string reader" where
  \<comment> \<open>\<open>fread\<close> consumes what there is, even when that is not enough\<close>
  "readBytes n = (\<lambda>(bytes, d).
     if n < 0 then Inl (Undefined 118, bytes, d)
     else if length bytes < nat n then Inl (Thrown 121, [], d)
     else Inr (take (nat n) bytes, drop (nat n) bytes, d))"

definition be32 :: "char list \<Rightarrow> int" where
  "be32 cs = (let n = foldl (\<lambda>acc c. acc * 256 + int (of_char c :: nat)) 0 cs
     in if 2 ^ 31 \<le> n then n - 2 ^ 32 else n)"

definition readInt32 :: "int reader" where
  "readInt32 = (\<lambda>(bytes, d).
     if length bytes < 4 then Inl (Thrown 130, [], d)
     else Inr (be32 (take 4 bytes), drop 4 bytes, d))"

definition readUInt8 :: "int reader" where
  "readUInt8 = (\<lambda>(bytes, d).
     case bytes of [] \<Rightarrow> Inl (Thrown 139, [], d) | c # cs \<Rightarrow> Inr (int (of_char c :: nat), cs, d))"

text \<open>\<open>for (int i = 0; i < n; ++i)\<close>, collecting what the body returns.\<close>

fun rd_times :: "nat \<Rightarrow> 'a reader \<Rightarrow> 'a list reader" where
  "rd_times 0 f = rd_return []"
| "rd_times (Suc n) f = rd_bind f (\<lambda>x. rd_bind (rd_times n f) (\<lambda>xs. rd_return (x # xs)))"

definition read_localtime :: "unit reader" where
  "read_localtime =
     rd_bind readInt32 (\<lambda>gmtoff.
     rd_bind readUInt8 (\<lambda>isdst.
     rd_bind readUInt8 (\<lambda>abbrind.
     rd_modify (\<lambda>d. d\<lparr>localtimes := localtimes d
       @ [\<lparr>gmtOffset = gmtoff, isDst = (isdst \<noteq> 0), arrbIdx = abbrind\<rparr>]\<rparr>))))"

definition push_transition :: "int \<Rightarrow> int \<Rightarrow> unit reader" where
  "push_transition t localIdx = (\<lambda>(bytes, d).
     if localIdx < 0 \<or> int (length (localtimes d)) \<le> localIdx then Inl (Undefined 193, bytes, d)
     else Inr ((), bytes, d\<lparr>transitions := transitions d
       @ [\<lparr>gmttime = t, localtime = t + gmtOffset (localtimes d ! nat localIdx),
           localtimeIdx = localIdx\<rparr>]\<rparr>))"

fun push_transitions :: "int list \<Rightarrow> int list \<Rightarrow> unit reader" where
  "push_transitions (t # ts) (i # is) = rd_bind (push_transition t i) (\<lambda>_. push_transitions ts is)"
| "push_transitions _ _ = rd_return ()"

definition read_zone :: "unit reader" where
  "read_zone =
     rd_bind (readBytes 4) (\<lambda>head.
     rd_bind (if head \<noteq> ''TZif'' then rd_fail (Thrown 156) else rd_return ()) (\<lambda>_.
     rd_bind (readBytes 1) (\<lambda>version.
     rd_bind (readBytes 15) (\<lambda>_.
     rd_bind readInt32 (\<lambda>isgmtcnt.
     rd_bind readInt32 (\<lambda>isstdcnt.
     rd_bind readInt32 (\<lambda>leapcnt.
     rd_bind readInt32 (\<lambda>timecnt.
     rd_bind readInt32 (\<lambda>typecnt.
     rd_bind readInt32 (\<lambda>charcnt.
     \<comment> \<open>\<open>reserve\<close> of a negative number throws \<open>length_error\<close>, a \<open>logic_error\<close>\<close>
     rd_bind (if timecnt < 0 then rd_fail (Thrown 169) else rd_return ()) (\<lambda>_.
     rd_bind (rd_times (nat timecnt) readInt32) (\<lambda>trans.
     rd_bind (rd_times (nat timecnt) readUInt8) (\<lambda>locals.
     rd_bind (rd_times (nat typecnt) read_localtime) (\<lambda>_.
     rd_bind (push_transitions trans locals) (\<lambda>_.
     rd_bind (readBytes charcnt) (\<lambda>abbr.
     rd_bind (rd_modify (\<lambda>d. d\<lparr>zone_abbrs := abbr\<rparr>)) (\<lambda>_.
     rd_bind (rd_times (nat leapcnt) (rd_bind readInt32 (\<lambda>_. readInt32))) (\<lambda>_.
     rd_return ()))))))))))))))))))"

definition readTimeZoneFile :: "char list option \<Rightarrow> tz_data \<Rightarrow> (bool \<times> tz_data) result" where
  "readTimeZoneFile file d =
     (case file of
        None \<Rightarrow> Inr (True, d)
      | Some bytes \<Rightarrow>
          (case read_zone (bytes, d) of
             Inr (_, _, d) \<Rightarrow> Inr (True, d)
           | Inl (Thrown _, _, d) \<Rightarrow> Inr (True, d)
           | Inl (e, _) \<Rightarrow> Inl e))"

text \<open>The \<open>data_\<close> pointer of a new \<open>TimeZone\<close>.\<close>

definition new_TimeZone :: "char list option \<Rightarrow> tz_data option result" where
  "new_TimeZone file =
     rbind (readTimeZoneFile file empty_tz) (\<lambda>(ok, d). Inr (if \<not> ok then None else Some d))"

definition tz_valid :: "tz_data option \<Rightarrow> bool" where
  "tz_valid z \<longleftrightarrow> z \<noteq> None"

section \<open>Looking up the offset\<close>

definition comp_key :: "bool \<Rightarrow> transition \<Rightarrow> int" where
  \<comment> \<open>what \<open>Comp\<close> compares\<close>
  "comp_key compareGmt t = (if compareGmt then gmttime t else localtime t)"

definition local_at :: "nat \<Rightarrow> int \<Rightarrow> tz_data \<Rightarrow> localtime_rec result" where
  "local_at line i d =
     (if 0 \<le> i \<and> i < int (length (localtimes d)) then Inr (localtimes d ! nat i)
      else Inl (Undefined line))"

definition findLocaltime :: "tz_data \<Rightarrow> transition \<Rightarrow> bool \<Rightarrow> localtime_rec result" where
  "findLocaltime d sentry compareGmt =
     (let key = comp_key compareGmt
      in if transitions d = [] \<or> key sentry < key (hd (transitions d))
         then (if localtimes d = [] then Inl (Undefined 223) else Inr (hd (localtimes d)))
         else let i = length (takeWhile (\<lambda>t. key t < key sentry) (transitions d))
              in if i < length (transitions d)
                 then if key (transitions d ! i) \<noteq> key sentry
                      then check (i \<noteq> 0) (Assertion 235)
                             (local_at 238 (localtimeIdx (transitions d ! (i - 1))) d)
                      else local_at 238 (localtimeIdx (transitions d ! i)) d
                 else local_at 243 (localtimeIdx (last (transitions d))) d)"

definition toLocalTime :: "tz_data option \<Rightarrow> int \<Rightarrow> tm result" where
  "toLocalTime z seconds =
     (case z of
        None \<Rightarrow> Inl (Assertion 266)
      | Some d \<Rightarrow>
          rbind (findLocaltime d \<lparr>gmttime = seconds, localtime = 0, localtimeIdx = 0\<rparr> True) (\<lambda>local.
          let localSeconds = seconds + gmtOffset local;
              t = gmtime_r localSeconds
          in check (0 \<le> arrbIdx local \<and> arrbIdx local \<le> int (length (zone_abbrs d))) (Undefined 278)
               (Inr (t\<lparr>tm_isdst := (if isDst local then 1 else 0), tm_gmtoff := gmtOffset local,
                       tm_zone := takeWhile (\<lambda>c. c \<noteq> CHR 0x00) (drop (nat (arrbIdx local)) (zone_abbrs d))\<rparr>))))"

definition fromLocalTime :: "tz_data option \<Rightarrow> tm \<Rightarrow> int result" where
  "fromLocalTime z localTm =
     (case z of
        None \<Rightarrow> Inl (Assertion 286)
      | Some d \<Rightarrow>
          let seconds = timegm localTm
          in rbind (findLocaltime d \<lparr>gmttime = 0, localtime = seconds, localtimeIdx = 0\<rparr> False) (\<lambda>local.
             if tm_isdst localTm \<noteq> 0
             then rbind (toLocalTime z (seconds - gmtOffset local)) (\<lambda>tryTm.
                    let seconds = (if tm_isdst tryTm = 0 \<and> tm_hour tryTm = tm_hour localTm
                                      \<and> tm_min tryTm = tm_min localTm
                                   then seconds - 3600 else seconds)
                    in Inr (seconds - gmtOffset local))
             else Inr (seconds - gmtOffset local)))"

section \<open>Lemmas on UTC\<close>

lemma epoch_day: "kJulianDayOf1970_01_01 = 2440588"
  by code_simp

text \<open>Truncating division corrected for a negative remainder is flooring division.\<close>

lemma floor_correction:
  fixes s k :: int
  assumes "0 < k"
  shows "(if s smod k < 0 then (s smod k + k, s sdiv k - 1) else (s smod k, s sdiv k)) = (s mod k, s div k)"
proof (cases "0 \<le> s")
  case True
  moreover have "\<not> s mod k < 0" using assms by (simp add: not_less)
  ultimately show ?thesis using assms by (simp add: sdiv_nonneg smod_nonneg)
next
  case False
  define q where "q = (- s) div k"
  define r where "r = (- s) mod k"
  have qr: "s = - (k * q + r)" "0 \<le> r" "r < k"
    using assms mult_div_mod_eq[of k "- s"] by (simp_all add: q_def r_def)
  have c: "s sdiv k = - q" "s smod k = - r"
    using False assms by (simp_all add: signed_divide_int_def signed_modulo_int_def q_def r_def)
  have D: "s div k = (if r = 0 then - q else - q - 1)"
    using qr by (intro div_eqI) (auto simp: algebra_simps)
  have M: "s mod k = s - k * (s div k)" by (simp add: minus_mult_div_eq_mod)
  have "s - k * (if r = 0 then - q else - q - 1) = (if r = 0 then 0 else k - r)"
    using qr(1) by (auto simp: algebra_simps)
  then show ?thesis using qr(2) by (simp add: c M D)
qed

lemma toUtcTime_eq:
  "toUtcTime s b = (let j = s div kSecondsPerDay + kJulianDayOf1970_01_01; ymd = getYearMonthDay j;
      t = (fillHMS (s mod kSecondsPerDay) (zero_tm\<lparr>tm_zone := ''GMT''\<rparr>))\<lparr>tm_year := ymd_year ymd - 1900,
        tm_mon := ymd_month ymd - 1, tm_mday := ymd_day ymd, tm_wday := weekDay j\<rparr>
    in if b then t\<lparr>tm_yday := j - getJulianDayNumber (ymd_year ymd) 1 1\<rparr> else t)"
proof -
  have "0 < kSecondsPerDay" by (simp add: kSecondsPerDay_def)
  from floor_correction[OF this, of s] show ?thesis
    by (simp add: toUtcTime_def Let_def Date_julian_def date_yearMonthDay_def Date_ymd_def julianDayNumber_def)
qed

lemma hms_roundtrip:
  assumes "0 \<le> n" "n < 86400"
  shows "n div 60 div 60 * 3600 + n div 60 mod 60 * 60 + n mod 60 = (n :: int)"
    "0 \<le> n div 60 div 60" "n div 60 div 60 < 24"
proof -
  have "60 * (n div 60) + n mod 60 = n" "60 * (n div 60 div 60) + n div 60 mod 60 = n div 60"
    by (rule mult_div_mod_eq)+
  then show "n div 60 div 60 * 3600 + n div 60 mod 60 * 60 + n mod 60 = n" by linarith
  have "n div 60 div 60 = n div (60 * 60)" by (rule zdiv_zmult2_eq[symmetric]) simp
  moreover have "0 \<le> n div 3600" using assms by simp
  moreover have "n div 3600 < 24" using div_bounds(1)[of 3600 n] assms by simp
  ultimately show "0 \<le> n div 60 div 60" "n div 60 div 60 < 24" by simp_all
qed

lemma epoch_days:
  assumes "- 2440588 * 86400 \<le> s"
  shows "0 \<le> s div 86400 + kJulianDayOf1970_01_01"
    "(s div 86400 + kJulianDayOf1970_01_01 + 1) mod 7 = (s div 86400 + 4) mod 7"
proof -
  have "(- 2440588 * 86400) div 86400 \<le> s div 86400" using assms by (rule zdiv_mono1) simp
  moreover have "(- 2440588 * 86400) div 86400 = (- 2440588 :: int)" by simp
  ultimately show "0 \<le> s div 86400 + kJulianDayOf1970_01_01" unfolding epoch_day by linarith
  have "s div 86400 + kJulianDayOf1970_01_01 + 1 = s div 86400 + 4 + 7 * 348655" unfolding epoch_day by simp
  then show "(s div 86400 + kJulianDayOf1970_01_01 + 1) mod 7 = (s div 86400 + 4) mod 7"
    by (simp only: mod_mult_self2)
qed

lemma utc_fields:
  assumes "- 2440588 * 86400 \<le> s"
  defines "n \<equiv> s mod kSecondsPerDay"
  shows "\<exists>y m d. 1 \<le> m \<and> m \<le> 12 \<and> 1 \<le> d \<and> d \<le> 31
    \<and> getJulianDayNumber y m d = s div kSecondsPerDay + kJulianDayOf1970_01_01
    \<and> tm_sec (toUtcTime s b) = n mod 60 \<and> tm_min (toUtcTime s b) = n div 60 mod 60
    \<and> tm_hour (toUtcTime s b) = n div 60 div 60 \<and> tm_mon (toUtcTime s b) = m - 1
    \<and> tm_mday (toUtcTime s b) = d \<and> tm_year (toUtcTime s b) = y - 1900
    \<and> tm_wday (toUtcTime s b) = (s div 86400 + 4) mod 7"
proof -
  define j where "j = s div kSecondsPerDay + kJulianDayOf1970_01_01"
  have j: "0 \<le> j" "(j + 1) mod 7 = (s div 86400 + 4) mod 7"
    using epoch_days[OF assms(1)] by (simp_all add: j_def kSecondsPerDay_def)
  then obtain y m d where ymd: "getYearMonthDay j = \<lparr>ymd_year = y, ymd_month = m, ymd_day = d\<rparr>"
    "1 \<le> m" "m \<le> 12" "1 \<le> d" "d \<le> 31" "getJulianDayNumber y m d = j"
    using julian_inverse[of j] by auto
  have "weekDay j = (s div 86400 + 4) mod 7"
    using j by (simp add: weekDay_def kDaysPerWeek_def smod_nonneg)
  with ymd show ?thesis
    unfolding toUtcTime_eq n_def[symmetric] j_def[symmetric]
    by (intro exI[of _ y] exI[of _ m] exI[of _ d]) (simp add: Let_def fillHMS_def)
qed

lemma second_of_day: "0 \<le> s mod kSecondsPerDay" "s mod kSecondsPerDay < 86400"
  by (simp_all add: kSecondsPerDay_def)

lemma utc_back:
  assumes "- 2440588 * 86400 \<le> s"
  shows "fromUtcTime (toUtcTime s b) = s"
proof -
  define n where "n = s mod kSecondsPerDay"
  obtain y m d where f: "getJulianDayNumber y m d = s div kSecondsPerDay + kJulianDayOf1970_01_01"
    "tm_sec (toUtcTime s b) = n mod 60" "tm_min (toUtcTime s b) = n div 60 mod 60"
    "tm_hour (toUtcTime s b) = n div 60 div 60" "tm_mon (toUtcTime s b) = m - 1"
    "tm_mday (toUtcTime s b) = d" "tm_year (toUtcTime s b) = y - 1900"
    using utc_fields[OF assms, of b] unfolding n_def by blast
  have "s div kSecondsPerDay * kSecondsPerDay + n = s" by (simp add: n_def)
  then show ?thesis
    unfolding fromUtcTime_def fromUtcTime_ymdhms_def f(2-7) Date_ymd_def julianDayNumber_def Let_def
    using f(1) hms_roundtrip(1)[OF second_of_day[of s, folded n_def]] by simp
qed

section \<open>Properties of UTC\<close>

text \<open>C39: Broken-down UTC times are right. For every second from the first Julian day on, before or after
  1970, and up to five hundred million days after it, where no \<open>int\<close> of the conversions overflows, the fields of \<open>toUtcTime\<close> are in range, the weekday is the one counted from Thursday the first
  of January 1970, and \<open>fromUtcTime\<close> gives the second back.\<close>

theorem utc_roundtrip:
  assumes "- 2440588 * 86400 \<le> s" "s \<le> 500000000 * 86400"
  shows "fromUtcTime (toUtcTime s b) = s
    \<and> tm_sec (toUtcTime s b) \<in> {0..<60} \<and> tm_min (toUtcTime s b) \<in> {0..<60}
    \<and> tm_hour (toUtcTime s b) \<in> {0..<24} \<and> tm_mon (toUtcTime s b) \<in> {0..<12}
    \<and> tm_mday (toUtcTime s b) \<in> {1..31} \<and> tm_wday (toUtcTime s b) = (s div 86400 + 4) mod 7"
proof -
  let ?n = "s mod kSecondsPerDay"
  have "?n mod 60 \<in> {0..<60}" "?n div 60 mod 60 \<in> {0..<60}" "?n div 60 div 60 \<in> {0..<24}"
    using hms_roundtrip(2,3)[OF second_of_day[of s]] by simp_all
  moreover obtain y m d where "1 \<le> m" "m \<le> 12" "1 \<le> d" "d \<le> 31"
    "tm_sec (toUtcTime s b) = ?n mod 60" "tm_min (toUtcTime s b) = ?n div 60 mod 60"
    "tm_hour (toUtcTime s b) = ?n div 60 div 60" "tm_mon (toUtcTime s b) = m - 1"
    "tm_mday (toUtcTime s b) = d" "tm_year (toUtcTime s b) = y - 1900"
    "tm_wday (toUtcTime s b) = (s div 86400 + 4) mod 7"
    using utc_fields[OF assms(1), of b] by blast
  moreover from this have "m - 1 \<in> {0..<12}" "d \<in> {1..31}" by simp_all
  ultimately show ?thesis using utc_back[OF assms(1), of b] by presburger
qed

theorem utc_roundtrip_witness:
  "fromUtcTime (toUtcTime (- 1) True) = - 1 \<and> tm_wday (toUtcTime (- 1) True) = 3"
  using utc_roundtrip[of "- 1" True] by simp

section \<open>Lemmas on zones\<close>

text \<open>Data in which every transition names a local time.\<close>

definition zone_ok :: "tz_data \<Rightarrow> bool" where
  "zone_ok d \<longleftrightarrow> localtimes d \<noteq> []
     \<and> (\<forall>t \<in> set (transitions d). 0 \<le> localtimeIdx t \<and> localtimeIdx t < int (length (localtimes d)))"

text \<open>The local time in force: that of the last transition not after \<open>k\<close>, or else the first.\<close>

definition local_in_force :: "tz_data \<Rightarrow> bool \<Rightarrow> int \<Rightarrow> localtime_rec" where
  "local_in_force d g k =
     (case filter (\<lambda>t. comp_key g t \<le> k) (transitions d) of
        [] \<Rightarrow> hd (localtimes d)
      | ts \<Rightarrow> localtimes d ! nat (localtimeIdx (last ts)))"

lemma filter_le_sorted:
  fixes f :: "'a \<Rightarrow> int"
  assumes "sorted_wrt (<) (map f xs)"
  shows "filter (\<lambda>t. f t \<le> k) xs = takeWhile (\<lambda>t. f t < k) xs
    @ (let i = length (takeWhile (\<lambda>t. f t < k) xs) in if i < length xs \<and> f (xs ! i) = k then [xs ! i] else [])"
  using assms
proof (induction xs)
  case Nil
  then show ?case by simp
next
  case (Cons x xs)
  have "filter (\<lambda>t. f t \<le> k) xs = []" if "k \<le> f x"
    using Cons.prems that by (auto simp: filter_empty_conv)
  with Cons show ?case by (cases "f x < k"; cases "f x = k") (auto simp: Let_def)
qed

lemma local_at_ok: "zone_ok d \<Longrightarrow> t \<in> set (transitions d) \<Longrightarrow>
    local_at l (localtimeIdx t) d = Inr (localtimes d ! nat (localtimeIdx t))"
  by (simp add: local_at_def zone_ok_def)

lemma local_in_force_last:
  "filter (\<lambda>t. comp_key g t \<le> k) (transitions d) = ts \<Longrightarrow> ts \<noteq> [] \<Longrightarrow>
   local_in_force d g k = localtimes d ! nat (localtimeIdx (last ts))"
  by (cases ts) (simp_all add: local_in_force_def)

lemma findLocaltime_eq:
  assumes s: "sorted_wrt (<) (map (comp_key g) (transitions d))" and ok: "zone_ok d"
  shows "findLocaltime d sentry g = Inr (local_in_force d g (comp_key g sentry))"
proof -
  let ?ts = "transitions d" and ?f = "comp_key g" and ?k = "comp_key g sentry"
  let ?w = "takeWhile (\<lambda>t. ?f t < ?k) ?ts"
  let ?i = "length ?w"
  note F = filter_le_sorted[OF s, of ?k]
  show ?thesis
  proof (cases "?ts = [] \<or> ?k < ?f (hd ?ts)")
    case True
    then have "filter (\<lambda>t. ?f t \<le> ?k) ?ts = []"
      unfolding F by (cases ?ts) (auto simp: Let_def)
    then show ?thesis using True ok by (auto simp: findLocaltime_def Let_def local_in_force_def zone_ok_def)
  next
    case False
    then obtain x xs where ts: "?ts = x # xs" "?f x \<le> ?k" by (cases ?ts) auto
    have wt: "?w = take ?i ?ts" by (metis takeWhile_eq_take)
    have lastw: "last ?w = ?ts ! (?i - 1) \<and> last ?w \<in> set ?ts" if "0 < ?i"
      using that wt by (metis (no_types, lifting) diff_less last_conv_nth last_in_set length_greater_0_conv
          nth_take set_takeWhileD zero_less_one)
    show ?thesis
    proof (cases "?i < length ?ts")
      case True
      then have mem: "?ts ! ?i \<in> set ?ts" by simp
      show ?thesis
      proof (cases "?f (?ts ! ?i) = ?k")
        case True
        then have "local_in_force d g ?k = localtimes d ! nat (localtimeIdx (?ts ! ?i))"
          using local_in_force_last[of g ?k d "?w @ [?ts ! ?i]"] F \<open>?i < length ?ts\<close> by simp
        then show ?thesis
          using False \<open>?i < length ?ts\<close> True local_at_ok[OF ok mem] by (simp add: findLocaltime_def Let_def)
      next
        case ne: False
        then have i: "0 < ?i" using ts by (cases "?f x < ?k") auto
        then have "local_in_force d g ?k = localtimes d ! nat (localtimeIdx (?ts ! (?i - 1)))"
          using local_in_force_last[of g ?k d ?w] F ne lastw by auto
        then show ?thesis
          using False \<open>?i < length ?ts\<close> ne i lastw local_at_ok[OF ok, of "last ?w" 238]
          by (simp add: findLocaltime_def Let_def)
      qed
    next
      case past: False
      then have w: "?w = ?ts" using wt by simp
      then have "local_in_force d g ?k = localtimes d ! nat (localtimeIdx (last ?ts))"
        using local_in_force_last[of g ?k d ?ts] F ts by simp
      then show ?thesis
        using False past local_at_ok[OF ok, of "last ?ts" 243] ts by (simp add: findLocaltime_def Let_def)
    qed
  qed
qed

section \<open>Properties of zones\<close>


definition wit_zone :: tz_data where
  "wit_zone = \<lparr>transitions = [\<lparr>gmttime = 100, localtime = 3700, localtimeIdx = 1\<rparr>],
     localtimes = [\<lparr>gmtOffset = 0, isDst = False, arrbIdx = 0\<rparr>, \<lparr>gmtOffset = 3600, isDst = True, arrbIdx = 4\<rparr>],
     names = [], zone_abbrs = ''UTC'' @ [CHR 0x00] @ ''BST''\<rparr>"


end
