(* ===== verification/Log_Streams.thy ===== *)
theory Log_Streams
  imports Timestamps "HOL-Library.Word"
begin

text \<open>
  Formatting of log lines into a buffer of fixed size: src/base/logging/LogStream.h and
  LogStream.cpp. A buffer is its size and the bytes written up to \<open>cur_\<close>; what lies beyond is
  never read. Strings passed as \<open>const char*\<close> are given without their final null byte.
\<close>

section \<open>Fixed buffers\<close>

record fixed_buffer =
  fb_size :: int
  fb_bytes :: string

definition kSmallBuffer :: int where "kSmallBuffer = 4000"
definition kLargeBuffer :: int where "kLargeBuffer = 4000 * 1000"

definition new_FixedBuffer :: "int \<Rightarrow> fixed_buffer" where
  "new_FixedBuffer n = \<lparr>fb_size = n, fb_bytes = []\<rparr>"

definition fb_length :: "fixed_buffer \<Rightarrow> int" where "fb_length b = int (length (fb_bytes b))"
definition fb_avail :: "fixed_buffer \<Rightarrow> int" where "fb_avail b = fb_size b - fb_length b"

text \<open>\<open>append(buf, len)\<close>; \<open>memcpy\<close> of a negative length, or beyond the source, is undefined.\<close>

definition fb_append :: "string \<Rightarrow> int \<Rightarrow> fixed_buffer \<Rightarrow> fixed_buffer result" where
  "fb_append src len b =
     (if fb_avail b > len
      then check (0 \<le> len \<and> len \<le> int (length src)) (Undefined 39)
             (Inr (b\<lparr>fb_bytes := fb_bytes b @ take (nat len) src\<rparr>))
      else Inr b)"

text \<open>Writing \<open>written\<close> at \<open>current()\<close>, then \<open>add(len)\<close>; the writer may store a null byte behind.\<close>

definition fb_add :: "string \<Rightarrow> nat \<Rightarrow> fixed_buffer \<Rightarrow> fixed_buffer result" where
  "fb_add written len b =
     check (int (length written) < fb_avail b \<and> len \<le> length written) (Undefined 50)
       (Inr (b\<lparr>fb_bytes := fb_bytes b @ take len written\<rparr>))"

definition fb_reset :: "fixed_buffer \<Rightarrow> fixed_buffer" where "fb_reset b = b\<lparr>fb_bytes := []\<rparr>"
definition asString :: "fixed_buffer \<Rightarrow> string" where "asString b = fb_bytes b"

definition debugString :: "fixed_buffer \<Rightarrow> string result" where
  "debugString b =
     check (fb_length b < fb_size b) (Undefined 75) (Inr (takeWhile (\<lambda>c. c \<noteq> CHR 0x00) (fb_bytes b)))"

section \<open>Integers to text\<close>

definition digits :: string where "digits = ''9876543210123456789''"
definition zero_digit :: "int \<Rightarrow> char" where
  \<comment> \<open>\<open>zero[lsd]\<close> with \<open>zero = digits + 9\<close>; a negative index reads to the left\<close>
  "zero_digit lsd = digits ! nat (9 + lsd)"
definition digitsHex :: string where "digitsHex = ''0123456789abcdef''"

text \<open>The \<open>do\<close> loop of \<open>convert\<close>; \<open>p\<close> is what was written so far.\<close>

function convert_loop :: "int \<Rightarrow> string \<Rightarrow> string" where
  "convert_loop i p =
     (let lsd = i smod 10;
          i' = i sdiv 10;
          p' = p @ [zero_digit lsd]
      in if i' \<noteq> 0 then convert_loop i' p' else p')"
  by pat_completeness auto

lemma sdiv_10_abs: "\<bar>i sdiv 10\<bar> = \<bar>i\<bar> div 10" for i :: int
  by (cases "i = 0") (simp_all add: signed_divide_int_def abs_mult abs_sgn_eq)

lemma sdiv_10_less: "i sdiv 10 \<noteq> 0 \<Longrightarrow> \<bar>i sdiv 10\<bar> < \<bar>i\<bar>" for i :: int
proof -
  assume "i sdiv 10 \<noteq> 0"
  then have "\<bar>i\<bar> div 10 \<noteq> 0" by (simp flip: sdiv_10_abs)
  then show "\<bar>i sdiv 10\<bar> < \<bar>i\<bar>" unfolding sdiv_10_abs by linarith
qed

termination convert_loop
  by (relation "measure (\<lambda>(i, p). nat \<bar>i\<bar>)") (auto simp: sdiv_10_less)

declare convert_loop.simps [simp del]

definition convert :: "int \<Rightarrow> string" where
  "convert value =
     (let p = convert_loop value [];
          p = (if value < 0 then p @ ''-'' else p)
      in rev p)"

function convertHex_loop :: "64 word \<Rightarrow> string \<Rightarrow> string" where
  "convertHex_loop i p =
     (let lsd = i mod 16;
          i' = i div 16;
          p' = p @ [digitsHex ! unat lsd]
      in if i' \<noteq> 0 then convertHex_loop i' p' else p')"
  by pat_completeness auto

lemma word_div_16_less: "i div 16 \<noteq> 0 \<Longrightarrow> unat (i div 16) < unat i" for i :: "64 word"
proof -
  assume "i div 16 \<noteq> 0"
  then have "unat i \<noteq> 0" by (auto simp: unat_eq_0)
  then show "unat (i div 16) < unat i" by (simp add: unat_div_distrib)
qed

termination convertHex_loop
  by (relation "measure (\<lambda>(i, p). unat i)") (auto simp: word_div_16_less)

declare convertHex_loop.simps [simp del]

definition convertHex :: "64 word \<Rightarrow> string" where
  "convertHex value = rev (convertHex_loop value [])"

section \<open>Streams\<close>

type_synonym log_stream = fixed_buffer

definition kMaxNumericSize :: int where "kMaxNumericSize = 32"

definition new_LogStream :: log_stream where "new_LogStream = new_FixedBuffer kSmallBuffer"

definition formatInteger :: "int \<Rightarrow> log_stream \<Rightarrow> log_stream result" where
  "formatInteger v s =
     (if fb_avail s \<ge> kMaxNumericSize then fb_add (convert v) (length (convert v)) s else Inr s)"

definition put_bool :: "bool \<Rightarrow> log_stream \<Rightarrow> log_stream result" where
  "put_bool v = fb_append (if v then ''1'' else ''0'') 1"
definition put_int :: "32 word \<Rightarrow> log_stream \<Rightarrow> log_stream result" where
  "put_int v = formatInteger (sint v)"
definition put_uint :: "32 word \<Rightarrow> log_stream \<Rightarrow> log_stream result" where
  "put_uint v = formatInteger (uint v)"
definition put_short :: "16 word \<Rightarrow> log_stream \<Rightarrow> log_stream result" where
  "put_short v = put_int (scast v)"
definition put_ushort :: "16 word \<Rightarrow> log_stream \<Rightarrow> log_stream result" where
  "put_ushort v = put_uint (ucast v)"
definition put_long :: "64 word \<Rightarrow> log_stream \<Rightarrow> log_stream result" where
  "put_long v = formatInteger (sint v)"
definition put_ulong :: "64 word \<Rightarrow> log_stream \<Rightarrow> log_stream result" where
  "put_ulong v = formatInteger (uint v)"
definition put_llong :: "64 word \<Rightarrow> log_stream \<Rightarrow> log_stream result" where
  "put_llong v = formatInteger (sint v)"
definition put_ullong :: "64 word \<Rightarrow> log_stream \<Rightarrow> log_stream result" where
  "put_ullong v = formatInteger (uint v)"

definition put_pointer :: "64 word \<Rightarrow> log_stream \<Rightarrow> log_stream result" where
  "put_pointer v s =
     (if fb_avail s \<ge> kMaxNumericSize
      then let hex = convertHex v in fb_add (''0x'' @ hex) (length hex + 2) s
      else Inr s)"

text \<open>The text \<open>out\<close> that \<open>snprintf\<close> makes of a double with \<open>%.12g\<close> is an input.\<close>

definition put_double :: "string \<Rightarrow> log_stream \<Rightarrow> log_stream result" where
  "put_double out s =
     (if fb_avail s \<ge> kMaxNumericSize
      then fb_add (take (nat kMaxNumericSize - 1) out) (length out) s
      else Inr s)"
definition put_float :: "string \<Rightarrow> log_stream \<Rightarrow> log_stream result" where
  "put_float out s = put_double out s"

definition put_char :: "char \<Rightarrow> log_stream \<Rightarrow> log_stream result" where
  "put_char v = fb_append [v] 1"
definition put_cstr :: "string \<Rightarrow> log_stream \<Rightarrow> log_stream result" where
  "put_cstr v = fb_append v (int (length v))"
definition put_string :: "string \<Rightarrow> log_stream \<Rightarrow> log_stream result" where
  "put_string v = fb_append v (int (length v))"

text \<open>\<open>T\<close>: a C string whose length is given, and asserted.\<close>

definition new_T :: "string \<Rightarrow> int \<Rightarrow> (string \<times> int) result" where
  "new_T str len = check (int (length str) = len) (Assertion 82) (Inr (str, len))"
definition put_T :: "string \<times> int \<Rightarrow> log_stream \<Rightarrow> log_stream result" where
  "put_T v = fb_append (fst v) (snd v)"

text \<open>\<open>Fmt\<close>: \<open>out\<close> is the text that \<open>snprintf\<close> makes of the number.\<close>

definition new_Fmt :: "string \<Rightarrow> string result" where
  "new_Fmt out = check (length out < 32) (Assertion 189) (Inr out)"
definition put_Fmt :: "string \<Rightarrow> log_stream \<Rightarrow> log_stream result" where
  "put_Fmt fmt = fb_append fmt (int (length fmt))"

definition stream_append :: "string \<Rightarrow> int \<Rightarrow> log_stream \<Rightarrow> log_stream result" where
  "stream_append = fb_append"
definition resetBuffer :: "log_stream \<Rightarrow> log_stream" where "resetBuffer = fb_reset"

section \<open>Lemmas\<close>

text \<open>The table gives the digit of a remainder of either sign.\<close>

lemma digit_chars: "digit_char (Suc 0) = CHR ''1''" "digit_char 2 = CHR ''2''" "digit_char 8 = CHR ''8''"
  by code_simp+

lemma zero_digit_abs: "- 10 < i \<Longrightarrow> i < 10 \<Longrightarrow> zero_digit i = digit_char (nat \<bar>i\<bar>)"
proof -
  assume "- 10 < i" "i < 10"
  then have "i \<in> {-9 .. 9}" by simp
  then have "i \<in> set [-9 .. 9]" by (simp only: set_upto)
  moreover have "\<forall>i \<in> set [-9 .. 9]. zero_digit i = digit_char (nat \<bar>i\<bar>)" by code_simp
  ultimately show ?thesis by blast
qed

lemma smod_10_abs: "\<bar>i smod 10\<bar> = \<bar>i\<bar> mod 10" "- 10 < i smod 10" "i smod 10 < 10" for i :: int
proof -
  show *: "\<bar>i smod 10\<bar> = \<bar>i\<bar> mod 10" by (cases "i = 0") (simp_all add: signed_modulo_int_def abs_mult abs_sgn_eq)
  then show "- 10 < i smod 10" "i smod 10 < 10" by linarith+
qed

lemma rev_convert_loop: "rev (convert_loop i p) = dec_nat (nat \<bar>i\<bar>) @ rev p"
proof (induction i p rule: convert_loop.induct)
  case (1 i p)
  have d: "zero_digit (i smod 10) = digit_char (nat \<bar>i\<bar> mod 10)"
    using zero_digit_abs[OF smod_10_abs(2,3)] by (simp add: smod_10_abs(1) nat_mod_distrib)
  have q: "nat \<bar>i sdiv 10\<bar> = nat \<bar>i\<bar> div 10" by (simp add: sdiv_10_abs nat_div_distrib)
  show ?case
  proof (cases "i sdiv 10 = 0")
    case True
    then have "nat \<bar>i\<bar> < 10" using q by simp
    then show ?thesis using True d by (simp add: convert_loop.simps[of i p] dec_nat_small)
  next
    case False
    then have "10 \<le> nat \<bar>i\<bar>" using q by (cases "nat \<bar>i\<bar> < 10") auto
    then show ?thesis using False 1 d q by (simp add: convert_loop.simps[of i p] dec_nat_step)
  qed
qed

lemma convert_eq: "convert v = dec_int v"
  by (simp add: convert_def Let_def rev_convert_loop dec_int_def)

lemma length_convert:
  assumes "- (2 ^ 63) \<le> v" "v < 2 ^ 64"
  shows "length (convert v) \<le> 20"
proof (cases "v < 0")
  case True
  then have "nat (- v) < 10 * 10 ^ 18" using assms by simp
  then show ?thesis using True length_dec_nat_le[of "nat (- v)" 18] by (simp add: convert_eq dec_int_def)
next
  case False
  then have "nat v < 10 * 10 ^ 19" using assms by simp
  then show ?thesis using False length_dec_nat_le[of "nat v" 19] by (simp add: convert_eq dec_int_def)
qed

text \<open>Hexadecimal digits and their value.\<close>

definition hex_value :: "char \<Rightarrow> nat" where
  "hex_value c = (let n = of_char c in if n < 58 then n - 48 else n - 87)"

lemma hex_value_digit: "n < 16 \<Longrightarrow> hex_value (digitsHex ! n) = n"
proof -
  have "\<forall>n \<in> set [0..<16]. hex_value (digitsHex ! n) = n" by code_simp
  then show "n < 16 \<Longrightarrow> ?thesis" by simp
qed

fun val_hex :: "nat \<Rightarrow> string \<Rightarrow> nat" where
  "val_hex acc [] = acc"
| "val_hex acc (c # cs) = val_hex (16 * acc + hex_value c) cs"

lemma val_hex_append: "val_hex acc (xs @ ys) = val_hex (val_hex acc xs) ys"
  by (induction xs arbitrary: acc) auto

lemma convertHex_loop_value:
  "\<exists>ds. convertHex_loop i p = p @ ds \<and> val_hex 0 (rev ds) = unat i \<and> (unat i < 16 ^ Suc k \<longrightarrow> length ds \<le> Suc k)"
proof (induction i p arbitrary: k rule: convertHex_loop.induct)
  case (1 i p)
  let ?d = "digitsHex ! unat (i mod 16)"
  have m: "unat (i mod 16) = unat i mod 16" by (simp add: unat_mod_distrib)
  have q: "unat (i div 16) = unat i div 16" by (simp add: unat_div_distrib)
  have d: "hex_value ?d = unat i mod 16" by (simp add: m hex_value_digit)
  show ?case
  proof (cases "i div 16 = 0")
    case True
    then have "unat i div 16 = 0" using q by simp
    then show ?thesis using True d by (intro exI[of _ "[?d]"]) (simp add: convertHex_loop.simps[of i p])
  next
    case False
    then have "16 \<le> unat i" using q by (metis div_less not_le unat_0 unsigned_word_eqI)
    obtain ds where ds: "convertHex_loop (i div 16) (p @ [?d]) = (p @ [?d]) @ ds"
      "val_hex 0 (rev ds) = unat (i div 16)"
      "unat (i div 16) < 16 ^ Suc (k - 1) \<longrightarrow> length ds \<le> Suc (k - 1)"
      using 1[OF refl refl refl False, of "k - 1"] by auto
    have "length ds \<le> k" if "unat i < 16 ^ Suc k"
    proof -
      have "k \<noteq> 0" using that \<open>16 \<le> unat i\<close> by (cases k) auto
      then have "Suc (k - 1) = k" by simp
      moreover have "unat i div 16 < 16 ^ k" using that by (simp add: less_mult_imp_div_less mult.commute)
      ultimately show ?thesis using ds(3) q by simp
    qed
    then show ?thesis using False ds(1,2) d q
      by (intro exI[of _ "?d # ds"]) (simp add: convertHex_loop.simps[of i p] val_hex_append)
  qed
qed

lemma convertHex_value: "val_hex 0 (convertHex w) = unat w"
  using convertHex_loop_value[of w "[]" 15] by (auto simp: convertHex_def)

lemma length_convertHex: "length (convertHex w) \<le> 16"
proof -
  have "unat w < 16 ^ Suc 15" using unsigned_less[of w] by simp
  then show ?thesis using convertHex_loop_value[of w "[]" 15] by (auto simp: convertHex_def)
qed

text \<open>
  One insertion, by the type of what is inserted; the text of a double and of a \<open>Fmt\<close> is that
  of \<open>snprintf\<close>.
\<close>

datatype piece =
    P_bool bool
  | P_short "16 word"
  | P_ushort "16 word"
  | P_int "32 word"
  | P_uint "32 word"
  | P_long "64 word"
  | P_ulong "64 word"
  | P_llong "64 word"
  | P_ullong "64 word"
  | P_pointer "64 word"
  | P_float string
  | P_double string
  | P_char char
  | P_cstr string
  | P_string string
  | P_T string int
  | P_Fmt string

definition put :: "piece \<Rightarrow> log_stream \<Rightarrow> log_stream result" where
  "put p s = (case p of
      P_bool v \<Rightarrow> put_bool v s
    | P_short v \<Rightarrow> put_short v s
    | P_ushort v \<Rightarrow> put_ushort v s
    | P_int v \<Rightarrow> put_int v s
    | P_uint v \<Rightarrow> put_uint v s
    | P_long v \<Rightarrow> put_long v s
    | P_ulong v \<Rightarrow> put_ulong v s
    | P_llong v \<Rightarrow> put_llong v s
    | P_ullong v \<Rightarrow> put_ullong v s
    | P_pointer v \<Rightarrow> put_pointer v s
    | P_float out \<Rightarrow> put_float out s
    | P_double out \<Rightarrow> put_double out s
    | P_char v \<Rightarrow> put_char v s
    | P_cstr v \<Rightarrow> put_cstr v s
    | P_string v \<Rightarrow> put_string v s
    | P_T str len \<Rightarrow> rbind (new_T str len) (\<lambda>v. put_T v s)
    | P_Fmt out \<Rightarrow> rbind (new_Fmt out) (\<lambda>fmt. put_Fmt fmt s))"

text \<open>The text an insertion stands for, whether it is a number, and the room it asks for.\<close>

definition piece_text :: "piece \<Rightarrow> string" where
  "piece_text p = (case p of
      P_bool v \<Rightarrow> if v then ''1'' else ''0''
    | P_short v \<Rightarrow> dec_int (sint v)
    | P_ushort v \<Rightarrow> dec_int (uint v)
    | P_int v \<Rightarrow> dec_int (sint v)
    | P_uint v \<Rightarrow> dec_int (uint v)
    | P_long v \<Rightarrow> dec_int (sint v)
    | P_ulong v \<Rightarrow> dec_int (uint v)
    | P_llong v \<Rightarrow> dec_int (sint v)
    | P_ullong v \<Rightarrow> dec_int (uint v)
    | P_pointer v \<Rightarrow> ''0x'' @ convertHex v
    | P_float out \<Rightarrow> out
    | P_double out \<Rightarrow> out
    | P_char v \<Rightarrow> [v]
    | P_cstr v \<Rightarrow> v
    | P_string v \<Rightarrow> v
    | P_T str len \<Rightarrow> str
    | P_Fmt out \<Rightarrow> out)"

definition numeric :: "piece \<Rightarrow> bool" where
  "numeric p = (case p of P_bool _ \<Rightarrow> False | P_char _ \<Rightarrow> False | P_cstr _ \<Rightarrow> False
     | P_string _ \<Rightarrow> False | P_T _ _ \<Rightarrow> False | P_Fmt _ \<Rightarrow> False | _ \<Rightarrow> True)"

definition needs :: "piece \<Rightarrow> int" where
  "needs p = (if numeric p then 32 else int (length (piece_text p)) + 1)"

text \<open>What the program may insert: the text of a number printed by \<open>snprintf\<close> and of a \<open>Fmt\<close>
  fits into their 32 bytes, and a \<open>T\<close> is given its own length.\<close>

definition proper :: "piece \<Rightarrow> bool" where
  "proper p = (case p of P_float out \<Rightarrow> length out < 32 | P_double out \<Rightarrow> length out < 32
     | P_T str len \<Rightarrow> len = int (length str) | P_Fmt out \<Rightarrow> length out < 32 | _ \<Rightarrow> True)"

lemma formatInteger_eq:
  assumes "- (2 ^ 63) \<le> v" "v < 2 ^ 64"
  shows "formatInteger v s
    = Inr (if 32 \<le> fb_avail s then s\<lparr>fb_bytes := fb_bytes s @ dec_int v\<rparr> else s)"
proof (cases "32 \<le> fb_avail s")
  case True
  then have "int (length (convert v)) < fb_avail s" using length_convert[OF assms] by simp
  then show ?thesis using True by (simp add: formatInteger_def kMaxNumericSize_def fb_add_def convert_eq)
next
  case False
  then show ?thesis by (simp add: formatInteger_def kMaxNumericSize_def)
qed

text \<open>All the integer types of the overloads are in that range.\<close>

lemma int_range:
  "- (2 ^ 63) \<le> sint (v :: 64 word)" "sint v < 2 ^ 64" "- (2 ^ 63) \<le> uint v" "uint v < 2 ^ 64"
  "- (2 ^ 63) \<le> sint (u :: 32 word)" "sint u < 2 ^ 64" "- (2 ^ 63) \<le> uint u" "uint u < 2 ^ 64"
proof -
  show "- (2 ^ 63) \<le> sint v" "sint v < 2 ^ 64" "- (2 ^ 63) \<le> sint u" "sint u < 2 ^ 64"
    using sint_ge[of v] sint_lt[of v] sint_ge[of u] sint_lt[of u] by simp_all
  have "- (2 ^ 63) \<le> (0 :: int)" by simp
  then show "- (2 ^ 63) \<le> uint v" "- (2 ^ 63) \<le> uint u" by (meson order_trans uint_ge_0)+
  show "uint v < 2 ^ 64" "uint u < 2 ^ 64" using uint_bounded[of v] uint_bounded[of u] by simp_all
qed

lemmas formatInteger_ints = formatInteger_eq[OF int_range(1,2)] formatInteger_eq[OF int_range(3,4)]
  formatInteger_eq[OF int_range(5,6)] formatInteger_eq[OF int_range(7,8)]

lemma short_ints: "sint (scast (v :: 16 word) :: 32 word) = sint v" "uint (ucast v :: 32 word) = uint v"
proof -
  have "sint v \<in> {- (2 ^ 15) ..< 2 ^ 15}" using sint_ge[of v] sint_lt[of v] by simp
  then show "sint (scast v :: 32 word) = sint v"
    by (simp add: signed_scast_eq signed_take_bit_int_eq_self)
  show "uint (ucast v :: 32 word) = uint v"
    using uint_bounded[of v] by (simp add: unsigned_ucast_eq take_bit_int_eq_self)
qed

lemmas formatInteger_shorts = formatInteger_ints(3)[of "scast v" for v :: "16 word", unfolded short_ints]
  formatInteger_ints(4)[of "ucast v" for v :: "16 word", unfolded short_ints]

lemma fb_append_all: "fb_append v (int (length v)) s
    = Inr (if int (length v) < fb_avail s then s\<lparr>fb_bytes := fb_bytes s @ v\<rparr> else s)"
  by (simp add: fb_append_def)

lemma put_pointer_eq: "put_pointer w s
    = Inr (if 32 \<le> fb_avail s then s\<lparr>fb_bytes := fb_bytes s @ ''0x'' @ convertHex w\<rparr> else s)"
  using length_convertHex[of w] by (simp add: put_pointer_def kMaxNumericSize_def fb_add_def Let_def)

lemma put_double_eq: "length out < 32 \<Longrightarrow> put_double out s
    = Inr (if 32 \<le> fb_avail s then s\<lparr>fb_bytes := fb_bytes s @ out\<rparr> else s)"
  by (simp add: put_double_def kMaxNumericSize_def fb_add_def)

text \<open>Every insertion appends the whole text, or, when there is not enough room, nothing.\<close>

lemma put_eq:
  assumes "proper p"
  shows "put p s = Inr (if needs p \<le> fb_avail s then s\<lparr>fb_bytes := fb_bytes s @ piece_text p\<rparr> else s)"
proof (cases p)
  case (P_T str len)
  with assms show ?thesis
    by (auto simp: put_def proper_def new_T_def put_T_def fb_append_all needs_def numeric_def piece_text_def)
next
  case (P_bool v)
  then show ?thesis
    using fb_append_all[of "if v then ''1'' else ''0''" s]
    by (auto simp: put_def put_bool_def needs_def numeric_def piece_text_def)
next
  case (P_char v)
  then show ?thesis
    using fb_append_all[of "[v]" s] by (auto simp: put_def put_char_def needs_def numeric_def piece_text_def)
qed (use assms in \<open>simp_all add: put_def proper_def needs_def numeric_def piece_text_def put_short_def put_ushort_def
  put_int_def put_uint_def put_long_def put_ulong_def put_llong_def put_ullong_def formatInteger_ints
  formatInteger_shorts short_ints put_pointer_eq put_float_def put_double_eq put_cstr_def put_string_def new_Fmt_def
  put_Fmt_def fb_append_all\<close>)

lemma length_piece: "proper p \<Longrightarrow> int (length (piece_text p)) < needs p"
proof (cases p)
  case (P_pointer w)
  then show ?thesis using length_convertHex[of w] by (simp add: needs_def numeric_def piece_text_def)
next
  case (P_short v)
  then show ?thesis using length_convert[of "sint (scast v :: 32 word)", OF int_range(5,6)]
    by (simp add: needs_def numeric_def piece_text_def convert_eq short_ints)
next
  case (P_ushort v)
  then show ?thesis using length_convert[of "uint (ucast v :: 32 word)", OF int_range(7,8)]
    by (simp add: needs_def numeric_def piece_text_def convert_eq short_ints)
qed (use length_convert[OF int_range(1,2)] length_convert[OF int_range(3,4)] length_convert[OF int_range(5,6)]
  length_convert[OF int_range(7,8)] in \<open>simp_all add: needs_def numeric_def piece_text_def proper_def convert_eq
  le_less_trans[of _ 20]\<close>)

lemma put_all:
  assumes "\<forall>p \<in> set ps. proper p" "fb_length s < fb_size s"
  shows "\<exists>t. for_each put ps s = Inr (s\<lparr>fb_bytes := fb_bytes s @ t\<rparr>) \<and> fb_length s + int (length t) < fb_size s
    \<and> (sum_list (map needs ps) \<le> fb_avail s \<longrightarrow> t = concat (map piece_text ps))"
  using assms
proof (induction ps arbitrary: s)
  case Nil
  then show ?case by (intro exI[of _ "[]"]) simp
next
  case (Cons p ps)
  let ?s = "if needs p \<le> fb_avail s then s\<lparr>fb_bytes := fb_bytes s @ piece_text p\<rparr> else s"
  have p: "proper p" and pos: "int (length (piece_text p)) < needs p"
    using Cons.prems length_piece[of p] by simp_all
  have nonneg: "0 \<le> sum_list (map needs ps)"
    using Cons.prems(1) length_piece by (intro sum_list_nonneg) fastforce
  have "fb_length ?s < fb_size ?s" using Cons.prems(2) pos by (simp add: fb_avail_def fb_length_def)
  then obtain t where t: "for_each put ps ?s = Inr (?s\<lparr>fb_bytes := fb_bytes ?s @ t\<rparr>)"
    "fb_length ?s + int (length t) < fb_size ?s"
    "sum_list (map needs ps) \<le> fb_avail ?s \<longrightarrow> t = concat (map piece_text ps)"
    using Cons.IH[of ?s] Cons.prems(1) by auto
  show ?case
  proof (cases "needs p \<le> fb_avail s")
    case True
    then show ?thesis using t p pos
      by (intro exI[of _ "piece_text p @ t"]) (auto simp: put_eq fb_avail_def fb_length_def)
  next
    case False
    then show ?thesis using t p nonneg by (intro exI[of _ t]) (auto simp: put_eq)
  qed
qed

section \<open>Properties\<close>

text \<open>Numbers are printed as they should be. The digit loop, with its table of nineteen digits
  read from the middle, gives the decimal numeral of every value of every integer type, the most
  negative one included, in at most twenty characters; \<open>formatInteger\<close> appends that numeral when
  thirty-two bytes are left and otherwise nothing; the digits of \<open>convertHex\<close>, at most sixteen,
  have the value of the pointer.\<close>

theorem convert_decimal:
  assumes "- (2 ^ 63) \<le> v" "v < 2 ^ 64"
  shows "convert v = dec_int v \<and> length (convert v) \<le> 20
    \<and> formatInteger v s = Inr (if 32 \<le> fb_avail s then s\<lparr>fb_bytes := fb_bytes s @ dec_int v\<rparr> else s)
    \<and> val_hex 0 (convertHex w) = unat w \<and> length (convertHex w) \<le> 16"
  using convert_eq length_convert[OF assms] formatInteger_eq[OF assms] convertHex_value length_convertHex
  by blast

theorem convert_decimal_witness:
  "convert (- 128) = ''-128'' \<and> val_hex 0 (convertHex 48879) = 48879"
proof -
  have "convert (- 128) = dec_int (- 128)" "val_hex 0 (convertHex 48879) = unat (48879 :: 64 word)"
    using convert_decimal[of "- 128" _ 48879] by simp_all
  moreover have "dec_int (- 128) = ''-128''"
    by (simp add: dec_int_def dec_nat_step dec_nat_small digit_chars)
  ultimately show ?thesis by simp
qed



end
