(* ===== verification/Log_Lines.thy ===== *)
theory Log_Lines
  imports Log_Streams Time_Zones
begin

text \<open>
  The logger: src/base/logging/Logging.h and Logging.cpp. The globals of the logger, the cache of the
  calling thread and the calls of the output and flush functions, each named by a number, are the
  state. The clock, the number of the thread, \<open>errno\<close> and the text of an error are inputs.
\<close>

section \<open>Levels\<close>

datatype log_level = TRACE | DEBUG | INFO | WARN | ERROR | FATAL

definition level_rank :: "log_level \<Rightarrow> nat" where
  "level_rank v = (case v of TRACE \<Rightarrow> 0 | DEBUG \<Rightarrow> 1 | INFO \<Rightarrow> 2 | WARN \<Rightarrow> 3 | ERROR \<Rightarrow> 4 | FATAL \<Rightarrow> 5)"

lemma level_rank_inj: "level_rank u = level_rank v \<longleftrightarrow> u = v"
  by (cases u; cases v) (simp_all add: level_rank_def)

instantiation log_level :: linorder
begin

definition less_eq_log_level :: "log_level \<Rightarrow> log_level \<Rightarrow> bool" where
  "u \<le> v \<longleftrightarrow> level_rank u \<le> level_rank v"

definition less_log_level :: "log_level \<Rightarrow> log_level \<Rightarrow> bool" where
  "u < v \<longleftrightarrow> level_rank u < level_rank v"

instance
  by standard (auto simp: less_eq_log_level_def less_log_level_def level_rank_inj)

end

definition initLogLevel :: "bool \<Rightarrow> log_level" where
  \<comment> \<open>whether \<open>MUDUO_LOG_TRACE\<close> is in the environment\<close>
  "initLogLevel env = (if env then TRACE else DEBUG)"

definition LogLevelName :: "log_level \<Rightarrow> string" where
  "LogLevelName v = (case v of TRACE \<Rightarrow> ''TRACE '' | DEBUG \<Rightarrow> ''DEBUG '' | INFO \<Rightarrow> ''INFO  ''
     | WARN \<Rightarrow> ''WARN  '' | ERROR \<Rightarrow> ''ERROR '' | FATAL \<Rightarrow> ''FATAL '')"

section \<open>State and inputs\<close>

datatype log_call = Output nat string | Flush nat

record logging =
  g_logLevel :: log_level
  g_output :: nat
  g_flush :: nat
  t_time :: string
  t_lastSecond :: int
  log_calls :: "log_call list"

text \<open>As the process starts: \<open>defaultOutput\<close> and \<open>defaultFlush\<close> are the numbers 0, the cache is zero.\<close>

definition init_logging :: "bool \<Rightarrow> logging" where
  "init_logging env = \<lparr>g_logLevel = initLogLevel env, g_output = 0, g_flush = 0, t_time = [], t_lastSecond = 0,
     log_calls = []\<rparr>"

record log_env =
  clock :: timestamp
  own_tid :: int
  errno_now :: "32 word"
  strerror_tl :: "32 word \<Rightarrow> string"

record log_impl =
  impl_time :: timestamp
  impl_stream :: log_stream
  impl_level :: log_level
  impl_line :: "32 word"
  impl_basename :: string

section \<open>Logger\<close>

definition logLevel :: "logging \<Rightarrow> log_level" where "logLevel g = g_logLevel g"
definition setLogLevel :: "log_level \<Rightarrow> logging \<Rightarrow> logging" where "setLogLevel v g = g\<lparr>g_logLevel := v\<rparr>"
definition setOutput :: "nat \<Rightarrow> logging \<Rightarrow> logging" where "setOutput out g = g\<lparr>g_output := out\<rparr>"
definition setFlush :: "nat \<Rightarrow> logging \<Rightarrow> logging" where "setFlush flush g = g\<lparr>g_flush := flush\<rparr>"

text \<open>\<open>strrchr(file, '/')\<close>, and what follows it.\<close>

definition basename_of :: "string \<Rightarrow> string" where
  "basename_of file = rev (takeWhile (\<lambda>c. c \<noteq> CHR ''/'') (rev file))"

text \<open>\<open>%4d%02d%02d %02d:%02d:%02d\<close>\<close>

definition second_text :: "int \<Rightarrow> string" where
  "second_text seconds =
     (let tm_time = gmtime_r seconds
      in dec_width 4 (tm_year tm_time + 1900) @ dec_zero 2 (tm_mon tm_time + 1)
           @ dec_zero 2 (tm_mday tm_time) @ CHR '' '' # dec_zero 2 (tm_hour tm_time) @ CHR '':'' #
           dec_zero 2 (tm_min tm_time) @ CHR '':'' # dec_zero 2 (tm_sec tm_time))"

definition put_new_T :: "string \<Rightarrow> int \<Rightarrow> log_stream \<Rightarrow> log_stream result" where
  "put_new_T str len s = rbind (new_T str len) (\<lambda>v. put_T v s)"

definition formatTime :: "log_impl \<Rightarrow> logging \<Rightarrow> (log_impl \<times> logging) result" where
  "formatTime impl g =
     (let seconds = impl_time impl sdiv 1000000;
          microseconds = impl_time impl smod 1000000
      in rbind (if seconds \<noteq> t_lastSecond g
                then let text = second_text seconds
                     in check (length text = 17) (Assertion 116)
                          (Inr (g\<lparr>t_lastSecond := seconds, t_time := take 31 text\<rparr>))
                else Inr g) (\<lambda>g.
         rbind (new_Fmt (CHR ''.'' # dec_zero 6 microseconds @ ''Z '')) (\<lambda>us.
         check (length us = 9) (Assertion 119)
           (rbind (put_new_T (t_time g) 17 (impl_stream impl)) (\<lambda>s.
            rbind (put_new_T us 9 s) (\<lambda>s. Inr (impl\<lparr>impl_stream := s\<rparr>, g)))))))"

definition new_Impl :: "log_level \<Rightarrow> 32 word \<Rightarrow> string \<Rightarrow> 32 word \<Rightarrow> log_env \<Rightarrow> logging \<Rightarrow> (log_impl \<times> logging) result" where
  "new_Impl level savedErrno file line env g =
     (let impl = \<lparr>impl_time = clock env, impl_stream = new_LogStream, impl_level = level, impl_line = line,
                   impl_basename = basename_of file\<rparr>
      in rbind (formatTime impl g) (\<lambda>(impl, g).
         rbind (new_Fmt (dec_width 5 (own_tid env) @ '' '')) (\<lambda>tid.
         check (length tid = 6) (Assertion 93)
           (rbind (put_new_T tid 6 (impl_stream impl)) (\<lambda>s.
            rbind (put_new_T (LogLevelName level) 6 s) (\<lambda>s.
            rbind (if savedErrno \<noteq> 0
                   then rbind (put_cstr (strerror_tl env savedErrno) s) (\<lambda>s.
                        rbind (put_cstr '' (errno='' s) (\<lambda>s.
                        rbind (put_int savedErrno s) (\<lambda>s.
                        put_cstr '') '' s)))
                   else Inr s) (\<lambda>s.
            Inr (impl\<lparr>impl_stream := s\<rparr>, g))))))))"

definition finish :: "log_impl \<Rightarrow> log_impl result" where
  "finish impl =
     rbind (put_cstr '' - '' (impl_stream impl)) (\<lambda>s.
     rbind (put_cstr (impl_basename impl) s) (\<lambda>s.
     rbind (put_char (CHR '':'') s) (\<lambda>s.
     rbind (put_int (impl_line impl) s) (\<lambda>s.
     rbind (put_char (CHR 0x0A) s) (\<lambda>s.
     Inr (impl\<lparr>impl_stream := s\<rparr>))))))"

text \<open>The constructors of \<open>Logger\<close>.\<close>

definition new_Logger :: "string \<Rightarrow> 32 word \<Rightarrow> log_env \<Rightarrow> logging \<Rightarrow> (log_impl \<times> logging) result" where
  "new_Logger file line = new_Impl INFO 0 file line"

definition new_Logger_level :: "string \<Rightarrow> 32 word \<Rightarrow> log_level \<Rightarrow> log_env \<Rightarrow> logging \<Rightarrow> (log_impl \<times> logging) result" where
  "new_Logger_level file line level = new_Impl level 0 file line"

definition new_Logger_func ::
    "string \<Rightarrow> 32 word \<Rightarrow> log_level \<Rightarrow> string \<Rightarrow> log_env \<Rightarrow> logging \<Rightarrow> (log_impl \<times> logging) result" where
  "new_Logger_func file line level func env g =
     rbind (new_Impl level 0 file line env g) (\<lambda>(impl, g).
     rbind (put_cstr func (impl_stream impl)) (\<lambda>s.
     rbind (put_char (CHR '' '') s) (\<lambda>s. Inr (impl\<lparr>impl_stream := s\<rparr>, g))))"

definition new_Logger_errno :: "string \<Rightarrow> 32 word \<Rightarrow> bool \<Rightarrow> log_env \<Rightarrow> logging \<Rightarrow> (log_impl \<times> logging) result" where
  "new_Logger_errno file line toAbort env = new_Impl (if toAbort then FATAL else ERROR) (errno_now env) file line env"

text \<open>\<open>abort()\<close> ends the process with what was given to the output and flushed.\<close>

definition delete_Logger :: "log_impl \<Rightarrow> logging \<Rightarrow> (logging \<times> bool) result" where
  "delete_Logger impl g =
     rbind (finish impl) (\<lambda>impl.
     let g = g\<lparr>log_calls := log_calls g @ [Output (g_output g) (asString (impl_stream impl))]\<rparr>
     in if impl_level impl = FATAL
        then Inr (g\<lparr>log_calls := log_calls g @ [Flush (g_flush g)]\<rparr>, True)
        else Inr (g, False))"

section \<open>Log statements\<close>

text \<open>
  The macros: which \<open>Logger\<close> each constructs, and under what condition. Their value is the state
  and whether the process was aborted.
\<close>

datatype log_macro = LOG_TRACE | LOG_DEBUG | LOG_INFO | LOG_WARN | LOG_ERROR | LOG_FATAL | LOG_SYSERR | LOG_SYSFATAL

definition macro_level :: "log_macro \<Rightarrow> log_level" where
  "macro_level k = (case k of LOG_TRACE \<Rightarrow> TRACE | LOG_DEBUG \<Rightarrow> DEBUG | LOG_INFO \<Rightarrow> INFO | LOG_WARN \<Rightarrow> WARN
     | LOG_ERROR \<Rightarrow> ERROR | LOG_FATAL \<Rightarrow> FATAL | LOG_SYSERR \<Rightarrow> ERROR | LOG_SYSFATAL \<Rightarrow> FATAL)"

definition macro_enabled :: "log_macro \<Rightarrow> logging \<Rightarrow> bool" where
  "macro_enabled k g = (case k of LOG_TRACE \<Rightarrow> logLevel g \<le> TRACE | LOG_DEBUG \<Rightarrow> logLevel g \<le> DEBUG
     | LOG_INFO \<Rightarrow> logLevel g \<le> INFO | _ \<Rightarrow> True)"

definition macro_Logger ::
    "log_macro \<Rightarrow> string \<Rightarrow> 32 word \<Rightarrow> string \<Rightarrow> log_env \<Rightarrow> logging \<Rightarrow> (log_impl \<times> logging) result" where
  "macro_Logger k file line func = (case k of
      LOG_TRACE \<Rightarrow> new_Logger_func file line TRACE func
    | LOG_DEBUG \<Rightarrow> new_Logger_func file line DEBUG func
    | LOG_INFO \<Rightarrow> new_Logger file line
    | LOG_WARN \<Rightarrow> new_Logger_level file line WARN
    | LOG_ERROR \<Rightarrow> new_Logger_level file line ERROR
    | LOG_FATAL \<Rightarrow> new_Logger_level file line FATAL
    | LOG_SYSERR \<Rightarrow> new_Logger_errno file line False
    | LOG_SYSFATAL \<Rightarrow> new_Logger_errno file line True)"

definition log_statement ::
    "log_macro \<Rightarrow> string \<Rightarrow> 32 word \<Rightarrow> string \<Rightarrow> piece list \<Rightarrow> log_env \<Rightarrow> logging \<Rightarrow> (logging \<times> bool) result" where
  "log_statement k file line func ps env g =
     (if macro_enabled k g
      then rbind (macro_Logger k file line func env g) (\<lambda>(impl, g).
           rbind (for_each put ps (impl_stream impl)) (\<lambda>s.
           delete_Logger (impl\<lparr>impl_stream := s\<rparr>) g))
      else Inr (g, False))"

definition CheckNotNull :: "string \<Rightarrow> 32 word \<Rightarrow> string \<Rightarrow> bool \<Rightarrow> log_env \<Rightarrow> logging \<Rightarrow> (logging \<times> bool) result" where
  "CheckNotNull file line nms null env g =
     (if null then log_statement LOG_FATAL file line [] [P_cstr nms] env g else Inr (g, False))"

section \<open>Lemmas\<close>

text \<open>The cached second is the text of its number, once there is one.\<close>

definition cache_ok :: "logging \<Rightarrow> bool" where
  "cache_ok g \<longleftrightarrow> t_lastSecond g = 0 \<or> t_time g = second_text (t_lastSecond g)"

text \<open>A time the logger can print: after the first second of 1970 and with a year of four digits.\<close>

definition printable_time :: "timestamp \<Rightarrow> bool" where
  "printable_time t \<longleftrightarrow> 1000000 \<le> t \<and> 0 \<le> tm_year (gmtime_r (t div 1000000)) + 1900
     \<and> tm_year (gmtime_r (t div 1000000)) + 1900 < 10000"

definition micro_text :: "timestamp \<Rightarrow> string" where
  "micro_text t = CHR ''.'' # dec_zero 6 (t mod 1000000) @ ''Z ''"

lemma printable_time:
  assumes "printable_time t"
  shows "t sdiv 1000000 = t div 1000000" "t smod 1000000 = t mod 1000000" "t div 1000000 \<noteq> 0"
    "length (micro_text t) = 9"
proof -
  have "1000000 \<le> t" using assms by (simp add: printable_time_def)
  then have "1000000 div 1000000 \<le> t div 1000000" by (intro zdiv_mono1) simp_all
  then show "t div 1000000 \<noteq> 0" by simp
  show "t sdiv 1000000 = t div 1000000" "t smod 1000000 = t mod 1000000"
    using \<open>1000000 \<le> t\<close> by (simp_all add: sdiv_nonneg smod_nonneg)
  show "length (micro_text t) = 9" using length_dec_zero[of "t mod 1000000" 5] by (simp add: micro_text_def)
qed

lemma length_dec_width: "0 \<le> i \<Longrightarrow> i < 10 * 10 ^ w \<Longrightarrow> length (dec_width (Suc w) i) = Suc w"
  using length_dec_nat_le[of "nat i" w] by (simp add: dec_width_def pad_left_def dec_int_def nat_less_iff)

lemma length_two: "0 \<le> n \<Longrightarrow> n < 100 \<Longrightarrow> length (dec_zero 2 n) = 2"
  using length_dec_zero[of n 1] by (simp add: numeral_2_eq_2)

lemma mod_60: "0 \<le> n mod 60" "n mod 60 < 100" for n :: int
  using pos_mod_bound[of 60 n] by (simp, linarith)

lemma length_second_text:
  assumes "printable_time t"
  shows "length (second_text (t div 1000000)) = 17"
proof -
  define s where "s = t div 1000000"
  define tm where "tm = gmtime_r s"
  define n where "n = s mod kSecondsPerDay"
  have "0 \<le> s" using assms by (simp add: s_def printable_time_def pos_imp_zdiv_nonneg_iff)
  then have s: "- 2440588 * 86400 \<le> s" by simp
  obtain m d where f: "tm_mon tm = m - 1" "1 \<le> m" "m \<le> 12" "tm_mday tm = d" "1 \<le> d" "d \<le> 31"
    "tm_sec tm = n mod 60" "tm_min tm = n div 60 mod 60" "tm_hour tm = n div 60 div 60"
    using utc_fields[OF s, of True] unfolding tm_def gmtime_r_def n_def by blast
  have h: "0 \<le> n div 60 div 60" "n div 60 div 60 < 100"
    using hms_roundtrip(2,3)[OF second_of_day[of s, folded n_def]] by simp_all
  have "length (dec_zero 2 (tm_mon tm + 1)) = 2" "length (dec_zero 2 (tm_mday tm)) = 2"
    "length (dec_zero 2 (tm_sec tm)) = 2" "length (dec_zero 2 (tm_min tm)) = 2" "length (dec_zero 2 (tm_hour tm)) = 2"
    unfolding f(1,4,7-9) by (rule length_two; use f(2,3,5,6) h mod_60 in simp)+
  moreover have "length (dec_width 4 (tm_year tm + 1900)) = 4"
    using assms length_dec_width[of "tm_year tm + 1900" 3] by (simp add: printable_time_def s_def tm_def numeral_eq_Suc)
  ultimately show ?thesis by (simp add: s_def[symmetric] second_text_def tm_def Let_def)
qed

lemma formatTime_eq:
  assumes t: "printable_time (impl_time impl)" and c: "cache_ok g"
  shows "\<exists>c l. cache_ok (g\<lparr>t_time := c, t_lastSecond := l\<rparr>) \<and> formatTime impl g
    = rbind (for_each put [P_T (second_text (impl_time impl div 1000000)) 17, P_T (micro_text (impl_time impl)) 9] (impl_stream impl))
        (\<lambda>s. Inr (impl\<lparr>impl_stream := s\<rparr>, g\<lparr>t_time := c, t_lastSecond := l\<rparr>))"
proof -
  define sec where "sec = impl_time impl div 1000000"
  note T = printable_time[OF t, folded sec_def] length_second_text[OF t, folded sec_def]
  let ?g = "g\<lparr>t_time := second_text sec, t_lastSecond := sec\<rparr>"
  have a: "(if sec \<noteq> t_lastSecond g
      then check (length (second_text sec) = 17) (Assertion 116)
        (Inr (g\<lparr>t_lastSecond := sec, t_time := take 31 (second_text sec)\<rparr>)) else Inr g) = Inr ?g"
    using c T(3) by (auto simp: cache_ok_def T(5))
  have b: "new_Fmt (micro_text (impl_time impl)) = Inr (micro_text (impl_time impl))"
    by (simp add: new_Fmt_def T(4))
  have "formatTime impl g = rbind (put_new_T (second_text sec) 17 (impl_stream impl)) (\<lambda>s.
      rbind (put_new_T (micro_text (impl_time impl)) 9 s) (\<lambda>s. Inr (impl\<lparr>impl_stream := s\<rparr>, ?g)))"
    unfolding formatTime_def Let_def T(1,2) micro_text_def[symmetric] sec_def[symmetric] a rbind.simps b
    by (simp add: T(4))
  then show ?thesis
    unfolding sec_def[symmetric]
    by (intro exI[of _ "second_text sec"] exI[of _ sec] conjI)
      (simp_all add: cache_ok_def put_def put_new_T_def rbind_assoc)
qed

text \<open>What the constructors and the destructor insert.\<close>

definition tid_text :: "log_env \<Rightarrow> string" where
  "tid_text env = dec_width 5 (own_tid env) @ '' ''"

definition head_pieces :: "log_level \<Rightarrow> 32 word \<Rightarrow> log_env \<Rightarrow> piece list" where
  "head_pieces level savedErrno env =
     [P_T (second_text (clock env div 1000000)) 17, P_T (micro_text (clock env)) 9, P_T (tid_text env) 6,
      P_T (LogLevelName level) 6]
     @ (if savedErrno \<noteq> 0
        then [P_cstr (strerror_tl env savedErrno), P_cstr '' (errno='', P_int savedErrno, P_cstr '') '']
        else [])"

definition macro_pieces :: "log_macro \<Rightarrow> string \<Rightarrow> log_env \<Rightarrow> piece list" where
  "macro_pieces k func env =
     head_pieces (macro_level k) (if k \<in> {LOG_SYSERR, LOG_SYSFATAL} then errno_now env else 0) env
     @ (if k \<in> {LOG_TRACE, LOG_DEBUG} then [P_cstr func, P_char (CHR '' '')] else [])"

definition tail_pieces :: "string \<Rightarrow> 32 word \<Rightarrow> piece list" where
  "tail_pieces file line = [P_cstr '' - '', P_cstr (basename_of file), P_char (CHR '':''), P_int line, P_char (CHR 0x0A)]"

lemma length_tid_text: "0 \<le> own_tid env \<Longrightarrow> length (tid_text env) = 6 \<longleftrightarrow> own_tid env < 100000"
proof -
  assume t: "0 \<le> own_tid env"
  have "length (dec_nat (nat (own_tid env))) \<le> Suc 4 \<longleftrightarrow> nat (own_tid env) < 10 * 10 ^ 4"
    by (rule length_dec_nat_le)
  also have "... \<longleftrightarrow> own_tid env < 100000" using t by (simp add: nat_less_iff)
  finally have "length (dec_nat (nat (own_tid env))) \<le> 5 \<longleftrightarrow> own_tid env < 100000" by simp
  then show ?thesis using t by (simp add: tid_text_def dec_width_def pad_left_def dec_int_def) linarith
qed

lemma new_Impl_eq:
  assumes t: "printable_time (clock env)" and c: "cache_ok g" and tid: "0 \<le> own_tid env" "own_tid env < 2 ^ 31"
  shows "\<exists>c l. cache_ok (g\<lparr>t_time := c, t_lastSecond := l\<rparr>) \<and> new_Impl level savedErrno file line env g
    = (if own_tid env < 100000
       then rbind (for_each put (head_pieces level savedErrno env) new_LogStream) (\<lambda>s.
         Inr (\<lparr>impl_time = clock env, impl_stream = s, impl_level = level, impl_line = line,
               impl_basename = basename_of file\<rparr>, g\<lparr>t_time := c, t_lastSecond := l\<rparr>))
       else Inl (Assertion 93))"
proof -
  let ?impl = "\<lparr>impl_time = clock env, impl_stream = new_LogStream, impl_level = level, impl_line = line,
    impl_basename = basename_of file\<rparr>"
  let ?time = "[P_T (second_text (clock env div 1000000)) 17, P_T (micro_text (clock env)) 9]"
  obtain c' l where cl: "cache_ok (g\<lparr>t_time := c', t_lastSecond := l\<rparr>)" "formatTime ?impl g
      = rbind (for_each put ?time new_LogStream) (\<lambda>s. Inr (?impl\<lparr>impl_stream := s\<rparr>, g\<lparr>t_time := c', t_lastSecond := l\<rparr>))"
    using formatTime_eq[of ?impl g] t c by auto
  have "\<forall>p \<in> set ?time. proper p"
    using printable_time(4)[OF t] length_second_text[OF t] by (simp add: proper_def)
  then obtain s where s: "for_each put ?time new_LogStream = Inr s"
    using put_all[of ?time new_LogStream]
    by (auto simp: new_LogStream_def new_FixedBuffer_def kSmallBuffer_def fb_length_def)
  have "length (dec_nat (nat (own_tid env))) \<le> Suc 9"
    unfolding length_dec_nat_le using tid by (simp add: nat_less_iff)
  then have f: "new_Fmt (tid_text env) = Inr (tid_text env)"
    using tid(1) by (simp add: new_Fmt_def tid_text_def dec_width_def pad_left_def dec_int_def)
  note init = new_Impl_def Let_def cl(2) s rbind.simps prod.case tid_text_def[symmetric] f length_tid_text[OF tid(1)]
  show ?thesis
  proof (cases "own_tid env < 100000")
    case True
    define rest where "rest = drop 2 (head_pieces level savedErrno env)"
    have hp: "head_pieces level savedErrno env = ?time @ rest" by (simp add: rest_def head_pieces_def)
    have "new_Impl level savedErrno file line env g
      = rbind (for_each put rest s) (\<lambda>s. Inr (?impl\<lparr>impl_stream := s\<rparr>, g\<lparr>t_time := c', t_lastSecond := l\<rparr>))"
      unfolding init using True by (simp add: rest_def head_pieces_def put_def put_new_T_def rbind_assoc)
    then show ?thesis
      unfolding hp for_each_append s rbind.simps using cl(1) True by (intro exI[of _ c'] exI[of _ l]) simp
  next
    case False
    then have "new_Impl level savedErrno file line env g = Inl (Assertion 93)" unfolding init by simp
    then show ?thesis using cl(1) False by auto
  qed
qed

lemma macro_Logger_eq:
  assumes "printable_time (clock env)" "cache_ok g" "0 \<le> own_tid env" "own_tid env < 2 ^ 31"
  shows "\<exists>c l. cache_ok (g\<lparr>t_time := c, t_lastSecond := l\<rparr>) \<and> macro_Logger k file line func env g
    = (if own_tid env < 100000
       then rbind (for_each put (macro_pieces k func env) new_LogStream) (\<lambda>s.
         Inr (\<lparr>impl_time = clock env, impl_stream = s, impl_level = macro_level k, impl_line = line,
               impl_basename = basename_of file\<rparr>, g\<lparr>t_time := c, t_lastSecond := l\<rparr>))
       else Inl (Assertion 93))"
proof -
  let ?e = "if k \<in> {LOG_SYSERR, LOG_SYSFATAL} then errno_now env else 0"
  obtain c' l where cl: "cache_ok (g\<lparr>t_time := c', t_lastSecond := l\<rparr>)" "new_Impl (macro_level k) ?e file line env g
    = (if own_tid env < 100000
       then rbind (for_each put (head_pieces (macro_level k) ?e env) new_LogStream) (\<lambda>s.
         Inr (\<lparr>impl_time = clock env, impl_stream = s, impl_level = macro_level k, impl_line = line,
               impl_basename = basename_of file\<rparr>, g\<lparr>t_time := c', t_lastSecond := l\<rparr>))
       else Inl (Assertion 93))"
    using new_Impl_eq[OF assms, of "macro_level k" ?e "file" line] by blast
  then show ?thesis
    by (intro exI[of _ c'] exI[of _ l], cases k)
      (simp_all add: macro_Logger_def macro_pieces_def macro_level_def new_Logger_def new_Logger_level_def
        new_Logger_errno_def new_Logger_func_def for_each_append put_def rbind_assoc)
qed

lemma LogLevelName_length: "length (LogLevelName v) = 6"
  by (cases v) (simp_all add: LogLevelName_def)

lemma macro_pieces_proper:
  assumes "printable_time (clock env)" "0 \<le> own_tid env" "own_tid env < 100000"
  shows "\<forall>p \<in> set (macro_pieces k func env). proper p"
  using printable_time(4)[OF assms(1)] length_second_text[OF assms(1)] length_tid_text[OF assms(2)] assms(3)
  by (auto simp: macro_pieces_def head_pieces_def proper_def LogLevelName_length)

lemma tail_pieces_proper: "\<forall>p \<in> set (tail_pieces file line). proper p"
  by (simp add: tail_pieces_def proper_def)

lemma pieces_text:
  "concat (map piece_text (macro_pieces k func env @ ps @ tail_pieces file line))
    = second_text (clock env div 1000000) @ micro_text (clock env) @ tid_text env @ LogLevelName (macro_level k)
      @ (if k \<in> {LOG_SYSERR, LOG_SYSFATAL} \<and> errno_now env \<noteq> 0
         then strerror_tl env (errno_now env) @ '' (errno='' @ dec_int (sint (errno_now env)) @ '') '' else [])
      @ (if k \<in> {LOG_TRACE, LOG_DEBUG} then func @ '' '' else [])
      @ concat (map piece_text ps)
      @ '' - '' @ basename_of file @ '':'' @ dec_int (sint line) @ [CHR 0x0A]"
  by (cases k) (simp_all add: macro_pieces_def head_pieces_def tail_pieces_def piece_text_def)

lemma delete_Logger_eq:
  assumes "finish impl = Inr (impl\<lparr>impl_stream := s\<rparr>)"
  shows "delete_Logger impl g = Inr (g\<lparr>log_calls := log_calls g @ Output (g_output g) (fb_bytes s)
      # (if impl_level impl = FATAL then [Flush (g_flush g)] else [])\<rparr>, impl_level impl = FATAL)"
  using assms by (simp add: delete_Logger_def asString_def Let_def)

lemma finish_eq: "finish impl = rbind (for_each put (tail_pieces f (impl_line impl)) (impl_stream impl))
    (\<lambda>s. Inr (impl\<lparr>impl_stream := s\<rparr>))" if "impl_basename impl = basename_of f"
  by (simp add: finish_def tail_pieces_def put_def rbind_assoc that)

section \<open>Properties\<close>

text \<open>C15: A log statement writes its line. When the level is enabled, the output function is called
  once, with the date and time of the clock to the microsecond, the number of the thread, the level,
  the text of \<open>errno\<close> for the two system macros, the name of the function for the two debugging ones,
  what was inserted, the file without its directories and the line, whatever the time cache of the
  thread holds; a fatal statement then flushes and aborts. A thread whose number has six digits or
  more, which Linux gives out on busy or large machines, fails an assertion instead; and a statement
  below the level does nothing.\<close>

theorem log_line:
  assumes t: "printable_time (clock env)" and c: "cache_ok g" and tid: "0 \<le> own_tid env" "own_tid env < 2 ^ 31"
    and ps: "\<forall>p \<in> set ps. proper p"
    and room: "sum_list (map needs (macro_pieces k func env @ ps @ tail_pieces file line)) \<le> 4000"
  shows "(macro_enabled k g \<longrightarrow> own_tid env < 100000 \<longrightarrow> (\<exists>g'. cache_ok g'
      \<and> log_statement k file line func ps env g = Inr (g', k \<in> {LOG_FATAL, LOG_SYSFATAL})
      \<and> log_calls g' = log_calls g @ [Output (g_output g)
          (second_text (clock env div 1000000) @ micro_text (clock env) @ tid_text env @ LogLevelName (macro_level k)
           @ (if k \<in> {LOG_SYSERR, LOG_SYSFATAL} \<and> errno_now env \<noteq> 0
              then strerror_tl env (errno_now env) @ '' (errno='' @ dec_int (sint (errno_now env)) @ '') '' else [])
           @ (if k \<in> {LOG_TRACE, LOG_DEBUG} then func @ '' '' else [])
           @ concat (map piece_text ps)
           @ '' - '' @ basename_of file @ '':'' @ dec_int (sint line) @ [CHR 0x0A])]
        @ (if k \<in> {LOG_FATAL, LOG_SYSFATAL} then [Flush (g_flush g)] else [])))
    \<and> (macro_enabled k g \<longrightarrow> 100000 \<le> own_tid env \<longrightarrow> log_statement k file line func ps env g = Inl (Assertion 93))
    \<and> (\<not> macro_enabled k g \<longrightarrow> log_statement k file line func ps env g = Inr (g, False))"
proof -
  obtain c' l where cl: "cache_ok (g\<lparr>t_time := c', t_lastSecond := l\<rparr>)" "macro_Logger k file line func env g
    = (if own_tid env < 100000
       then rbind (for_each put (macro_pieces k func env) new_LogStream) (\<lambda>s.
         Inr (\<lparr>impl_time = clock env, impl_stream = s, impl_level = macro_level k, impl_line = line,
               impl_basename = basename_of file\<rparr>, g\<lparr>t_time := c', t_lastSecond := l\<rparr>))
       else Inl (Assertion 93))"
    using macro_Logger_eq[OF t c tid, of k "file" line func] by blast
  let ?ps = "macro_pieces k func env @ ps @ tail_pieces file line"
  have new: "fb_length new_LogStream = 0" "fb_size new_LogStream = 4000" "fb_avail new_LogStream = 4000"
    "fb_bytes new_LogStream = []"
    by (simp_all add: new_LogStream_def new_FixedBuffer_def kSmallBuffer_def fb_length_def fb_avail_def)
  show ?thesis
  proof (cases "macro_enabled k g")
    case False
    then show ?thesis by (simp add: log_statement_def)
  next
    case en: True
    show ?thesis
    proof (cases "own_tid env < 100000")
      case False
      then show ?thesis using en cl(2) by (simp add: log_statement_def)
    next
      case True
      have "\<forall>p \<in> set ?ps. proper p"
        using macro_pieces_proper[OF t tid(1) True] ps tail_pieces_proper by auto
      then obtain s where s: "for_each put ?ps new_LogStream = Inr s" "fb_bytes s = concat (map piece_text ?ps)"
        using put_all[of ?ps new_LogStream] room unfolding new by auto
      then obtain s1 s2 where s12: "for_each put (macro_pieces k func env) new_LogStream = Inr s1"
        "for_each put ps s1 = Inr s2" "for_each put (tail_pieces file line) s2 = Inr s"
        by (auto simp: for_each_append result_simps)
      define impl where "impl = \<lparr>impl_time = clock env, impl_stream = s2, impl_level = macro_level k, impl_line = line,
        impl_basename = basename_of file\<rparr>"
      have "log_statement k file line func ps env g = delete_Logger impl (g\<lparr>t_time := c', t_lastSecond := l\<rparr>)"
        using en True cl(2) s12(1,2) by (simp add: log_statement_def impl_def)
      moreover have "finish impl = Inr (impl\<lparr>impl_stream := s\<rparr>)"
        using finish_eq[of impl "file"] s12(3) by (simp add: impl_def)
      moreover have "impl_level impl = FATAL \<longleftrightarrow> k \<in> {LOG_FATAL, LOG_SYSFATAL}"
        by (cases k) (simp_all add: impl_def macro_level_def)
      ultimately show ?thesis
        using en True cl(1) by (simp only: delete_Logger_eq s(2) pieces_text) (simp add: cache_ok_def)
    qed
  qed
qed

definition wit_env :: log_env where
  "wit_env = \<lparr>clock = 86400000042, own_tid = 4711, errno_now = 0, strerror_tl = (\<lambda>_. [])\<rparr>"

lemma wit_env_printable: "printable_time (clock wit_env)"
proof -
  have "getYearMonthDay 2440589 = \<lparr>ymd_year = 1970, ymd_month = 1, ymd_day = 2\<rparr>" by code_simp
  moreover have "86400 div kSecondsPerDay = 1" "86400 mod kSecondsPerDay = 0" by (simp_all add: kSecondsPerDay_def)
  ultimately have "tm_year (gmtime_r 86400) = 70"
    by (simp add: gmtime_r_def toUtcTime_eq epoch_day Let_def fillHMS_def)
  then show ?thesis by (simp add: printable_time_def wit_env_def)
qed

theorem log_line_witness:
  "\<exists>g' head. log_statement LOG_WARN ''net/EventLoop.cpp'' 42 ''loop'' [P_cstr ''quit''] wit_env (init_logging False) = Inr (g', False)
    \<and> log_calls g' = [Output 0 (head @ ''WARN  quit - EventLoop.cpp:42'' @ [CHR 0x0A])]"
proof -
  have line: "dec_int (sint (42 :: 32 word)) = ''42''" by code_simp
  have base: "basename_of ''net/EventLoop.cpp'' = ''EventLoop.cpp''" by (simp add: basename_of_def)
  have tid: "0 \<le> own_tid wit_env" "own_tid wit_env < 100000" by (simp_all add: wit_env_def)
  have "cache_ok (init_logging False)" by (simp add: cache_ok_def init_logging_def)
  moreover have "macro_enabled LOG_WARN (init_logging False)" by (simp add: macro_enabled_def)
  moreover have "sum_list (map needs (macro_pieces LOG_WARN ''loop'' wit_env @ [P_cstr ''quit''] @ tail_pieces ''net/EventLoop.cpp'' 42)) \<le> 4000"
    using printable_time(4)[OF wit_env_printable] length_second_text[OF wit_env_printable] length_tid_text[OF tid(1)] tid(2)
    by (simp add: macro_pieces_def head_pieces_def tail_pieces_def needs_def numeric_def piece_text_def base LogLevelName_length)
  ultimately obtain g' where "log_statement LOG_WARN ''net/EventLoop.cpp'' 42 ''loop'' [P_cstr ''quit''] wit_env (init_logging False)
      = Inr (g', LOG_WARN \<in> {LOG_FATAL, LOG_SYSFATAL})"
    "log_calls g' = log_calls (init_logging False) @ [Output (g_output (init_logging False))
      (second_text (clock wit_env div 1000000) @ micro_text (clock wit_env) @ tid_text wit_env @ LogLevelName (macro_level LOG_WARN)
       @ (if LOG_WARN \<in> {LOG_SYSERR, LOG_SYSFATAL} \<and> errno_now wit_env \<noteq> 0
          then strerror_tl wit_env (errno_now wit_env) @ '' (errno='' @ dec_int (sint (errno_now wit_env)) @ '') '' else [])
       @ (if LOG_WARN \<in> {LOG_TRACE, LOG_DEBUG} then ''loop'' @ '' '' else []) @ concat (map piece_text [P_cstr ''quit''])
       @ '' - '' @ basename_of ''net/EventLoop.cpp'' @ '':'' @ dec_int (sint (42 :: 32 word)) @ [CHR 0x0A])]
      @ (if LOG_WARN \<in> {LOG_FATAL, LOG_SYSFATAL} then [Flush (g_flush (init_logging False))] else [])"
    using log_line[OF wit_env_printable, of "init_logging False" "[P_cstr ''quit'']" LOG_WARN "''loop''"
        "''net/EventLoop.cpp''" 42] tid by (auto simp: proper_def)
  then show ?thesis
    using line base by (intro exI[of _ g'] exI[of _ "second_text (clock wit_env div 1000000) @ micro_text (clock wit_env) @ tid_text wit_env"])
      (simp add: init_logging_def LogLevelName_def macro_level_def piece_text_def)
qed

end
