(* ===== verification/Log_Files.thy ===== *)
theory Log_Files
  imports Time_Zones
begin

text \<open>
  Rolling log files: src/base/logging/LogFile.h and LogFile.cc. What \<open>time\<close> and \<open>fwrite_unlocked\<close> will
  answer is part of the state, and the files are those opened so far, with the bytes given to each;
  opening a file succeeds. The mutex of a thread-safe \<open>LogFile\<close> is taken for the whole of \<open>append\<close>
  and \<open>flush\<close>, which makes them the steps modelled here.
\<close>

section \<open>State\<close>

definition kCheckTimeRoll :: int where "kCheckTimeRoll = 1024"
definition kRollPerSeconds :: int where "kRollPerSeconds = 60 * 60 * 24"

record log_file =
  basename :: string
  rollSize :: nat
  flushInterval :: int
  count :: int
  startOfPeriod :: int
  lastRoll :: int
  lastFlush :: int
  writtenBytes :: "nat option"
  files :: "(string \<times> string) list"
  unflushed :: bool
  clocks :: "int list"
  fwrites :: "nat list"
  pid :: int

text \<open>\<open>writtenBytes\<close> is that of \<open>file_\<close>, which is null as long as there is none. The clock stays at its last answer.\<close>

definition sys_time :: "log_file \<Rightarrow> int \<times> log_file" where
  "sys_time f = (case clocks f of [] \<Rightarrow> (0, f) | [t] \<Rightarrow> (t, f) | t # ts \<Rightarrow> (t, f\<lparr>clocks := ts\<rparr>))"

section \<open>LogFile::File\<close>

definition new_File :: "string \<Rightarrow> log_file \<Rightarrow> log_file" where
  "new_File filename f = f\<lparr>writtenBytes := Some 0, files := files f @ [(filename, [])], unflushed := False\<rparr>"

definition add_bytes :: "string \<Rightarrow> (string \<times> string) list \<Rightarrow> (string \<times> string) list" where
  "add_bytes s fs = butlast fs @ [(fst (last fs), snd (last fs) @ s)]"

text \<open>\<open>fwrite_unlocked\<close> takes as many bytes as it will; all of them once the answers are used up.\<close>

definition file_write :: "string \<Rightarrow> log_file \<Rightarrow> nat \<times> log_file" where
  "file_write s f =
     (let n = (case fwrites f of [] \<Rightarrow> length s | n # ns \<Rightarrow> min n (length s))
      in (n, f\<lparr>fwrites := tl (fwrites f), files := add_bytes (take n s) (files f), unflushed := True\<rparr>))"

function write_rest :: "string \<Rightarrow> log_file \<Rightarrow> log_file" where
  "write_rest s f =
     (if s = [] then f
      else case file_write s f of (x, f) \<Rightarrow>
        if x = 0 then f else write_rest (drop x s) f)"
  by pat_completeness auto

termination write_rest
  by (relation "measure (\<lambda>(s, f). length s)") auto

declare write_rest.simps [simp del]

definition file_append :: "string \<Rightarrow> log_file \<Rightarrow> log_file result" where
  "file_append s f =
     (case writtenBytes f of
        None \<Rightarrow> Inl (Undefined 119)
      | Some w \<Rightarrow>
          (case file_write s f of (n, f) \<Rightarrow>
            let f = write_rest (drop n s) f
            in Inr (f\<lparr>writtenBytes := Some (w + length s)\<rparr>)))"

definition file_flush :: "log_file \<Rightarrow> log_file result" where
  "file_flush f = check (writtenBytes f \<noteq> None) (Undefined 109) (Inr (f\<lparr>unflushed := False\<rparr>))"

section \<open>LogFile\<close>

text \<open>\<open>.%Y%m%d-%H%M%S\<close>\<close>

definition roll_text :: "int \<Rightarrow> string" where
  "roll_text now =
     (let tm = gmtime_r now
      in CHR ''.'' # dec_int (tm_year tm + 1900) @ dec_zero 2 (tm_mon tm + 1) @ dec_zero 2 (tm_mday tm)
           @ CHR ''-'' # dec_zero 2 (tm_hour tm) @ dec_zero 2 (tm_min tm) @ dec_zero 2 (tm_sec tm))"

definition getLogFileName :: "log_file \<Rightarrow> (string \<times> int) \<times> log_file" where
  "getLogFileName f =
     (case sys_time f of (now, f) \<Rightarrow>
        ((basename f @ take 31 (roll_text now) @ take 31 (CHR ''.'' # dec_int (pid f)) @ ''.log'', now), f))"

definition rollFile :: "log_file \<Rightarrow> log_file" where
  "rollFile f =
     (case getLogFileName f of ((filename, now), f) \<Rightarrow>
        let start = now sdiv kRollPerSeconds * kRollPerSeconds
        in if now > lastRoll f
           then new_File filename (f\<lparr>lastRoll := now, lastFlush := now, startOfPeriod := start\<rparr>)
           else f)"

definition new_LogFile :: "string \<Rightarrow> nat \<Rightarrow> int \<Rightarrow> int list \<Rightarrow> nat list \<Rightarrow> int \<Rightarrow> log_file result" where
  "new_LogFile base limit interval ts ws p =
     check (CHR ''/'' \<notin> set base) (Assertion 83)
       (Inr (rollFile \<lparr>basename = base, rollSize = limit, flushInterval = interval, count = 0, startOfPeriod = 0,
          lastRoll = 0, lastFlush = 0, writtenBytes = None, files = [], unflushed = False, clocks = ts,
          fwrites = ws, pid = p\<rparr>))"

definition append_unlocked :: "string \<Rightarrow> log_file \<Rightarrow> log_file result" where
  "append_unlocked s f =
     rbind (file_append s f) (\<lambda>f.
     if (case writtenBytes f of None \<Rightarrow> False | Some w \<Rightarrow> w > rollSize f) then Inr (rollFile f)
     else if count f > kCheckTimeRoll
          then let f = f\<lparr>count := 0\<rparr>
               in case sys_time f of (now, f) \<Rightarrow>
                    let thisPeriod = now sdiv kRollPerSeconds * kRollPerSeconds
                    in if thisPeriod \<noteq> startOfPeriod f then Inr (rollFile f)
                       else if now - lastFlush f > flushInterval f
                            then file_flush (f\<lparr>lastFlush := now\<rparr>)
                            else Inr f
          else Inr (f\<lparr>count := count f + 1\<rparr>))"

definition log_append :: "string \<Rightarrow> log_file \<Rightarrow> log_file result" where
  "log_append s f = append_unlocked s f"

definition log_flush :: "log_file \<Rightarrow> log_file result" where
  "log_flush f = file_flush f"

section \<open>Lemmas\<close>

text \<open>Lines in groups, one for each file.\<close>

definition holds_lines :: "string list list \<Rightarrow> log_file \<Rightarrow> bool" where
  "holds_lines gs f \<longleftrightarrow> gs \<noteq> [] \<and> map snd (files f) = map concat gs \<and> 0 \<notin> set (fwrites f)
     \<and> writtenBytes f = Some (length (concat (last gs)))"

lemma add_bytes_snd: "fs \<noteq> [] \<Longrightarrow> map snd (add_bytes s fs) = butlast (map snd fs) @ [last (map snd fs) @ s]"
  by (simp add: add_bytes_def map_butlast last_map)

text \<open>What writing keeps.\<close>

definition same_log :: "log_file \<Rightarrow> log_file \<Rightarrow> bool" where
  "same_log f g \<longleftrightarrow> basename g = basename f \<and> rollSize g = rollSize f \<and> flushInterval g = flushInterval f
     \<and> count g = count f \<and> startOfPeriod g = startOfPeriod f \<and> lastRoll g = lastRoll f \<and> lastFlush g = lastFlush f
     \<and> writtenBytes g = writtenBytes f \<and> clocks g = clocks f \<and> pid g = pid f"

lemma file_write_eq:
  assumes "map snd (files f) = cs @ [c]" "0 \<notin> set (fwrites f)" "file_write s f = (n, g)"
  shows "n \<le> length s \<and> (s \<noteq> [] \<longrightarrow> 0 < n) \<and> 0 \<notin> set (fwrites g) \<and> map snd (files g) = cs @ [c @ take n s] \<and> same_log f g"
proof -
  have "files f \<noteq> []" using assms(1) by auto
  then have "map snd (add_bytes t (files f)) = cs @ [c @ t]" for t using assms(1) by (simp add: add_bytes_snd)
  then show ?thesis
    using assms(2,3) by (cases "fwrites f") (auto simp: file_write_def Let_def same_log_def)
qed

lemma write_rest_eq:
  "map snd (files f) = cs @ [c] \<Longrightarrow> 0 \<notin> set (fwrites f) \<Longrightarrow>
    0 \<notin> set (fwrites (write_rest s f)) \<and> map snd (files (write_rest s f)) = cs @ [c @ s] \<and> same_log f (write_rest s f)"
proof (induction s f arbitrary: c rule: write_rest.induct)
  case (1 s f)
  show ?case
  proof (cases "s = []")
    case True
    then show ?thesis using 1(2,3) by (simp add: write_rest.simps[of "[]" f] same_log_def)
  next
    case False
    obtain n g where w: "file_write s f = (n, g)" by fastforce
    note W = file_write_eq[OF 1(2,3) w]
    have e: "write_rest s f = write_rest (drop n s) g" using False w W by (simp add: write_rest.simps[of s f])
    show ?thesis
      unfolding e using 1(1)[OF False w[symmetric], of "c @ take n s"] W False by (auto simp: same_log_def)
  qed
qed

lemma file_append_eq:
  assumes "map snd (files f) = cs @ [c]" "0 \<notin> set (fwrites f)" "writtenBytes f = Some w"
  shows "\<exists>g. file_append s f = Inr g \<and> 0 \<notin> set (fwrites g) \<and> map snd (files g) = cs @ [c @ s]
    \<and> writtenBytes g = Some (w + length s) \<and> same_log (f\<lparr>writtenBytes := writtenBytes g\<rparr>) g"
proof -
  obtain n g where w: "file_write s f = (n, g)" by fastforce
  note W = file_write_eq[OF assms(1,2) w]
  then show ?thesis
    using write_rest_eq[of g cs "c @ take n s" "drop n s"] w assms(3)
    by (auto simp: file_append_def same_log_def Let_def)
qed

lemma rollFile_cases:
  "rollFile f = f\<lparr>clocks := clocks (rollFile f)\<rparr> \<and> fst (sys_time f) \<le> lastRoll f
   \<or> map snd (files (rollFile f)) = map snd (files f) @ [[]] \<and> writtenBytes (rollFile f) = Some 0
     \<and> fwrites (rollFile f) = fwrites f \<and> rollSize (rollFile f) = rollSize f \<and> lastRoll f < fst (sys_time f)"
  by (auto simp: rollFile_def getLogFileName_def sys_time_def new_File_def Let_def split: list.splits)

text \<open>The lines of the files when one more has been appended, before and after a roll.\<close>

definition with_line :: "string \<Rightarrow> string list list \<Rightarrow> string list list" where
  "with_line s gs = butlast gs @ [last gs @ [s]]"

lemma rollFile_size [simp]: "rollSize (rollFile f) = rollSize f"
  by (auto simp: rollFile_def getLogFileName_def sys_time_def new_File_def Let_def split: list.splits)

lemma holds_roll:
  assumes "holds_lines gs f"
  shows "holds_lines gs (rollFile f) \<and> fst (sys_time f) \<le> lastRoll f
    \<or> holds_lines (gs @ [[]]) (rollFile f) \<and> lastRoll f < fst (sys_time f)"
proof (cases "rollFile f = f\<lparr>clocks := clocks (rollFile f)\<rparr> \<and> fst (sys_time f) \<le> lastRoll f")
  case True
  then obtain c where "rollFile f = f\<lparr>clocks := c\<rparr>" "fst (sys_time f) \<le> lastRoll f" by blast
  then show ?thesis using assms by (simp add: holds_lines_def)
next
  case False
  then show ?thesis using rollFile_cases[of f] assms by (auto simp: holds_lines_def)
qed

lemma file_append_holds:
  assumes "holds_lines gs f"
  shows "\<exists>g. file_append s f = Inr g \<and> holds_lines (with_line s gs) g \<and> lastRoll g = lastRoll f
    \<and> clocks g = clocks f \<and> rollSize g = rollSize f"
proof -
  obtain hs h where gs: "gs = hs @ [h]" using assms by (cases gs rule: rev_cases) (auto simp: holds_lines_def)
  then have "map snd (files f) = map concat hs @ [concat h]" using assms by (simp add: holds_lines_def)
  from file_append_eq[OF this, of "length (concat h)" s] obtain g where
    "file_append s f = Inr g" "0 \<notin> set (fwrites g)" "map snd (files g) = map concat hs @ [concat h @ s]"
    "writtenBytes g = Some (length (concat h) + length s)" "same_log (f\<lparr>writtenBytes := writtenBytes g\<rparr>) g"
    using assms gs by (auto simp: holds_lines_def)
  then show ?thesis by (intro exI[of _ g]) (simp add: holds_lines_def with_line_def same_log_def gs)
qed

lemma log_append_holds:
  assumes "holds_lines gs f"
  shows "\<exists>g. log_append s f = Inr g \<and> (holds_lines (with_line s gs) g \<or> holds_lines (with_line s gs @ [[]]) g)
    \<and> (rollSize f < length (concat (last gs)) + length s \<longrightarrow> lastRoll f < fst (sys_time f) \<longrightarrow>
        holds_lines (with_line s gs @ [[]]) g)
    \<and> rollSize g = rollSize f"
proof -
  obtain f1 where f1: "file_append s f = Inr f1" "holds_lines (with_line s gs) f1" "lastRoll f1 = lastRoll f"
    "clocks f1 = clocks f" "rollSize f1 = rollSize f"
    using file_append_holds[OF assms] by blast
  have w: "writtenBytes f1 = Some (length (concat (last gs)) + length s)"
    using f1(2) by (simp add: holds_lines_def with_line_def)
  show ?thesis
  proof (cases "rollSize f < length (concat (last gs)) + length s")
    case True
    then have "log_append s f = Inr (rollFile f1)"
      using f1(1,5) w by (simp add: log_append_def append_unlocked_def)
    moreover have "fst (sys_time f1) = fst (sys_time f)" using f1(4) by (simp add: sys_time_def split: list.splits)
    ultimately show ?thesis using holds_roll[OF f1(2)] f1(3,5) by auto
  next
    case False
    obtain now f2 where f2: "sys_time (f1\<lparr>count := 0\<rparr>) = (now, f2)" by fastforce
    then have h2: "holds_lines (with_line s gs) f2" "rollSize f2 = rollSize f"
      using f1(2,5) by (auto simp: sys_time_def holds_lines_def split: list.splits)
    from h2(1) have fl: "file_flush (f2\<lparr>lastFlush := now\<rparr>) = Inr (f2\<lparr>lastFlush := now, unflushed := False\<rparr>)"
      "holds_lines (with_line s gs) (f2\<lparr>lastFlush := now, unflushed := False\<rparr>)"
      by (auto simp: file_flush_def holds_lines_def)
    have c: "holds_lines (with_line s gs) (f1\<lparr>count := count f1 + 1\<rparr>)" using f1(2) by (simp add: holds_lines_def)
    have "log_append s f = (if count f1 > kCheckTimeRoll
        then if now sdiv kRollPerSeconds * kRollPerSeconds \<noteq> startOfPeriod f2 then Inr (rollFile f2)
          else if now - lastFlush f2 > flushInterval f2 then file_flush (f2\<lparr>lastFlush := now\<rparr>) else Inr f2
        else Inr (f1\<lparr>count := count f1 + 1\<rparr>))"
      using f1(1,5) w False f2 by (simp add: log_append_def append_unlocked_def Let_def)
    then show ?thesis using False h2 fl c f1(5) holds_roll[OF h2(1)] by (auto split: if_splits)
  qed
qed

lemma log_appends_hold:
  "holds_lines gs f \<Longrightarrow> \<exists>g hs. for_each log_append ls f = Inr g \<and> holds_lines hs g \<and> concat hs = concat gs @ ls
    \<and> rollSize g = rollSize f"
proof (induction ls arbitrary: f gs)
  case Nil
  then show ?case by auto
next
  case (Cons s ls)
  have gs: "concat (with_line s gs) = concat gs @ [s]"
    using Cons.prems by (cases gs rule: rev_cases) (simp_all add: with_line_def holds_lines_def)
  from log_append_holds[OF Cons.prems, of s] obtain g hs where
    g: "log_append s f = Inr g" "holds_lines hs g" "concat hs = concat gs @ [s]" "rollSize g = rollSize f"
    using gs by auto
  from Cons.IH[OF g(2)] show ?case using g by auto
qed

section \<open>Properties\<close>

text \<open>C16: Log files keep every line whole and in order. As long as the file takes at least one byte
  at a time, the files opened by a \<open>LogFile\<close>, one after the other, hold exactly the lines appended,
  none split between two files, however short the writes are and whenever it rolls; and a line that
  takes a file above the size limit closes it, unless the file was opened in the same second.\<close>

theorem log_files_hold_lines:
  assumes "CHR ''/'' \<notin> set base" "0 < t" "0 \<notin> set ws"
  shows "\<exists>f0 f gs. new_LogFile base limit interval (t # ts) ws p = Inr f0 \<and> for_each log_append ls f0 = Inr f
    \<and> concat gs = ls \<and> map snd (files f) = map concat gs
    \<and> (\<forall>s. limit < length (concat (last gs)) + length s \<longrightarrow> lastRoll f < fst (sys_time f) \<longrightarrow>
        (\<exists>g. log_append s f = Inr g \<and> map snd (files g) = map concat (butlast gs @ [last gs @ [s], []])))"
proof -
  define f where "f = \<lparr>basename = base, rollSize = limit, flushInterval = interval, count = 0, startOfPeriod = 0,
    lastRoll = 0, lastFlush = 0, writtenBytes = None, files = [], unflushed = False, clocks = t # ts, fwrites = ws, pid = p\<rparr>"
  have new: "new_LogFile base limit interval (t # ts) ws p = Inr (rollFile f)" "rollSize (rollFile f) = limit"
    using assms rollFile_cases[of f] by (auto simp: new_LogFile_def f_def sys_time_def split: list.splits)
  have "holds_lines [[]] (rollFile f)"
    using assms rollFile_cases[of f] by (auto simp: holds_lines_def f_def sys_time_def split: list.splits)
  from log_appends_hold[OF this, of ls] obtain g hs where g: "for_each log_append ls (rollFile f) = Inr g"
    "holds_lines hs g" "concat hs = ls" "rollSize g = limit"
    using new(2) by auto
  have "\<exists>g'. log_append s g = Inr g' \<and> map snd (files g') = map concat (butlast hs @ [last hs @ [s], []])"
    if "limit < length (concat (last hs)) + length s" "lastRoll g < fst (sys_time g)" for s
    using log_append_holds[OF g(2), of s] that g(4) by (auto simp: holds_lines_def with_line_def)
  then show ?thesis using new(1) g by (auto simp: holds_lines_def)
qed

theorem log_files_hold_lines_witness:
  "\<exists>f0 f gs. new_LogFile ''server'' 10 3 [100, 200] [2, 1] 7 = Inr f0
    \<and> for_each log_append [''first line'', ''second''] f0 = Inr f
    \<and> concat gs = [''first line'', ''second''] \<and> map snd (files f) = map concat gs"
proof -
  have "CHR ''/'' \<notin> set ''server''" "(0::int) < 100" "0 \<notin> set [2, 1 :: nat]" by simp_all
  from log_files_hold_lines[OF this, of 10 3 "[200]" 7 "[''first line'', ''second'']"] show ?thesis by blast
qed

end
