(* ===== verification/Monitors.thy ===== *)
theory Monitors
  imports Fppnet_Prelude
begin

text \<open>
  Mutexes, condition variables and the threads that use them: src/base/thread/Mutex.h and
  Condition.h. The methods of a class that is shared between threads are lists of instructions
  whose guards and assignments are functions on the data of the object and on what the thread
  has itself; threads are interleaved instruction by instruction. A method is well locked when a
  check of its text, a type system, finds every access to the data between a lock and an unlock;
  an annotation of the data gives a proof rule for such methods. Both are sound for every schedule.
\<close>

section \<open>Mutexes\<close>

type_synonym tid = nat \<comment> \<open>as \<open>gettid\<close> gives them, never 0\<close>

record mutex =
  owner :: "tid option"
  holder :: tid

definition new_MutexLock :: mutex where
  "new_MutexLock = \<lparr>owner = None, holder = 0\<rparr>"

text \<open>\<open>None\<close>: the caller blocks.\<close>

definition mutex_lock :: "tid \<Rightarrow> mutex \<Rightarrow> mutex option" where
  "mutex_lock t m = (if owner m = None then Some (m\<lparr>owner := Some t, holder := t\<rparr>) else None)"

definition mutex_unlock :: "tid \<Rightarrow> mutex \<Rightarrow> mutex result" where
  "mutex_unlock t m = check (owner m = Some t) (Undefined 56) (Inr (m\<lparr>owner := None, holder := 0\<rparr>))"

definition isLockedByThisThread :: "tid \<Rightarrow> mutex \<Rightarrow> bool" where
  "isLockedByThisThread t m \<longleftrightarrow> holder m = t"

definition assertLocked :: "tid \<Rightarrow> mutex \<Rightarrow> unit result" where
  "assertLocked t m = check (isLockedByThisThread t m) (Assertion 42) (Inr ())"

definition delete_MutexLock :: "mutex \<Rightarrow> unit result" where
  "delete_MutexLock m = check (holder m = 0) (Assertion 31) (Inr ())"

section \<open>Programs of threads\<close>

text \<open>
  \<open>'s\<close> is the data of the object, \<open>'l\<close> what the thread has itself, \<open>'c\<close> names its conditions.
  \<open>Relock\<close> is the second half of a wait, in which the thread gets the mutex back; \<open>Assert\<close> is an
  assertion, \<open>Access\<close> the use of an object that has to exist.
\<close>

datatype ('s, 'l, 'c) instr =
    Lock
  | Unlock
  | Wait 'c
  | Relock
  | Notify 'c
  | NotifyAll 'c
  | Spawn tid "('s, 'l, 'c) instr list"
  | Join tid
  | Assert nat "'s \<Rightarrow> 'l \<Rightarrow> bool"
  | Access nat "'s \<Rightarrow> 'l \<Rightarrow> bool"
  | Do "'s \<Rightarrow> 'l \<Rightarrow> 's \<times> 'l"
  | If "'s \<Rightarrow> 'l \<Rightarrow> bool" "('s, 'l, 'c) instr list" "('s, 'l, 'c) instr list"
  | While "'s \<Rightarrow> 'l \<Rightarrow> bool" "('s, 'l, 'c) instr list"

type_synonym ('s, 'l, 'c) program = "('s, 'l, 'c) instr list"

record ('s, 'l, 'c) system =
  mtx :: mutex
  waiters :: "(tid \<times> 'c) list"
  shared :: 's
  mine :: "tid \<Rightarrow> 'l"
  code :: "tid \<Rightarrow> ('s, 'l, 'c) program"
  failed :: "failure option"

text \<open>The threads \<open>Condition\<close> knows of: \<open>wait\<close>, \<open>notify\<close> (of the thread \<open>u\<close>) and \<open>notifyAll\<close>.\<close>

definition cond_wait :: "tid \<Rightarrow> 'c \<Rightarrow> ('s, 'l, 'c) system \<Rightarrow> ('s, 'l, 'c) system" where
  \<comment> \<open>\<open>pthread_cond_wait\<close> gives up the mutex, and does not know \<open>holder_\<close>\<close>
  "cond_wait t c s = s\<lparr>mtx := (mtx s)\<lparr>owner := None\<rparr>, waiters := waiters s @ [(t, c)]\<rparr>"

definition cond_notify :: "tid \<Rightarrow> 'c \<Rightarrow> ('s, 'l, 'c) system \<Rightarrow> ('s, 'l, 'c) system option" where
  "cond_notify u c s =
     (if c \<in> snd ` set (waiters s)
      then if (u, c) \<in> set (waiters s) then Some (s\<lparr>waiters := filter (\<lambda>w. w \<noteq> (u, c)) (waiters s)\<rparr>) else None
      else Some s)"

definition cond_notifyAll :: "'c \<Rightarrow> ('s, 'l, 'c) system \<Rightarrow> ('s, 'l, 'c) system" where
  "cond_notifyAll c s = s\<lparr>waiters := filter (\<lambda>w. snd w \<noteq> c) (waiters s)\<rparr>"

definition goto :: "tid \<Rightarrow> ('s, 'l, 'c) program \<Rightarrow> ('s, 'l, 'c) system \<Rightarrow> ('s, 'l, 'c) system" where
  "goto t is s = s\<lparr>code := (code s)(t := is)\<rparr>"

text \<open>
  Thread \<open>t\<close> runs its next instruction; \<open>None\<close> when it has none, or is blocked. A notification
  wakes \<open>u\<close>.
\<close>

definition step :: "tid \<Rightarrow> tid \<Rightarrow> ('s, 'l, 'c) system \<Rightarrow> ('s, 'l, 'c) system option" where
  "step t u s =
     (if failed s \<noteq> None then None
      else case code s t of
        [] \<Rightarrow> None
      | Lock # is \<Rightarrow> map_option (\<lambda>m. goto t is (s\<lparr>mtx := m\<rparr>)) (mutex_lock t (mtx s))
      | Unlock # is \<Rightarrow>
          (case mutex_unlock t (mtx s) of
             Inl e \<Rightarrow> Some (s\<lparr>failed := Some e\<rparr>)
           | Inr m \<Rightarrow> Some (goto t is (s\<lparr>mtx := m\<rparr>)))
      | Wait c # is \<Rightarrow>
          if owner (mtx s) \<noteq> Some t then Some (s\<lparr>failed := Some (Undefined 35)\<rparr>)
          else Some (goto t (Relock # is) (cond_wait t c s))
      | Relock # is \<Rightarrow>
          if t \<in> fst ` set (waiters s) \<or> owner (mtx s) \<noteq> None then None
          else Some (goto t is (s\<lparr>mtx := (mtx s)\<lparr>owner := Some t\<rparr>\<rparr>))
      | Notify c # is \<Rightarrow> map_option (goto t is) (cond_notify u c s)
      | NotifyAll c # is \<Rightarrow> Some (goto t is (cond_notifyAll c s))
      | Spawn v p # is \<Rightarrow> if code s v = [] \<and> v \<noteq> t then Some (goto t is (goto v p s)) else None
      | Join v # is \<Rightarrow> if code s v = [] then Some (goto t is s) else None
      | Assert n p # is \<Rightarrow>
          if p (shared s) (mine s t) then Some (goto t is s) else Some (s\<lparr>failed := Some (Assertion n)\<rparr>)
      | Access n p # is \<Rightarrow>
          if p (shared s) (mine s t) then Some (goto t is s) else Some (s\<lparr>failed := Some (Undefined n)\<rparr>)
      | Do f # is \<Rightarrow>
          (case f (shared s) (mine s t) of
             (x, l) \<Rightarrow> Some (goto t is (s\<lparr>shared := x, mine := (mine s)(t := l)\<rparr>)))
      | If g xs ys # is \<Rightarrow> Some (goto t ((if g (shared s) (mine s t) then xs else ys) @ is) s)
      | While g xs # is \<Rightarrow>
          Some (goto t (if g (shared s) (mine s t) then xs @ While g xs # is else is) s))"

text \<open>A waiting thread may also wake up by itself.\<close>

definition spurious :: "tid \<Rightarrow> ('s, 'l, 'c) system \<Rightarrow> ('s, 'l, 'c) system option" where
  "spurious t s =
     (if t \<in> fst ` set (waiters s) then Some (s\<lparr>waiters := filter (\<lambda>w. fst w \<noteq> t) (waiters s)\<rparr>) else None)"

inductive reach :: "('s, 'l, 'c) system \<Rightarrow> ('s, 'l, 'c) system \<Rightarrow> bool" for s0 where
  start: "reach s0 s0"
| run: "reach s0 s \<Longrightarrow> step t u s = Some s' \<Longrightarrow> reach s0 s'"
| wake: "reach s0 s \<Longrightarrow> spurious t s = Some s' \<Longrightarrow> reach s0 s'"

text \<open>A schedule to run: at each turn a thread, and the one it wakes if it notifies.\<close>

fun run_schedule :: "(tid \<times> tid) list \<Rightarrow> ('s, 'l, 'c) system \<Rightarrow> ('s, 'l, 'c) system option" where
  "run_schedule [] s = Some s"
| "run_schedule ((t, u) # ts) s = (case step t u s of None \<Rightarrow> None | Some s' \<Rightarrow> run_schedule ts s')"

lemma run_schedule_reach: "run_schedule ts s = Some s' \<Longrightarrow> reach s0 s \<Longrightarrow> reach s0 s'"
  by (induction ts s rule: run_schedule.induct) (auto split: option.splits intro: reach.run)

text \<open>Threads that call the methods of an object one after the other.\<close>

definition threads :: "('m \<Rightarrow> ('s, 'l, 'c) program) \<Rightarrow> (tid \<Rightarrow> 'm list) \<Rightarrow> 's \<Rightarrow> 'l \<Rightarrow> ('s, 'l, 'c) system" where
  "threads meth calls x l = \<lparr>mtx = new_MutexLock, waiters = [], shared = x, mine = (\<lambda>_. l),
     code = (\<lambda>t. concat (map meth (calls t))), failed = None\<rparr>"

section \<open>Well-locked programs\<close>

text \<open>
  \<open>locking b is\<close>: whether a thread that has the mutex (\<open>b\<close>) or not before \<open>is\<close> has it after, and
  \<open>None\<close> when \<open>is\<close> locks twice, unlocks or waits without having it, or touches the data so.
  Starting and joining threads, and access to objects that may not exist, is not for methods that
  take part in this discipline.
\<close>

function (sequential) locking :: "bool \<Rightarrow> ('s, 'l, 'c) program \<Rightarrow> bool option" where
  "locking b [] = Some b"
| "locking b (Lock # is) = (if b then None else locking True is)"
| "locking b (Unlock # is) = (if b then locking False is else None)"
| "locking b (Wait c # is) = (if b then locking True is else None)"
| "locking b (Relock # is) = (if b then None else locking True is)"
| "locking b (Notify c # is) = locking b is"
| "locking b (NotifyAll c # is) = locking b is"
| "locking b (Spawn v p # is) = None"
| "locking b (Join v # is) = None"
| "locking b (Assert n p # is) = (if b then locking b is else None)"
| "locking b (Access n p # is) = None"
| "locking b (Do f # is) = (if b then locking b is else None)"
| "locking b (If g xs ys # is) =
     (if b \<and> locking b (xs @ is) = locking b (ys @ is) then locking b (xs @ is) else None)"
| "locking b (While g xs # is) = (if b \<and> locking b xs = Some b then locking b is else None)"
  by pat_completeness auto

termination locking
  by (relation "measure (\<lambda>(b, is). size_list size is)") (auto simp: size_list_append)

lemma locking_append: "locking b xs = Some b' \<Longrightarrow> locking b (xs @ ys) = locking b' ys"
  by (induction b xs arbitrary: b' rule: locking.induct) (auto split: if_splits)

lemma locking_concat:
  "\<forall>is \<in> set iss. locking False is = Some False \<Longrightarrow> locking False (concat iss) = Some False"
  by (induction iss) (auto simp: locking_append)

section \<open>Annotated programs\<close>

text \<open>
  The rule for well-locked programs. \<open>I\<close> holds of the data whenever the mutex is free; \<open>P c\<close> when a
  thread begins to wait on \<open>c\<close>; every assignment is a \<open>G\<close> step. When an assignment makes an end of
  \<open>P c\<close> for a thread that may be waiting, the program must go on to \<open>notifyAll\<close> before it unlocks.
\<close>

function (sequential) notifies :: "'c \<Rightarrow> ('s, 'l, 'c) program \<Rightarrow> 's \<Rightarrow> 'l \<Rightarrow> bool" where
  "notifies c (NotifyAll c' # is) x l = (c = c' \<or> notifies c is x l)"
| "notifies c (Notify c' # is) x l = notifies c is x l"
| "notifies c (Assert n p # is) x l = notifies c is x l"
| "notifies c (Do f # is) x l = (case f x l of (x', l') \<Rightarrow> notifies c is x' l')"
| "notifies c (If g xs ys # is) x l = (if g x l then notifies c (xs @ is) x l else notifies c (ys @ is) x l)"
| "notifies c is x l = False"
  by pat_completeness auto

termination notifies
  by (relation "measure (\<lambda>(c, is, x, l). size_list size is)") (auto simp: size_list_append)

function (sequential) outline :: "('s \<Rightarrow> bool) \<Rightarrow> ('c \<Rightarrow> 's \<Rightarrow> bool) \<Rightarrow> ('s \<Rightarrow> 'l \<Rightarrow> 's \<Rightarrow> 'l \<Rightarrow> bool)
    \<Rightarrow> ('s, 'l, 'c) program \<Rightarrow> 's \<Rightarrow> 'l \<Rightarrow> bool" where
  "outline I P G [] x l = True"
| "outline I P G (Lock # is) x l = (\<forall>y. I y \<longrightarrow> outline I P G is y l)"
| "outline I P G (Relock # is) x l = (\<forall>y. I y \<longrightarrow> outline I P G is y l)"
| "outline I P G (Unlock # is) x l = (I x \<and> (\<forall>y. outline I P G is y l))"
| "outline I P G (Wait c # is) x l = (I x \<and> P c x \<and> (\<forall>y. I y \<longrightarrow> outline I P G is y l))"
| "outline I P G (Notify c # is) x l = outline I P G is x l"
| "outline I P G (NotifyAll c # is) x l = outline I P G is x l"
| "outline I P G (Spawn v p # is) x l = False"
| "outline I P G (Join v # is) x l = False"
| "outline I P G (Assert n p # is) x l = (p x l \<and> outline I P G is x l)"
| "outline I P G (Access n p # is) x l = False"
| "outline I P G (Do f # is) x l = (case f x l of (x', l') \<Rightarrow>
     G x l x' l' \<and> (\<forall>c. P c x \<longrightarrow> P c x' \<or> notifies c is x' l') \<and> outline I P G is x' l')"
| "outline I P G (If g xs ys # is) x l =
     (if g x l then outline I P G (xs @ is) x l else outline I P G (ys @ is) x l)"
| "outline I P G (While g [Wait c] # is) x l =
     (I x \<and> (\<forall>y. I y \<longrightarrow> (if g y l then P c y else outline I P G is y l)))"
| "outline I P G (While g xs # is) x l = False"
  by pat_completeness auto

termination outline
  by (relation "measure (\<lambda>(I, P, G, is, x, l). size_list size is)") (auto simp: size_list_append)

text \<open>A thread without the mutex does not look at the data before it has taken it.\<close>

lemma outline_other:
  "locking False is = Some b \<Longrightarrow> outline I P G is x l \<Longrightarrow> outline I P G is y l"
  by (induction I P G "is" x l arbitrary: y rule: outline.induct) (auto split: if_splits)

lemma notifies_append: "notifies c is x l \<Longrightarrow> notifies c (is @ ys) x l"
  by (induction c "is" x l rule: notifies.induct) (auto split: prod.splits)

lemma outline_append:
  "locking b xs = Some False \<Longrightarrow> outline I P G xs x l \<Longrightarrow> (\<And>y l. outline I P G ys y l)
    \<Longrightarrow> outline I P G (xs @ ys) x l"
  by (induction I P G xs x l arbitrary: b rule: outline.induct)
    (auto split: if_splits prod.splits intro: notifies_append)

lemma outline_concat:
  assumes "\<forall>is \<in> set iss. locking False is = Some False \<and> (\<forall>x l. outline I P G is x l)"
  shows "outline I P G (concat iss) x l"
  using assms
proof (induction iss arbitrary: x l)
  case (Cons xs iss)
  then show ?case by (auto intro: outline_append)
qed simp

section \<open>Soundness\<close>

text \<open>What is true at every moment: who has the mutex is what the texts say.\<close>

definition well_locked :: "('s, 'l, 'c) system \<Rightarrow> bool" where
  "well_locked s \<longleftrightarrow> (\<forall>t. locking (owner (mtx s) = Some t) (code s t) = Some False)"

definition outlined :: "('s \<Rightarrow> bool) \<Rightarrow> ('c \<Rightarrow> 's \<Rightarrow> bool) \<Rightarrow> ('s \<Rightarrow> 'l \<Rightarrow> 's \<Rightarrow> 'l \<Rightarrow> bool)
    \<Rightarrow> ('s, 'l, 'c) system \<Rightarrow> bool" where
  "outlined I P G s \<longleftrightarrow> failed s = None
     \<and> (\<forall>t x. (owner (mtx s) = Some t \<longrightarrow> x = shared s) \<longrightarrow> outline I P G (code s t) x (mine s t))
     \<and> (owner (mtx s) = None \<longrightarrow> I (shared s))
     \<and> (\<forall>t c. (t, c) \<in> set (waiters s) \<longrightarrow> P c (shared s)
          \<or> (\<exists>u. owner (mtx s) = Some u \<and> notifies c (code s u) (shared s) (mine s u)))"

lemma well_locked_step:
  assumes w: "well_locked s" and st: "step t u s = Some s'"
  shows "well_locked s' \<and> (\<forall>e. failed s' = Some e \<longrightarrow> (\<exists>n. e = Assertion n))
    \<and> (shared s' \<noteq> shared s \<longrightarrow> owner (mtx s) = Some t)"
proof -
  note defs = step_def goto_def mutex_lock_def mutex_unlock_def cond_wait_def cond_notify_def cond_notifyAll_def
  have here: "locking (owner (mtx s) = Some t) (code s t) = Some False"
    and others: "\<And>v. locking (owner (mtx s) = Some v) (code s v) = Some False"
    using w by (auto simp: well_locked_def)
  have away: "locking False (code s v) = Some False" if "owner (mtx s) = Some t" "v \<noteq> t" for v
    using others[of v] that by simp
  have run: "failed s = None" using st by (auto simp: step_def split: if_splits)
  show ?thesis
  proof (cases "code s t")
    case Nil
    then show ?thesis using st run by (simp add: defs)
  next
    case (Cons i "is")
    show ?thesis
    proof (cases i)
      case (Do f)
      then show ?thesis using Cons st run here away
        by (auto simp: defs well_locked_def split: prod.splits if_splits)
    next
      case (While g xs)
      then have "locking True (xs @ While g xs # is) = Some False" "owner (mtx s) = Some t"
        using here Cons by (auto simp: locking_append split: if_splits)
      then show ?thesis using While Cons st run here away by (auto simp: defs well_locked_def split: if_splits)
    qed (use Cons st run here others away in \<open>auto simp: defs well_locked_def check_def split: if_splits option.splits\<close>)+
  qed
qed

lemma well_locked_reach:
  "reach s0 s \<Longrightarrow> well_locked s0 \<Longrightarrow> well_locked s"
proof (induction rule: reach.induct)
  case (run s t u s')
  then show ?case using well_locked_step by blast
next
  case (wake s t s')
  then show ?case by (auto simp: well_locked_def spurious_def split: if_splits)
qed

lemma well_locked_threads:
  assumes "\<And>m. locking False (meth m) = Some False"
  shows "well_locked (threads meth calls x l)"
  by (simp add: well_locked_def threads_def new_MutexLock_def assms locking_concat)

text \<open>The rule for annotations.\<close>

lemma outlined_waiters:
  assumes o: "outlined I P G s" and c: "code s t = i # is"
    and i: "\<And>x l. outline I P G (i # is) x l = outline I P G is x l"
    and ws: "set ws \<subseteq> set (waiters s)"
    and n: "\<And>v d x l. (v, d) \<in> set ws \<Longrightarrow> notifies d (i # is) x l \<Longrightarrow> notifies d is x l"
  shows "outlined I P G (goto t is (s\<lparr>waiters := ws\<rparr>))
    \<and> (\<forall>v. v \<noteq> t \<longrightarrow> mine (goto t is (s\<lparr>waiters := ws\<rparr>)) v = mine s v)
    \<and> ((shared (goto t is (s\<lparr>waiters := ws\<rparr>)), mine (goto t is (s\<lparr>waiters := ws\<rparr>)) t) = (shared s, mine s t)
        \<or> G (shared s) (mine s t) (shared (goto t is (s\<lparr>waiters := ws\<rparr>))) (mine (goto t is (s\<lparr>waiters := ws\<rparr>)) t))"
proof -
  have "outline I P G is x (mine s t)" if "owner (mtx s) = Some t \<longrightarrow> x = shared s" for x
  proof -
    have "outline I P G (code s t) x (mine s t)" using o that by (simp add: outlined_def)
    then show ?thesis using c i by simp
  qed
  moreover have "P d (shared s) \<or> (\<exists>u. owner (mtx s) = Some u \<and> notifies d (((code s)(t := is)) u) (shared s) (mine s u))"
    if "(v, d) \<in> set ws" for v d
  proof -
    have "P d (shared s) \<or> (\<exists>u. owner (mtx s) = Some u \<and> notifies d (code s u) (shared s) (mine s u))"
      using o ws that unfolding outlined_def by blast
    then show ?thesis using n[OF that] c by (metis fun_upd_other fun_upd_same)
  qed
  ultimately show ?thesis using o by (auto simp: outlined_def goto_def)
qed

text \<open>What is known when thread \<open>t\<close> is at an instruction, and what its step has to keep.\<close>

definition kept :: "('s \<Rightarrow> bool) \<Rightarrow> ('c \<Rightarrow> 's \<Rightarrow> bool) \<Rightarrow> ('s \<Rightarrow> 'l \<Rightarrow> 's \<Rightarrow> 'l \<Rightarrow> bool)
    \<Rightarrow> tid \<Rightarrow> ('s, 'l, 'c) system \<Rightarrow> ('s, 'l, 'c) system \<Rightarrow> bool" where
  "kept I P G t s s' \<longleftrightarrow> outlined I P G s' \<and> (\<forall>v. v \<noteq> t \<longrightarrow> mine s' v = mine s v)
    \<and> ((shared s', mine s' t) = (shared s, mine s t) \<or> G (shared s) (mine s t) (shared s') (mine s' t))"

lemma outlined_at:
  assumes w: "well_locked s" and o: "outlined I P G s" and c: "code s t = i # is"
  shows "locking (owner (mtx s) = Some t) (i # is) = Some False" "failed s = None"
    "(owner (mtx s) = Some t \<Longrightarrow> x = shared s) \<Longrightarrow> outline I P G (i # is) x (mine s t)"
    "owner (mtx s) = Some t \<or> owner (mtx s) = None \<Longrightarrow> v \<noteq> t \<Longrightarrow> outline I P G (code s v) y (mine s v)"
    "owner (mtx s) = None \<Longrightarrow> I (shared s)"
    "(v, d) \<in> set (waiters s) \<Longrightarrow>
      P d (shared s) \<or> (\<exists>u. owner (mtx s) = Some u \<and> notifies d (code s u) (shared s) (mine s u))"
proof -
  show "locking (owner (mtx s) = Some t) (i # is) = Some False" using w c unfolding well_locked_def by metis
  show "outline I P G (i # is) x (mine s t)" if "owner (mtx s) = Some t \<Longrightarrow> x = shared s"
    using o that unfolding outlined_def c[symmetric] by blast
qed (use o in \<open>auto simp: outlined_def\<close>)

lemmas instruction_defs = step_def goto_def mutex_lock_def mutex_unlock_def cond_wait_def cond_notify_def cond_notifyAll_def

lemma outlined_lock:
  assumes w: "well_locked s" and o: "outlined I P G s" and Cons: "code s t = i # is" and st: "step t u s = Some s'"
    and i: "i = Lock \<or> i = Relock \<or> i = Unlock \<or> (\<exists>c. i = Wait c)"
  shows "kept I P G t s s'"
proof -
  note defs = instruction_defs and kept_def [simp]
  note here' = outlined_at(1)[OF w o Cons] and run = outlined_at(2)[OF w o Cons] and ot' = outlined_at(3)[OF w o Cons]
    and others = outlined_at(4)[OF w o Cons] and free = outlined_at(5)[OF w o Cons] and pend = outlined_at(6)[OF w o Cons]
  show ?thesis
  proof (cases i)
    case Lock
    then have n: "owner (mtx s) = None" and s': "s' = goto t is (s\<lparr>mtx := \<lparr>owner = Some t, holder = t\<rparr>\<rparr>)"
      using Cons st run by (auto simp: defs split: if_splits)
    have "outline I P G is (shared s) (mine s t)" using ot'[of "shared s"] Lock free[OF n] by auto
    then show ?thesis using s' n run others pend by (auto simp: goto_def outlined_def)
  next
    case Relock
    then have n: "owner (mtx s) = None" and s': "s' = goto t is (s\<lparr>mtx := (mtx s)\<lparr>owner := Some t\<rparr>\<rparr>)"
      using Cons st run by (auto simp: defs split: if_splits)
    have "outline I P G is (shared s) (mine s t)" using ot'[of "shared s"] Relock free[OF n] by auto
    then show ?thesis using s' n run others pend by (auto simp: goto_def outlined_def)
  next
    case Unlock
    then have n: "owner (mtx s) = Some t" and s': "s' = goto t is (s\<lparr>mtx := (mtx s)\<lparr>owner := None, holder := 0\<rparr>\<rparr>)"
      using Cons st run here' by (auto simp: defs split: if_splits)
    have "I (shared s)" "outline I P G is y (mine s t)" for y using ot'[of "shared s"] Unlock by auto
    moreover have "P c (shared s)" if "(v, c) \<in> set (waiters s)" for v c
      using pend[OF that] n Cons Unlock by auto
    ultimately show ?thesis using s' n run others by (auto simp: goto_def outlined_def)
  next
    case (Wait c)
    then have n: "owner (mtx s) = Some t" and s': "s' = goto t (Relock # is) (cond_wait t c s)"
      using Cons st run here' by (auto simp: defs split: if_splits)
    have o: "I (shared s)" "P c (shared s)" "outline I P G (Relock # is) y (mine s t)" for y
      using ot'[of "shared s"] Wait by auto
    moreover have "P d (shared s)" if "(v, d) \<in> set (waiters s)" for v d
      using pend[OF that] n Cons Wait by auto
    ultimately show ?thesis using s' n run others by (auto simp: goto_def outlined_def cond_wait_def)
  qed (use i in auto)
qed

lemma outlined_data:
  assumes w: "well_locked s" and o: "outlined I P G s" and Cons: "code s t = i # is" and st: "step t u s = Some s'"
    and i: "(\<exists>f. i = Do f) \<or> (\<exists>g xs ys. i = If g xs ys) \<or> (\<exists>m p. i = Assert m p)"
  shows "kept I P G t s s'"
proof -
  note defs = instruction_defs and kept_def [simp]
  note here' = outlined_at(1)[OF w o Cons] and run = outlined_at(2)[OF w o Cons] and ot' = outlined_at(3)[OF w o Cons]
    and others = outlined_at(4)[OF w o Cons] and free = outlined_at(5)[OF w o Cons] and pend = outlined_at(6)[OF w o Cons]
  show ?thesis
  proof (cases i)
    case (Do f)
    obtain x l where f: "f (shared s) (mine s t) = (x, l)" by fastforce
    have n: "owner (mtx s) = Some t" and s': "s' = goto t is (s\<lparr>shared := x, mine := (mine s)(t := l)\<rparr>)"
      using Cons st run here' Do f by (auto simp: defs split: if_splits)
    have o: "G (shared s) (mine s t) x l" "outline I P G is x l"
      "\<And>c. P c (shared s) \<Longrightarrow> P c x \<or> notifies c is x l"
      using ot'[of "shared s"] Do f by auto
    moreover have "P d x \<or> notifies d is x l" if "(v, d) \<in> set (waiters s)" for v d
      using pend[OF that] n Cons Do f o(3) by auto
    ultimately show ?thesis using s' n run others by (auto simp: goto_def outlined_def)
  next
    case (If g xs ys)
    let ?is = "(if g (shared s) (mine s t) then xs else ys) @ is"
    have n: "owner (mtx s) = Some t" and s': "s' = goto t ?is s"
      using Cons st run here' If by (auto simp: defs split: if_splits)
    have o: "outline I P G ?is (shared s) (mine s t)" using ot'[of "shared s"] If by auto
    moreover have "P d (shared s) \<or> notifies d ?is (shared s) (mine s t)" if "(v, d) \<in> set (waiters s)" for v d
      using pend[OF that] n Cons If by auto
    ultimately show ?thesis using s' n run others by (auto simp: goto_def outlined_def)
  next
    case (Assert m p)
    then have o: "p (shared s) (mine s t)" "outline I P G is (shared s) (mine s t)" using ot'[of "shared s"] by auto
    have n: "owner (mtx s) = Some t" and s': "s' = goto t is s"
      using Cons st run here' Assert o(1) by (auto simp: defs split: if_splits)
    have "P d (shared s) \<or> notifies d is (shared s) (mine s t)" if "(v, d) \<in> set (waiters s)" for v d
      using pend[OF that] n Cons Assert by auto
    then show ?thesis using s' n run others o(2) by (auto simp: goto_def outlined_def)
  qed (use i in auto)
qed

lemma outlined_while:
  assumes w: "well_locked s" and o: "outlined I P G s" and Cons: "code s t = i # is" and st: "step t u s = Some s'"
    and i: "i = While g xs"
  shows "kept I P G t s s'"
proof -
  note defs = instruction_defs and kept_def [simp]
  note here' = outlined_at(1)[OF w o Cons] and run = outlined_at(2)[OF w o Cons] and ot' = outlined_at(3)[OF w o Cons]
    and others = outlined_at(4)[OF w o Cons] and free = outlined_at(5)[OF w o Cons] and pend = outlined_at(6)[OF w o Cons]
  note While = i
  have n: "owner (mtx s) = Some t" using here' While by (auto split: if_splits)
  have "outline I P G (While g xs # is) (shared s) (mine s t)" using ot'[of "shared s"] While by simp
  then obtain c where c: "xs = [Wait c]" "I (shared s)"
    "\<And>y. I y \<Longrightarrow> if g y (mine s t) then P c y else outline I P G is y (mine s t)"
    by (cases xs rule: list.exhaust; cases "hd xs"; cases "tl xs") auto
  have P: "P d (shared s)" if "(v, d) \<in> set (waiters s)" for v d
    using pend[OF that] n Cons While by auto
  show ?thesis
  proof (cases "g (shared s) (mine s t)")
    case True
    then have s': "s' = goto t (Wait c # While g xs # is) s"
      using Cons st run While c(1) by (auto simp: defs split: if_splits)
    have "outline I P G (Wait c # While g xs # is) (shared s) (mine s t)"
      using c True c(3)[OF c(2)] by auto
    then show ?thesis using s' n run others P by (auto simp: goto_def outlined_def)
  next
    case False
    then have s': "s' = goto t is s" using Cons st run While by (auto simp: defs split: if_splits)
    have "outline I P G is (shared s) (mine s t)" using c(3)[OF c(2)] False by simp
    then show ?thesis using s' n run others P by (auto simp: goto_def outlined_def)
  qed
qed

lemma outlined_notify:
  assumes w: "well_locked s" and o: "outlined I P G s" and Cons: "code s t = i # is" and st: "step t u s = Some s'"
    and i: "i = Notify c \<or> i = NotifyAll c"
  shows "kept I P G t s s'"
proof -
  note defs = instruction_defs and kept_def [simp]
  note here' = outlined_at(1)[OF w o Cons] and run = outlined_at(2)[OF w o Cons] and ot' = outlined_at(3)[OF w o Cons]
    and others = outlined_at(4)[OF w o Cons] and free = outlined_at(5)[OF w o Cons] and pend = outlined_at(6)[OF w o Cons]
  show ?thesis
  proof (cases i)
    case (Notify c)
    obtain ws where ws: "set ws \<subseteq> set (waiters s)" and s': "s' = goto t is (s\<lparr>waiters := ws\<rparr>)"
    proof (cases "c \<in> snd ` set (waiters s)")
      case True
      then show ?thesis using Cons st run Notify that[of "filter (\<lambda>w. w \<noteq> (u, c)) (waiters s)"]
        by (auto simp: defs split: if_splits)
    next
      case False
      then show ?thesis using Cons st run Notify that[of "waiters s"] by (auto simp: defs split: if_splits)
    qed
    show ?thesis using outlined_waiters[OF o Cons[unfolded Notify] _ ws] s' by auto
  next
    case (NotifyAll c)
    have s': "s' = goto t is (s\<lparr>waiters := filter (\<lambda>w. snd w \<noteq> c) (waiters s)\<rparr>)"
      using Cons st run NotifyAll by (simp add: defs)
    show ?thesis unfolding s' kept_def by (rule outlined_waiters[OF o Cons[unfolded NotifyAll]]) auto
  qed (use i in auto)
qed

lemma outlined_step:
  assumes w: "well_locked s" and o: "outlined I P G s" and st: "step t u s = Some s'"
  shows "outlined I P G s' \<and> (\<forall>v. v \<noteq> t \<longrightarrow> mine s' v = mine s v)
    \<and> ((shared s', mine s' t) = (shared s, mine s t) \<or> G (shared s) (mine s t) (shared s') (mine s' t))"
proof (cases "code s t")
  case Nil
  then show ?thesis using st by (simp add: step_def split: if_splits)
next
  case (Cons i "is")
  have "outline I P G (i # is) (shared s) (mine s t)" by (rule outlined_at(3)[OF w o Cons]) simp
  then have "kept I P G t s s'"
    using outlined_lock[OF w o Cons st] outlined_data[OF w o Cons st] outlined_while[OF w o Cons st] outlined_notify[OF w o Cons st]
    by (cases i) auto
  then show ?thesis by (simp add: kept_def)
qed

lemma outlined_shrink: "outlined I P G s \<Longrightarrow> set ws \<subseteq> set (waiters s) \<Longrightarrow> outlined I P G (s\<lparr>waiters := ws\<rparr>)"
  unfolding outlined_def by simp blast

text \<open>A notification, and the thread that has the mutex, can always go on.\<close>

lemma notify_runs:
  assumes "code s v = Notify c # is" "failed s = None"
  shows "\<exists>u s'. step v u s = Some s'"
proof (cases "c \<in> snd ` set (waiters s)")
  case True
  then obtain u where "(u, c) \<in> set (waiters s)" by auto
  then show ?thesis using assms by (intro exI[of _ u]) (force simp: step_def cond_notify_def)
next
  case False
  then show ?thesis using assms by (simp add: step_def cond_notify_def)
qed

lemma locking_status: "well_locked s \<Longrightarrow> locking (owner (mtx s) = Some v) (code s v) = Some False"
  by (simp add: well_locked_def)

lemma owner_runs:
  assumes "well_locked s" "failed s = None" "owner (mtx s) = Some v"
  shows "\<exists>u s'. step v u s = Some s'"
proof -
  have l: "locking True (code s v) = Some False" using locking_status[OF assms(1), of v] assms(3) by simp
  then obtain i "is" where c: "code s v = i # is" by (cases "code s v") auto
  then show ?thesis
    using l assms notify_runs[of s v]
    by (cases i) (auto simp: step_def mutex_unlock_def split: if_splits prod.splits)
qed

section \<open>Monitors\<close>

text \<open>
  The contract between a class whose methods are well locked and annotated and what may be
  concluded of any threads that call them.
\<close>

locale monitor =
  fixes meth :: "'m \<Rightarrow> ('s, 'l, 'c) program"
    and I :: "'s \<Rightarrow> bool"
    and P :: "'c \<Rightarrow> 's \<Rightarrow> bool"
    and G :: "'s \<Rightarrow> 'l \<Rightarrow> 's \<Rightarrow> 'l \<Rightarrow> bool"
  assumes locked: "locking False (meth m) = Some False"
    and annotated: "outline I P G (meth m) x l"
begin

lemma reachable:
  assumes "reach (threads meth calls x0 l0) s" "I x0"
  shows "well_locked s \<and> outlined I P G s"
  using assms
proof (induction rule: reach.induct)
  case start
  then show ?case
    using locked annotated
    by (simp add: well_locked_threads outlined_def) (auto simp: threads_def new_MutexLock_def intro!: outline_concat)
next
  case (run s t u s')
  then show ?case using well_locked_step outlined_step by blast
next
  case (wake s t s')
  then show ?case using outlined_shrink[of I P G s "filter (\<lambda>w. fst w \<noteq> t) (waiters s)"]
    by (auto simp: well_locked_def spurious_def split: if_splits)
qed

lemma no_failure:
  assumes "reach (threads meth calls x0 l0) s" "I x0"
  shows "failed s = None"
  using reachable[OF assms] by (simp add: outlined_def)

lemma free_invariant:
  assumes "reach (threads meth calls x0 l0) s" "I x0" "owner (mtx s) = None"
  shows "I (shared s)"
  using reachable[OF assms(1,2)] assms(3) by (simp add: outlined_def)

lemma step_allowed:
  assumes "reach (threads meth calls x0 l0) s" "I x0" "step t u s = Some s'"
  shows "(\<forall>v. v \<noteq> t \<longrightarrow> mine s' v = mine s v)
    \<and> ((shared s', mine s' t) = (shared s, mine s t) \<or> G (shared s) (mine s t) (shared s') (mine s' t))
    \<and> (shared s' \<noteq> shared s \<longrightarrow> owner (mtx s) = Some t)"
  using reachable[OF assms(1,2)] outlined_step[OF _ _ assms(3)] well_locked_step[OF _ assms(3)] by blast

text \<open>When no thread can go on, whoever has not finished waits for something that is not there yet.\<close>

lemma stuck:
  assumes r: "reach (threads meth calls x0 l0) s" "I x0" and st: "\<forall>t u. step t u s = None"
  shows "owner (mtx s) = None \<and> (code s t = [] \<or> (\<exists>c. (t, c) \<in> set (waiters s) \<and> P c (shared s)))"
proof -
  have w: "well_locked s" and o: "outlined I P G s" using reachable[OF r] by simp_all
  have f: "failed s = None" using o by (simp add: outlined_def)
  have n: "owner (mtx s) = None" using owner_runs[OF w f] st by (cases "owner (mtx s)") auto
  show ?thesis
  proof (cases "code s t")
    case Nil
    then show ?thesis using n by simp
  next
    case (Cons i "is")
    have l: "locking False (i # is) = Some False" using locking_status[OF w, of t] n Cons by simp
    have no: "step t u s = None" for u using st by simp
    have "i = Relock \<and> t \<in> fst ` set (waiters s)"
    proof (cases i)
      case (Notify c)
      then show ?thesis using notify_runs[of s t c "is"] no Cons f by auto
    qed (use l no Cons f n in \<open>auto simp: step_def mutex_lock_def split: if_splits\<close>)
    then obtain c where "(t, c) \<in> set (waiters s)" by auto
    then show ?thesis using o n by (auto simp: outlined_def)
  qed
qed

end

end
