(* ===== verification/Event_Loop_Threads.thy ===== *)
theory Event_Loop_Threads
  imports Monitors
begin

text \<open>
  A thread that runs an event loop of its own: src/net/EventLoopThread.h and EventLoopThread.cpp.
  The loop is a local variable of \<open>threadFunc\<close>: \<open>alive\<close> says whether it exists, \<open>loop_ptr\<close> whether
  \<open>loop_\<close> points to it. Of \<open>EventLoop\<close> only its \<open>quit_\<close> flag is kept, which \<open>loop()\<close> resets when it
  begins. \<open>std::mutex\<close> and \<open>std::condition_variable\<close> are those of \<open>Monitors\<close>.
\<close>

section \<open>EventLoopThread\<close>

record loop_thread =
  loop_ptr :: bool
  alive :: bool
  quit_flag :: bool
  exiting :: bool

text \<open>What \<open>startLoop\<close> has returned: whether the pointer is not null.\<close>

type_synonym elt_program = "(loop_thread, bool option, unit) program"

definition new_EventLoopThread :: loop_thread where
  "new_EventLoopThread = \<lparr>loop_ptr = False, alive = False, quit_flag = False, exiting = False\<rparr>"

definition loop_loop :: elt_program where
  "loop_loop = [Do (\<lambda>e l. (e\<lparr>quit_flag := False\<rparr>, l)), While (\<lambda>e l. \<not> quit_flag e) []]"

definition elt_threadFunc :: elt_program where
  "elt_threadFunc =
     [Do (\<lambda>e l. (e\<lparr>alive := True\<rparr>, l)),
      Lock,
      Do (\<lambda>e l. (e\<lparr>loop_ptr := True\<rparr>, l)),
      NotifyAll (),
      Unlock]
     @ loop_loop @
     [Do (\<lambda>e l. (e\<lparr>alive := False\<rparr>, l))]"

definition elt_startLoop :: elt_program where
  "elt_startLoop =
     [Lock,
      While (\<lambda>e l. \<not> loop_ptr e) [Wait ()],
      Unlock,
      Do (\<lambda>e l. (e, Some (loop_ptr e)))]"

definition delete_EventLoopThread :: "tid \<Rightarrow> elt_program" where
  "delete_EventLoopThread t =
     [Do (\<lambda>e l. (e\<lparr>exiting := True\<rparr>, l)),
      Access 20 (\<lambda>e l. loop_ptr e \<and> alive e),
      Do (\<lambda>e l. (e\<lparr>quit_flag := True\<rparr>, l)),
      Join t]"

text \<open>The constructor has started the thread, number 2; the thread that owns the object is 1.\<close>

definition elt_system :: "elt_program \<Rightarrow> (loop_thread, bool option, unit) system" where
  "elt_system user = threads (\<lambda>p. p) (\<lambda>t. if t = 1 then [user] else if t = 2 then [elt_threadFunc] else [])
     new_EventLoopThread None"

lemmas elt_defs = elt_threadFunc_def loop_loop_def elt_startLoop_def delete_EventLoopThread_def
  new_EventLoopThread_def elt_system_def

section \<open>Lemmas\<close>

text \<open>
  Where the two threads can be: \<open>i\<close> counts the instructions of \<open>threadFunc\<close> that are done, and
  \<open>a\<close> those of \<open>startLoop\<close>, which is at 5 between its test and its wait and at 6 inside the wait.
\<close>

definition start_code :: "nat \<Rightarrow> elt_program" where
  "start_code a = (if a = 5 then Wait () # drop 1 elt_startLoop else if a = 6 then Relock # drop 1 elt_startLoop
     else drop a elt_startLoop)"

definition handshake :: "nat \<Rightarrow> nat \<Rightarrow> (loop_thread, bool option, unit) system \<Rightarrow> bool" where
  "handshake a i s \<longleftrightarrow> failed s = None \<and> i \<le> 6 \<and> a \<le> 6
     \<and> code s 1 = start_code a \<and> code s 2 = drop i elt_threadFunc \<and> (\<forall>t. t \<noteq> 1 \<longrightarrow> t \<noteq> 2 \<longrightarrow> code s t = [])
     \<and> owner (mtx s) = (if a \<in> {1, 2, 5} then Some 1 else if i \<in> {2, 3, 4} then Some 2 else None)
     \<and> (a \<in> {1, 2, 5} \<longrightarrow> i \<notin> {2, 3, 4})
     \<and> loop_ptr (shared s) = (3 \<le> i) \<and> alive (shared s) = (1 \<le> i) \<and> \<not> quit_flag (shared s)
     \<and> (a \<in> {2, 3, 4} \<longrightarrow> 3 \<le> i) \<and> (a = 5 \<longrightarrow> i < 3)
     \<and> mine s 1 = (if a = 4 then Some True else None)
     \<and> set (waiters s) \<subseteq> {(1, ())} \<and> (waiters s \<noteq> [] \<longrightarrow> a = 6 \<and> i \<le> 3)"

lemma nat_le_6: "n \<le> 6 \<longleftrightarrow> n = 0 \<or> n = 1 \<or> n = 2 \<or> n = 3 \<or> n = 4 \<or> n = 5 \<or> n = (6 :: nat)"
  by auto

declare One_nat_def [simp del]

lemma start_codes:
  "start_code 0 = [Lock, While (\<lambda>e l. \<not> loop_ptr e) [Wait ()], Unlock, Do (\<lambda>e l. (e, Some (loop_ptr e)))]"
  "start_code 1 = [While (\<lambda>e l. \<not> loop_ptr e) [Wait ()], Unlock, Do (\<lambda>e l. (e, Some (loop_ptr e)))]"
  "start_code 2 = [Unlock, Do (\<lambda>e l. (e, Some (loop_ptr e)))]"
  "start_code 3 = [Do (\<lambda>e l. (e, Some (loop_ptr e)))]"
  "start_code 4 = []"
  "start_code 5 = Wait () # start_code 1"
  "start_code 6 = Relock # start_code 1"
  by (simp_all add: start_code_def elt_startLoop_def One_nat_def)

lemma step_frames:
  assumes "handshake a i s"
  shows "failed s = None" "code s 1 = start_code a" "owner (mtx s) = (if a \<in> {1, 2, 5} then Some 1 else if i \<in> {2, 3, 4} then Some 2 else None)"
    "loop_ptr (shared s) = (3 \<le> i)"
  using assms by (simp_all add: handshake_def)

lemma handshake_step_start:
  assumes h: "handshake a i s" and st: "step 1 u s = Some s'"
  shows "handshake (if a \<in> {0, 6} then 1 else if a = 1 then if 3 \<le> i then 2 else 5 else if a = 5 then 6 else a + 1) i s'"
proof -
  note f = step_frames[OF h]
  have "a \<le> 6" using h by (simp add: handshake_def)
  then consider "a = 0" | "a = 1" | "a = 2" | "a = 3" | "a = 4" | "a = 5" | "a = 6" by linarith
  then show ?thesis
  proof cases
    case 1
    then have "s' = goto 1 (start_code 1) (s\<lparr>mtx := (mtx s)\<lparr>owner := Some 1, holder := 1\<rparr>\<rparr>)" "i \<notin> {2, 3, 4}"
      using st f by (auto simp: step_def start_codes mutex_lock_def split: if_splits)
    then show ?thesis using 1 h by (auto simp: handshake_def goto_def)
  next
    case 2
    then have "s' = goto 1 (start_code (if 3 \<le> i then 2 else 5)) s"
      using st f by (cases "3 \<le> i") (simp_all add: step_def start_codes)
    then show ?thesis using 2 h by (auto simp: handshake_def goto_def)
  next
    case 3
    then have "s' = goto 1 (start_code 3) (s\<lparr>mtx := (mtx s)\<lparr>owner := None, holder := 0\<rparr>\<rparr>)"
      using st f by (simp add: step_def start_codes mutex_unlock_def)
    then show ?thesis using 3 h by (auto simp: handshake_def goto_def)
  next
    case 4
    then have "s' = goto 1 (start_code 4) (s\<lparr>shared := shared s, mine := (mine s)(1 := Some (3 \<le> i))\<rparr>)"
      using st f by (simp add: step_def start_codes)
    then show ?thesis using 4 h by (auto simp: handshake_def goto_def)
  next
    case 5
    then show ?thesis using st f by (simp add: step_def start_codes)
  next
    case 6
    then have "s' = goto 1 (start_code 6) (cond_wait 1 () s)"
      using st f by (simp add: step_def start_codes)
    then show ?thesis using 6 h by (auto simp: handshake_def goto_def cond_wait_def)
  next
    case 7
    then have "s' = goto 1 (start_code 1) (s\<lparr>mtx := (mtx s)\<lparr>owner := Some 1\<rparr>\<rparr>)" "i \<notin> {2, 3, 4}"
      "1 \<notin> fst ` set (waiters s)"
      using st f by (auto simp: step_def start_codes split: if_splits)
    moreover from this(3) have "waiters s = []" using h by (cases "waiters s") (auto simp: handshake_def)
    ultimately show ?thesis using 7 h by (auto simp: handshake_def goto_def)
  qed
qed

lemma loop_codes:
  "drop 0 elt_threadFunc = Do (\<lambda>e l. (e\<lparr>alive := True\<rparr>, l)) # drop 1 elt_threadFunc"
  "drop 1 elt_threadFunc = Lock # drop 2 elt_threadFunc"
  "drop 2 elt_threadFunc = Do (\<lambda>e l. (e\<lparr>loop_ptr := True\<rparr>, l)) # drop 3 elt_threadFunc"
  "drop 3 elt_threadFunc = NotifyAll () # drop 4 elt_threadFunc"
  "drop 4 elt_threadFunc = Unlock # drop 5 elt_threadFunc"
  "drop 5 elt_threadFunc = Do (\<lambda>e l. (e\<lparr>quit_flag := False\<rparr>, l)) # drop 6 elt_threadFunc"
  "drop 6 elt_threadFunc = While (\<lambda>e l. \<not> quit_flag e) [] # drop 7 elt_threadFunc"
  by (simp_all add: elt_threadFunc_def loop_loop_def One_nat_def)

lemma handshake_step_loop:
  assumes h: "handshake a i s" and st: "step 2 u s = Some s'"
  shows "handshake a (min 6 (i + 1)) s'"
proof -
  note f = step_frames[OF h]
  have c: "code s 2 = drop i elt_threadFunc" "\<not> quit_flag (shared s)" using h by (simp_all add: handshake_def)
  have "i \<le> 6" using h by (simp add: handshake_def)
  then consider "i = 0" | "i = 1" | "i = 2" | "i = 3" | "i = 4" | "i = 5" | "i = 6" by linarith
  then show ?thesis
  proof cases
    case 1
    then have "s' = goto 2 (drop 1 elt_threadFunc) (s\<lparr>shared := (shared s)\<lparr>alive := True\<rparr>, mine := mine s\<rparr>)"
      using st f(1) c(1)[unfolded 1 loop_codes(1)] by (simp add: step_def)
    then show ?thesis using 1 h by (auto simp: handshake_def goto_def)
  next
    case 2
    then have "s' = goto 2 (drop 2 elt_threadFunc) (s\<lparr>mtx := (mtx s)\<lparr>owner := Some 2, holder := 2\<rparr>\<rparr>)" "a \<notin> {1, 2, 5}"
      using st f c(1)[unfolded 2 loop_codes(2)] by (auto simp: step_def mutex_lock_def split: if_splits)
    then show ?thesis using 2 h by (auto simp: handshake_def goto_def)
  next
    case 3
    then have "s' = goto 2 (drop 3 elt_threadFunc) (s\<lparr>shared := (shared s)\<lparr>loop_ptr := True\<rparr>, mine := mine s\<rparr>)"
      using st f(1) c(1)[unfolded 3 loop_codes(3)] by (simp add: step_def)
    then show ?thesis using 3 h by (auto simp: handshake_def goto_def)
  next
    case 4
    then have "s' = goto 2 (drop 4 elt_threadFunc) (cond_notifyAll () s)"
      using st f(1) c(1)[unfolded 4 loop_codes(4)] by (simp add: step_def)
    then show ?thesis using 4 h by (auto simp: handshake_def goto_def cond_notifyAll_def)
  next
    case 5
    moreover have "a \<notin> {1, 2, 5}" using 5 h by (simp add: handshake_def)
    ultimately have "s' = goto 2 (drop 5 elt_threadFunc) (s\<lparr>mtx := (mtx s)\<lparr>owner := None, holder := 0\<rparr>\<rparr>)"
      using st f c(1)[unfolded 5 loop_codes(5)] by (simp add: step_def mutex_unlock_def)
    then show ?thesis using 5 h \<open>a \<notin> {1, 2, 5}\<close> by (auto simp: handshake_def goto_def)
  next
    case 6
    then have "s' = goto 2 (drop 6 elt_threadFunc) (s\<lparr>shared := (shared s)\<lparr>quit_flag := False\<rparr>, mine := mine s\<rparr>)"
      using st f(1) c(1)[unfolded 6 loop_codes(6)] by (simp add: step_def)
    then show ?thesis using 6 h by (auto simp: handshake_def goto_def)
  next
    case 7
    then have "s' = goto 2 (drop 6 elt_threadFunc) s"
      using st f(1) c(1)[unfolded 7 loop_codes(7)] c(2) loop_codes(7) by (simp add: step_def)
    then show ?thesis using 7 h by (auto simp: handshake_def goto_def)
  qed
qed

lemma handshake_shrink:
  assumes "handshake a i s" "set ws \<subseteq> set (waiters s)"
  shows "handshake a i (s\<lparr>waiters := ws\<rparr>)"
proof -
  have "waiters s \<noteq> []" if "ws \<noteq> []" using assms(2) that by auto
  moreover have "set (waiters s) \<subseteq> {(1, ())}" using assms(1) by (simp add: handshake_def)
  then have "set ws \<subseteq> {(1, ())}" using assms(2) by (rule order_trans[rotated])
  ultimately show ?thesis using assms(1) unfolding handshake_def by simp
qed

lemma handshake_reach:
  assumes "reach (elt_system elt_startLoop) s"
  shows "\<exists>a i. handshake a i s"
  using assms
proof (induction rule: reach.induct)
  case start
  have "handshake 0 0 (elt_system elt_startLoop)"
    by (simp add: handshake_def start_code_def elt_system_def new_EventLoopThread_def threads_def new_MutexLock_def)
  then show ?case by blast
next
  case (run s t u s')
  then obtain a i where h: "handshake a i s" by blast
  show ?case
  proof (cases "t \<in> {1, 2}")
    case True
    then consider "t = 1" | "t = 2" by blast
    then show ?thesis
    proof cases
      case 1
      then show ?thesis using handshake_step_start[OF h] run(2) by blast
    next
      case 2
      then show ?thesis using handshake_step_loop[OF h] run(2) by blast
    qed
  next
    case False
    then have "code s t = []" using h by (simp add: handshake_def)
    then show ?thesis using run(2) by (simp add: step_def split: if_splits)
  qed
next
  case (wake s t s')
  then obtain a i where h: "handshake a i s" by blast
  obtain ws where "s' = s\<lparr>waiters := ws\<rparr>" "set ws \<subseteq> set (waiters s)"
    using wake(2) by (auto simp: spurious_def split: if_splits)
  then have "handshake a i s'" using handshake_shrink[OF h] by simp
  then show ?case by blast
qed

text \<open>A destructor that quits before the loop has begun to run waits forever.\<close>

definition hung :: "(loop_thread, bool option, unit) system \<Rightarrow> bool" where
  "hung s \<longleftrightarrow> code s 1 = [Join 2] \<and> code s 2 \<in> {drop 5 elt_threadFunc, drop 6 elt_threadFunc} \<and> failed s = None
     \<and> (code s 2 = drop 6 elt_threadFunc \<longrightarrow> \<not> quit_flag (shared s)) \<and> (\<forall>t. t \<noteq> 1 \<longrightarrow> t \<noteq> 2 \<longrightarrow> code s t = [])"

lemma drop_5_6: "drop 5 elt_threadFunc \<noteq> drop 6 elt_threadFunc" "drop 6 elt_threadFunc \<noteq> []" "drop 5 elt_threadFunc \<noteq> []"
  by (simp_all add: elt_threadFunc_def loop_loop_def)

lemma hung_step:
  assumes h: "hung s" and st: "step t u s = Some s'"
  shows "hung s'"
proof -
  have f: "failed s = None" using h by (simp add: hung_def)
  have t: "t = 2"
  proof (rule ccontr)
    assume "t \<noteq> 2"
    then show False
      using h st drop_5_6 by (cases "t = 1") (auto simp: hung_def step_def split: if_splits)
  qed
  consider "code s 2 = drop 5 elt_threadFunc" | "code s 2 = drop 6 elt_threadFunc" "\<not> quit_flag (shared s)"
    using h by (auto simp: hung_def)
  then show ?thesis
  proof cases
    case 1
    have "s' = goto 2 (drop 6 elt_threadFunc) (s\<lparr>shared := (shared s)\<lparr>quit_flag := False\<rparr>, mine := mine s\<rparr>)"
      using st f t 1[unfolded loop_codes(6)] by (simp add: step_def)
    then show ?thesis using h by (auto simp: hung_def goto_def)
  next
    case 2
    have "s' = goto 2 (drop 6 elt_threadFunc) s"
      using st f t 2(2) 2(1)[unfolded loop_codes(7)] loop_codes(7) by (simp add: step_def)
    then show ?thesis using h 2 by (auto simp: hung_def goto_def)
  qed
qed

lemma hung_reach: "reach s0 s \<Longrightarrow> hung s0 \<Longrightarrow> hung s"
proof (induction rule: reach.induct)
  case (run s t u s')
  then show ?case using hung_step by blast
next
  case (wake s t s')
  then show ?case by (auto simp: hung_def spurious_def split: if_splits)
qed

section \<open>Properties\<close>

text \<open>C22: \<open>startLoop\<close> hands out the loop. Under every schedule of the calling thread and the new one,
  nothing fails; when \<open>startLoop\<close> has returned, it has returned the pointer to a loop that exists; and
  as long as it has not returned it can go on, unless the new thread is inside the critical section
  or has still to announce its loop, so it never waits for a notification that has been given.\<close>

theorem startLoop_handshake:
  assumes "reach (elt_system elt_startLoop) s"
  shows "failed s = None \<and> (code s 1 = [] \<longrightarrow> mine s 1 = Some True \<and> alive (shared s))
    \<and> (code s 1 \<noteq> [] \<longrightarrow> (\<forall>u. step 1 u s = None) \<longrightarrow> owner (mtx s) = Some 2 \<or> \<not> loop_ptr (shared s))"
proof -
  obtain a i where h: "handshake a i s" using handshake_reach[OF assms] by blast
  note f = step_frames[OF h]
  have a: "a \<le> 6" using h by (simp add: handshake_def)
  have 1: "mine s 1 = Some True \<and> alive (shared s)" if "code s 1 = []"
  proof -
    have "a = 4" using a f(2) that by (auto simp: start_code_def elt_startLoop_def split: if_splits)
    then show ?thesis using h by (simp add: handshake_def)
  qed
  have 2: "owner (mtx s) = Some 2 \<or> \<not> loop_ptr (shared s)"
    if "code s 1 \<noteq> []" "\<forall>u. step 1 u s = None"
  proof (rule ccontr)
    assume n: "\<not> ?thesis"
    then have i: "3 \<le> i" "owner (mtx s) = (if a \<in> {1, 2, 5} then Some 1 else None)" using f(3,4) by (auto split: if_splits)
    have w: "a = 6 \<Longrightarrow> waiters s = []" using h n f(3) i(1) by (auto simp: handshake_def split: if_splits)
    have "step 1 u s = None" for u using that(2) by simp
    then show False
      using a f(1,2) i w that(1)
      by (auto simp: start_code_def elt_startLoop_def step_def mutex_lock_def mutex_unlock_def One_nat_def
          le_Suc_eq numeral_eq_Suc split: if_splits)
  qed
  show ?thesis using f(1) 1 2 by blast
qed

text \<open>C23: Destroying an \<open>EventLoopThread\<close> early goes wrong. If the destructor runs before the new thread
  has announced its loop, it follows a null pointer. If it runs after \<open>startLoop\<close> has returned but before
  the new thread has entered \<open>loop()\<close>, which resets the flag that \<open>quit\<close> set, it is in \<open>join\<close> at every
  later moment of every continuation.\<close>

theorem destructor_races:
  "(\<exists>s. reach (elt_system (delete_EventLoopThread 2)) s \<and> failed s = Some (Undefined 20))
    \<and> (\<exists>s. reach (elt_system (elt_startLoop @ delete_EventLoopThread 2)) s \<and> mine s 1 = Some True
        \<and> (\<forall>s'. reach s s' \<longrightarrow> code s' 1 = [Join 2]))"
proof
  note ex = step_def elt_defs threads_def new_MutexLock_def mutex_lock_def mutex_unlock_def goto_def cond_notifyAll_def
  obtain s where "run_schedule [(1, 1), (1, 1)] (elt_system (delete_EventLoopThread 2)) = Some s"
    "failed s = Some (Undefined 20)"
    by (simp add: ex)
  then show "\<exists>s. reach (elt_system (delete_EventLoopThread 2)) s \<and> failed s = Some (Undefined 20)"
    using run_schedule_reach[OF _ reach.start] by blast
  obtain s where s: "run_schedule [(2, 2), (2, 2), (2, 2), (2, 2), (2, 2), (1, 1), (1, 1), (1, 1), (1, 1), (1, 1), (1, 1), (1, 1)]
      (elt_system (elt_startLoop @ delete_EventLoopThread 2)) = Some s" "hung s" "mine s 1 = Some True"
    by (simp add: ex hung_def)
  then show "\<exists>s. reach (elt_system (elt_startLoop @ delete_EventLoopThread 2)) s \<and> mine s 1 = Some True
      \<and> (\<forall>s'. reach s s' \<longrightarrow> code s' 1 = [Join 2])"
    using run_schedule_reach[OF s(1) reach.start] hung_reach by (intro exI[of _ s]) (auto simp: hung_def)
qed

theorem destructor_races_witness:
  "\<exists>s. reach (elt_system (elt_startLoop @ delete_EventLoopThread 2)) s \<and> code s 1 = [Join 2]"
proof -
  obtain s where "reach (elt_system (elt_startLoop @ delete_EventLoopThread 2)) s" "\<forall>s'. reach s s' \<longrightarrow> code s' 1 = [Join 2]"
    using destructor_races by blast
  then show ?thesis using reach.start[of s] by blast
qed

theorem startLoop_handshake_witness:
  "\<exists>s. reach (elt_system elt_startLoop) s \<and> code s 1 = [] \<and> mine s 1 = Some True \<and> alive (shared s)"
proof -
  obtain s where s: "run_schedule [(2, 2), (2, 2), (2, 2), (2, 2), (2, 2), (1, 1), (1, 1), (1, 1), (1, 1)] (elt_system elt_startLoop) = Some s"
    "code s 1 = []"
    by (simp add: step_def elt_defs threads_def new_MutexLock_def mutex_lock_def mutex_unlock_def goto_def cond_notifyAll_def)
  have "reach (elt_system elt_startLoop) s" using s(1) by (rule run_schedule_reach) (rule reach.start)
  from startLoop_handshake[OF this] this s(2) show ?thesis by blast
qed

declare One_nat_def [simp]

end
