(* ===== verification/Blocking_Queues.thy ===== *)
theory Blocking_Queues
  imports Monitors
begin

text \<open>
  The queues that threads block on: src/base/thread/BlockingQueue.h and BoundedBlockingQueue.h.
  A thread's own data is what its calls have returned. \<open>boost::circular_buffer\<close> is a parameter,
  with its documented behaviour as hypothesis.
\<close>

section \<open>BlockingQueue\<close>

datatype queue_cond = NotEmpty | NotFull

record 'a returned =
  got :: "'a list"
  numbers :: "nat list"
  flags :: "bool list"

definition nothing_returned :: "'a returned" where
  "nothing_returned = \<lparr>got = [], numbers = [], flags = []\<rparr>"

type_synonym 'a bq_program = "('a list, 'a returned, queue_cond) program"

definition new_BlockingQueue :: "'a list" where "new_BlockingQueue = []"

definition bq_put :: "'a \<Rightarrow> 'a bq_program" where
  "bq_put x =
     [Lock,
      Do (\<lambda>q l. (q @ [x], l)),
      Notify NotEmpty,
      Unlock]"

definition bq_take :: "'a bq_program" where
  "bq_take =
     [Lock,
      While (\<lambda>q l. q = []) [Wait NotEmpty],
      Assert 47 (\<lambda>q l. q \<noteq> []),
      Do (\<lambda>q l. let front = hd q in (tl q, l\<lparr>got := got l @ [front]\<rparr>)),
      Unlock]"

definition bq_size :: "'a bq_program" where
  "bq_size = [Lock, Do (\<lambda>q l. (q, l\<lparr>numbers := numbers l @ [length q]\<rparr>)), Unlock]"

datatype 'a bq_call = BQ_put 'a | BQ_take | BQ_size

definition bq_method :: "'a bq_call \<Rightarrow> 'a bq_program" where
  "bq_method m = (case m of BQ_put x \<Rightarrow> bq_put x | BQ_take \<Rightarrow> bq_take | BQ_size \<Rightarrow> bq_size)"

section \<open>BoundedBlockingQueue\<close>

record ('b, 'a) circular_buffer =
  cb_full :: "'b \<Rightarrow> bool"
  cb_empty :: "'b \<Rightarrow> bool"
  cb_push_back :: "'a \<Rightarrow> 'b \<Rightarrow> 'b"
  cb_front :: "'b \<Rightarrow> 'a"
  cb_pop_front :: "'b \<Rightarrow> 'b"
  cb_size :: "'b \<Rightarrow> nat"
  cb_capacity :: "'b \<Rightarrow> nat"

text \<open>What the documentation of \<open>boost::circular_buffer\<close> says of the functions used.\<close>

definition circular_documented :: "('b, 'a) circular_buffer \<Rightarrow> ('b \<Rightarrow> 'a list) \<Rightarrow> bool" where
  "circular_documented cb contents \<longleftrightarrow>
     (\<forall>b. cb_full cb b \<longleftrightarrow> length (contents b) = cb_capacity cb b)
   \<and> (\<forall>b. cb_empty cb b \<longleftrightarrow> contents b = [])
   \<and> (\<forall>b. cb_size cb b = length (contents b))
   \<and> (\<forall>x b. \<not> cb_full cb b \<longrightarrow> contents (cb_push_back cb x b) = contents b @ [x])
   \<and> (\<forall>b. contents b \<noteq> [] \<longrightarrow> cb_front cb b = hd (contents b) \<and> contents (cb_pop_front cb b) = tl (contents b))
   \<and> (\<forall>x b. cb_capacity cb (cb_push_back cb x b) = cb_capacity cb b)
   \<and> (\<forall>b. cb_capacity cb (cb_pop_front cb b) = cb_capacity cb b)"

type_synonym ('b, 'a) bbq_program = "('b, 'a returned, queue_cond) program"

definition bbq_put :: "('b, 'a) circular_buffer \<Rightarrow> 'a \<Rightarrow> ('b, 'a) bbq_program" where
  "bbq_put cb x =
     [Lock,
      While (\<lambda>q l. cb_full cb q) [Wait NotFull],
      Assert 40 (\<lambda>q l. \<not> cb_full cb q),
      Do (\<lambda>q l. (cb_push_back cb x q, l)),
      Notify NotEmpty,
      Unlock]"

definition bbq_take :: "('b, 'a) circular_buffer \<Rightarrow> ('b, 'a) bbq_program" where
  "bbq_take cb =
     [Lock,
      While (\<lambda>q l. cb_empty cb q) [Wait NotEmpty],
      Assert 52 (\<lambda>q l. \<not> cb_empty cb q),
      Do (\<lambda>q l. let front = cb_front cb q in (cb_pop_front cb q, l\<lparr>got := got l @ [front]\<rparr>)),
      Notify NotFull,
      Unlock]"

definition bbq_empty :: "('b, 'a) circular_buffer \<Rightarrow> ('b, 'a) bbq_program" where
  "bbq_empty cb = [Lock, Do (\<lambda>q l. (q, l\<lparr>flags := flags l @ [cb_empty cb q]\<rparr>)), Unlock]"

definition bbq_full :: "('b, 'a) circular_buffer \<Rightarrow> ('b, 'a) bbq_program" where
  "bbq_full cb = [Lock, Do (\<lambda>q l. (q, l\<lparr>flags := flags l @ [cb_full cb q]\<rparr>)), Unlock]"

definition bbq_size :: "('b, 'a) circular_buffer \<Rightarrow> ('b, 'a) bbq_program" where
  "bbq_size cb = [Lock, Do (\<lambda>q l. (q, l\<lparr>numbers := numbers l @ [cb_size cb q]\<rparr>)), Unlock]"

definition bbq_capacity :: "('b, 'a) circular_buffer \<Rightarrow> ('b, 'a) bbq_program" where
  "bbq_capacity cb = [Lock, Do (\<lambda>q l. (q, l\<lparr>numbers := numbers l @ [cb_capacity cb q]\<rparr>)), Unlock]"

datatype 'a bbq_call = BBQ_put 'a | BBQ_take | BBQ_empty | BBQ_full | BBQ_size | BBQ_capacity

definition bbq_method :: "('b, 'a) circular_buffer \<Rightarrow> 'a bbq_call \<Rightarrow> ('b, 'a) bbq_program" where
  "bbq_method cb m = (case m of BBQ_put x \<Rightarrow> bbq_put cb x | BBQ_take \<Rightarrow> bbq_take cb | BBQ_empty \<Rightarrow> bbq_empty cb
     | BBQ_full \<Rightarrow> bbq_full cb | BBQ_size \<Rightarrow> bbq_size cb | BBQ_capacity \<Rightarrow> bbq_capacity cb)"

section \<open>The queue they implement\<close>

text \<open>
  The steps of an abstract queue of at most \<open>cap\<close> elements (unbounded when \<open>None\<close>) and of the thread
  that makes them: add at the end, hand out the front, or look at it.
\<close>

definition room_left :: "nat option \<Rightarrow> 'a list \<Rightarrow> bool" where
  "room_left cap q = (case cap of None \<Rightarrow> True | Some n \<Rightarrow> length q < n)"

definition queue_step :: "nat option \<Rightarrow> 'a list \<Rightarrow> 'a returned \<Rightarrow> 'a list \<Rightarrow> 'a returned \<Rightarrow> bool" where
  "queue_step cap q l q' l' \<longleftrightarrow>
     (\<exists>x. room_left cap q \<and> q' = q @ [x] \<and> l' = l)
   \<or> q \<noteq> [] \<and> q' = tl q \<and> l' = l\<lparr>got := got l @ [hd q]\<rparr>
   \<or> q' = q \<and> got l' = got l"

lemmas bq_defs = bq_method_def bq_put_def bq_take_def bq_size_def
lemmas bbq_defs = bbq_method_def bbq_put_def bbq_take_def bbq_empty_def bbq_full_def bbq_size_def bbq_capacity_def

interpretation bq: monitor bq_method "\<lambda>q. True" "\<lambda>c q. True" "queue_step None"
proof
  fix m :: "'a bq_call" and x l
  show "locking False (bq_method m) = Some False" by (cases m) (simp_all add: bq_defs)
  show "outline (\<lambda>q. True) (\<lambda>c q. True) (queue_step None) (bq_method m) x l"
    by (cases m) (auto simp: bq_defs queue_step_def room_left_def Let_def)
qed

lemma bbq_monitor:
  assumes "circular_documented cb contents"
  shows "monitor (bbq_method cb) (\<lambda>q. cb_capacity cb q = cap \<and> length (contents q) \<le> cap) (\<lambda>c q. True)
    (\<lambda>q l q' l'. cb_capacity cb q' = cb_capacity cb q
       \<and> queue_step (Some (cb_capacity cb q)) (contents q) l (contents q') l')"
proof
  fix m :: "'b bbq_call" and x l
  show "locking False (bbq_method cb m) = Some False" by (cases m) (simp_all add: bbq_defs)
  show "outline (\<lambda>q. cb_capacity cb q = cap \<and> length (contents q) \<le> cap) (\<lambda>c q. True)
      (\<lambda>q l q' l'. cb_capacity cb q' = cb_capacity cb q
       \<and> queue_step (Some (cb_capacity cb q)) (contents q) l (contents q') l') (bbq_method cb m) x l"
    using assms
    by (cases m) (auto simp: bbq_defs queue_step_def room_left_def Let_def circular_documented_def)
qed

section \<open>Properties\<close>

text \<open>A \<open>BlockingQueue\<close> is a queue. Whatever threads call its methods, in whatever order they
  are scheduled, with spurious wake-ups, no assertion fails and every step of a thread leaves the
  queue alone, adds the element put at its end, or hands the element at its front to the thread
  that takes it; only the thread that has the mutex changes the queue.\<close>

theorem blocking_queue_fifo:
  assumes "reach (threads bq_method calls new_BlockingQueue nothing_returned) s" "step t u s = Some s'"
  shows "failed s' = None
    \<and> ((shared s', mine s' t) = (shared s, mine s t) \<or> queue_step None (shared s) (mine s t) (shared s') (mine s' t))
    \<and> (\<forall>v. v \<noteq> t \<longrightarrow> mine s' v = mine s v) \<and> (shared s' \<noteq> shared s \<longrightarrow> owner (mtx s) = Some t)"
  using bq.no_failure[OF reach.run[OF assms]] bq.step_allowed[OF assms(1) _ assms(2)] by simp

definition wit_calls :: "tid \<Rightarrow> nat bq_call list" where
  "wit_calls t = (if t = 1 then [BQ_take] else if t = 2 then [BQ_put 7] else [])"

theorem blocking_queue_fifo_witness:
  "\<exists>s s'. reach (threads bq_method wit_calls new_BlockingQueue nothing_returned) s \<and> step 2 1 s = Some s'
    \<and> failed s' = None \<and> shared s' = [7]"
proof -
  let ?s0 = "threads bq_method wit_calls new_BlockingQueue nothing_returned"
  obtain s where s: "run_schedule [(1, 1), (1, 1), (1, 1), (2, 1)] ?s0 = Some s"
    by (simp add: step_def threads_def bq_defs wit_calls_def new_MutexLock_def mutex_lock_def goto_def cond_wait_def
        new_BlockingQueue_def)
  then have r: "reach ?s0 s" by (rule run_schedule_reach) (rule reach.start)
  obtain s' where s': "step 2 1 s = Some s'" "shared s' = [7]"
    using s by (auto simp: step_def threads_def bq_defs wit_calls_def new_MutexLock_def mutex_lock_def goto_def cond_wait_def
        new_BlockingQueue_def)
  from blocking_queue_fifo[OF r s'(1)] r s' show ?thesis by blast
qed

text \<open>C12: A \<open>BoundedBlockingQueue\<close> is a bounded queue. Given a circular buffer that behaves as
  documented, in every reachable state no assertion has failed and the capacity is as it was
  constructed; when the mutex is free there are at most that many elements; and every step leaves
  the queue alone, adds an element at its end when there is room, or hands out its front.\<close>

theorem bounded_queue_fifo:
  assumes cb: "circular_documented cb contents" and b: "length (contents b) \<le> cb_capacity cb b"
    and r: "reach (threads (bbq_method cb) calls b nothing_returned) s" and st: "step t u s = Some s'"
  shows "failed s' = None
    \<and> (owner (mtx s) = None \<longrightarrow> cb_capacity cb (shared s) = cb_capacity cb b
        \<and> length (contents (shared s)) \<le> cb_capacity cb b)
    \<and> ((shared s', mine s' t) = (shared s, mine s t)
        \<or> queue_step (Some (cb_capacity cb (shared s))) (contents (shared s)) (mine s t) (contents (shared s')) (mine s' t))"
proof -
  let ?I = "\<lambda>q. cb_capacity cb q = cb_capacity cb b \<and> length (contents q) \<le> cb_capacity cb b"
  note m = bbq_monitor[OF cb, of "cb_capacity cb b"]
  have I: "?I b" using b by simp
  show ?thesis
    using monitor.no_failure[OF m reach.run[OF r st] I] monitor.free_invariant[OF m r I]
      monitor.step_allowed[OF m r I st] by auto
qed

text \<open>A buffer of two elements as a list with its capacity.\<close>

definition wit_circular :: "(nat \<times> nat list, nat) circular_buffer" where
  "wit_circular = \<lparr>cb_full = (\<lambda>(n, q). length q = n), cb_empty = (\<lambda>(n, q). q = []),
     cb_push_back = (\<lambda>x (n, q). (n, if length q = n then tl (q @ [x]) else q @ [x])),
     cb_front = (\<lambda>(n, q). hd q), cb_pop_front = (\<lambda>(n, q). (n, tl q)),
     cb_size = (\<lambda>(n, q). length q), cb_capacity = fst\<rparr>"

lemma wit_circular_documented: "circular_documented wit_circular snd"
  by (auto simp: circular_documented_def wit_circular_def)

definition wit_bcalls :: "tid \<Rightarrow> nat bbq_call list" where
  "wit_bcalls t = (if t = 1 then [BBQ_put 7] else [])"

theorem bounded_queue_fifo_witness:
  "\<exists>s s'. reach (threads (bbq_method wit_circular) wit_bcalls (2, [5]) nothing_returned) s \<and> step 1 1 s = Some s'
    \<and> failed s' = None \<and> shared s' = (2, [5, 7])"
proof -
  let ?s0 = "threads (bbq_method wit_circular) wit_bcalls (2, [5]) nothing_returned"
  note ex = step_def threads_def bbq_defs wit_bcalls_def new_MutexLock_def mutex_lock_def goto_def wit_circular_def
  obtain s where s: "run_schedule [(1, 1), (1, 1), (1, 1)] ?s0 = Some s" by (simp add: ex)
  then have r: "reach ?s0 s" by (rule run_schedule_reach) (rule reach.start)
  obtain s' where s': "step 1 1 s = Some s'" "shared s' = (2, [5, 7])" using s by (auto simp: ex)
  have "length (snd (2 :: nat, [5 :: nat])) \<le> cb_capacity wit_circular (2, [5])" by (simp add: wit_circular_def)
  from bounded_queue_fifo[OF wit_circular_documented this r s'(1)] r s' show ?thesis by blast
qed

text \<open>A wait loses the mark of who has the mutex. A thread that waited in \<open>take\<close> and was woken by a
  \<open>put\<close> has the mutex again, but \<open>holder_\<close> is still 0 from the unlock of \<open>put\<close>: then
  \<open>isLockedByThisThread\<close> answers no and \<open>assertLocked\<close> aborts, in the middle of the critical section.\<close>

theorem wait_forgets_holder:
  assumes "calls t = [BQ_take]" "calls u = [BQ_put x]" "t \<noteq> 0" "u \<noteq> t"
  shows "\<exists>s. reach (threads bq_method calls new_BlockingQueue nothing_returned) s \<and> owner (mtx s) = Some t
    \<and> \<not> isLockedByThisThread t (mtx s) \<and> assertLocked t (mtx s) = Inl (Assertion 42)"
proof -
  let ?s0 = "threads bq_method calls new_BlockingQueue nothing_returned"
  note ex = step_def threads_def bq_defs new_MutexLock_def mutex_lock_def mutex_unlock_def goto_def cond_wait_def
    cond_notify_def new_BlockingQueue_def assms assms(4)[symmetric]
  obtain s where s: "run_schedule [(t, t), (t, t), (t, t), (u, t), (u, t), (u, t), (u, t), (t, t)] ?s0 = Some s"
    "owner (mtx s) = Some t" "holder (mtx s) = 0"
    by (simp add: ex)
  have "reach ?s0 s" using s(1) by (rule run_schedule_reach) (rule reach.start)
  then show ?thesis using s(2,3) assms(3)
    by (intro exI[of _ s]) (simp add: isLockedByThisThread_def assertLocked_def)
qed

theorem wait_forgets_holder_witness:
  "\<exists>s. reach (threads bq_method wit_calls new_BlockingQueue nothing_returned) s \<and> owner (mtx s) = Some 1
    \<and> assertLocked 1 (mtx s) = Inl (Assertion 42)"
proof -
  have "wit_calls 1 = [BQ_take]" "wit_calls 2 = [BQ_put 7]" "(1::tid) \<noteq> 0" "(2::tid) \<noteq> 1" by (simp_all add: wit_calls_def)
  from wait_forgets_holder[OF this] show ?thesis by blast
qed

end
