(* ===== verification/Latches.thy ===== *)
theory Latches
  imports Monitors
begin

text \<open>
  The latch that threads wait at until it has been counted down: src/base/thread/CountDownLatch.h.
  A thread's own data is what \<open>getCount\<close> has returned. The count is an unbounded integer.
\<close>

section \<open>CountDownLatch\<close>

type_synonym latch_program = "(int, int list, unit) program"

definition new_CountDownLatch :: "int \<Rightarrow> int" where "new_CountDownLatch count = count"

definition latch_wait :: latch_program where
  "latch_wait = [Lock, While (\<lambda>count l. count > 0) [Wait ()], Unlock]"

definition latch_countDown :: latch_program where
  "latch_countDown =
     [Lock,
      Do (\<lambda>count l. (count - 1, l)),
      If (\<lambda>count l. count = 0) [NotifyAll ()] [],
      Unlock]"

definition latch_getCount :: latch_program where
  "latch_getCount = [Lock, Do (\<lambda>count l. (count, l @ [count])), Unlock]"

datatype latch_call = Latch_wait | Latch_countDown | Latch_getCount

definition latch_method :: "latch_call \<Rightarrow> latch_program" where
  "latch_method m = (case m of Latch_wait \<Rightarrow> latch_wait | Latch_countDown \<Rightarrow> latch_countDown
     | Latch_getCount \<Rightarrow> latch_getCount)"

lemmas latch_defs = latch_method_def latch_wait_def latch_countDown_def latch_getCount_def

definition latch_step :: "int \<Rightarrow> int list \<Rightarrow> int \<Rightarrow> int list \<Rightarrow> bool" where
  "latch_step x l x' l' \<longleftrightarrow> x' = x - 1 \<and> l' = l \<or> x' = x \<and> l' = l @ [x]"

interpretation latch: monitor latch_method "\<lambda>x. True" "\<lambda>c x. x > 0" latch_step
proof
  fix m :: latch_call and x l
  show "locking False (latch_method m) = Some False" by (cases m) (simp_all add: latch_defs)
  show "outline (\<lambda>x. True) (\<lambda>c x. x > 0) latch_step (latch_method m) x l"
    by (cases m) (auto simp: latch_defs latch_step_def)
qed

section \<open>Properties\<close>

text \<open>C14: The latch lets everybody through, and nobody too early. Whatever threads wait, count down
  and read, under every schedule: the count only goes down, by one each time and under the mutex;
  while the mutex is free and somebody waits, the count is above zero, so that whoever waits when it
  reaches zero has been woken; and when no thread can go on, either all calls have returned or the
  count is above zero because too few threads counted down.\<close>

theorem latch_opens:
  assumes "reach (threads latch_method calls (new_CountDownLatch n) []) s"
  shows "failed s = None
    \<and> (owner (mtx s) = None \<longrightarrow> (t, c) \<in> set (waiters s) \<longrightarrow> shared s > 0)
    \<and> (step t u s = Some s' \<longrightarrow> shared s' = shared s \<or> shared s' = shared s - 1 \<and> owner (mtx s) = Some t)
    \<and> ((\<forall>t u. step t u s = None) \<longrightarrow> shared s \<le> 0 \<longrightarrow> code s v = [])"
proof (intro conjI impI)
  show "failed s = None" using latch.no_failure[OF assms] by simp
  show "shared s > 0" if "owner (mtx s) = None" "(t, c) \<in> set (waiters s)"
    using latch.reachable[OF assms] that by (auto simp: outlined_def)
  show "shared s' = shared s \<or> shared s' = shared s - 1 \<and> owner (mtx s) = Some t" if "step t u s = Some s'"
    using latch.step_allowed[OF assms _ that] by (auto simp: latch_step_def)
  show "code s v = []" if "\<forall>t u. step t u s = None" "shared s \<le> 0"
    using latch.stuck[OF assms _ that(1), of v] that(2) by auto
qed

definition wit_latch_calls :: "tid \<Rightarrow> latch_call list" where
  "wit_latch_calls t = (if t = 2 then [Latch_wait] else if t = 3 then [Latch_countDown] else [])"

theorem latch_opens_witness:
  "\<exists>s. reach (threads latch_method wit_latch_calls (new_CountDownLatch 1) []) s \<and> (2, ()) \<in> set (waiters s)
    \<and> owner (mtx s) = None \<and> shared s > 0"
proof -
  let ?s0 = "threads latch_method wit_latch_calls (new_CountDownLatch 1) []"
  obtain s where s: "run_schedule [(2, 2), (2, 2), (2, 2)] ?s0 = Some s" "(2, ()) \<in> set (waiters s)" "owner (mtx s) = None"
    by (simp add: step_def threads_def latch_defs wit_latch_calls_def new_MutexLock_def mutex_lock_def goto_def
        cond_wait_def new_CountDownLatch_def)
  have r: "reach ?s0 s" using s(1) by (rule run_schedule_reach) (rule reach.start)
  from latch_opens[OF r, of 2 "()"] r s(2,3) show ?thesis by blast
qed

end
