(* ===== verification/Thread_Pools.thy ===== *)
theory Thread_Pools
  imports Blocking_Queues Latches
begin

text \<open>
  The pool of worker threads: src/base/thread/ThreadPool.h and ThreadPool.cc. A task is a value, and
  running it is remembered by the thread that ran it; tasks do not throw. The threads the pool will
  be given are an argument of \<open>start\<close> and \<open>stop\<close>, since the kernel chooses their numbers.
\<close>

section \<open>ThreadPool\<close>

record 'a thread_pool =
  pool_threads :: "tid list"
  pool_queue :: "'a list"
  running :: bool

record 'a worker =
  task :: "'a option"
  performed :: "'a list"

type_synonym 'a pool_program = "('a thread_pool, 'a worker, unit) program"

definition new_ThreadPool :: "'a thread_pool" where
  "new_ThreadPool = \<lparr>pool_threads = [], pool_queue = [], running = False\<rparr>"

definition no_task :: "'a worker" where "no_task = \<lparr>task = None, performed = []\<rparr>"

definition tp_take :: "'a pool_program" where
  "tp_take =
     [Lock,
      While (\<lambda>p l. pool_queue p = [] \<and> running p) [Wait ()],
      Do (\<lambda>p l. case pool_queue p of
            [] \<Rightarrow> (p, l\<lparr>task := None\<rparr>)
          | x # xs \<Rightarrow> (p\<lparr>pool_queue := xs\<rparr>, l\<lparr>task := Some x\<rparr>)),
      Unlock]"

definition call_task :: "'a thread_pool \<Rightarrow> 'a worker \<Rightarrow> 'a thread_pool \<times> 'a worker" where
  "call_task p l = (p, l\<lparr>performed := performed l @ [the (task l)]\<rparr>)"

definition runInThread :: "'a pool_program" where
  "runInThread =
     [While (\<lambda>p l. running p)
        (tp_take @ [If (\<lambda>p l. task l \<noteq> None) [Do call_task] []])]"

definition tp_start :: "tid list \<Rightarrow> 'a pool_program" where
  "tp_start ts =
     [Assert 35 (\<lambda>p l. pool_threads p = []),
      Do (\<lambda>p l. (p\<lparr>running := True\<rparr>, l))]
     @ concat (map (\<lambda>t. [Do (\<lambda>p l. (p\<lparr>pool_threads := pool_threads p @ [t]\<rparr>, l)), Spawn t runInThread]) ts)"

definition tp_stop :: "tid list \<Rightarrow> 'a pool_program" where
  "tp_stop ts = [Do (\<lambda>p l. (p\<lparr>running := False\<rparr>, l)), NotifyAll ()] @ map Join ts"

definition tp_run :: "'a \<Rightarrow> 'a pool_program" where
  "tp_run x =
     [If (\<lambda>p l. pool_threads p = [])
        [Do (\<lambda>p l. (p, l\<lparr>performed := performed l @ [x]\<rparr>))]
        [Lock, Do (\<lambda>p l. (p\<lparr>pool_queue := pool_queue p @ [x]\<rparr>, l)), Notify (), Unlock]]"

definition delete_ThreadPool :: "tid list \<Rightarrow> 'a pool_program" where
  "delete_ThreadPool ts = [If (\<lambda>p l. running p) (tp_stop ts) []]"

lemmas tp_defs = tp_take_def runInThread_def tp_start_def tp_stop_def tp_run_def call_task_def
  new_ThreadPool_def no_task_def

text \<open>A pool used by one thread, whose own number is 1.\<close>

definition tp_user :: "'a pool_program \<Rightarrow> ('a thread_pool, 'a worker, unit) system" where
  "tp_user p = threads (\<lambda>_. p) (\<lambda>t. if t = 1 then [()] else []) new_ThreadPool no_task"

section \<open>Properties\<close>

lemma tp_not_locked: "locking False (tp_stop ts) = None" "locking False runInThread = None"
  "locking False tp_take = Some False" "locking False (tp_run x) = None"
  by (simp_all add: tp_defs)

text \<open>C13: Locks are used as they should be, except by the thread pool. Every method of
  \<open>BlockingQueue\<close>, \<open>BoundedBlockingQueue\<close> and \<open>CountDownLatch\<close> and \<open>ThreadPool::take\<close> pass the check
  of their text. Of threads that call only such methods, under every schedule, none ever unlocks or
  waits on a mutex it does not have, only the thread that has the mutex changes the data, and where
  a thread is in its text says whether it has the mutex, so no two are inside at once.
  \<open>ThreadPool::stop\<close>, \<open>runInThread\<close> and \<open>run\<close> do not pass: they touch the data without the mutex.\<close>

theorem well_locked_sound:
  assumes m: "\<forall>m. locking False (meth m) = Some False"
    and r: "reach (threads meth calls x l) s" and st: "step t u s = Some s'"
  shows "(\<forall>e. failed s' = Some e \<longrightarrow> (\<exists>n. e = Assertion n)) \<and> (shared s' \<noteq> shared s \<longrightarrow> owner (mtx s) = Some t)
    \<and> (\<forall>v. locking (owner (mtx s) = Some v) (code s v) = Some False)
    \<and> (\<forall>m. locking False (bq_method m) = Some False) \<and> (\<forall>m. locking False (bbq_method cb m) = Some False)
    \<and> (\<forall>m. locking False (latch_method m) = Some False) \<and> locking False (tp_take :: 'a pool_program) = Some False
    \<and> locking False (tp_stop ts :: 'a pool_program) = None \<and> locking False (runInThread :: 'a pool_program) = None
    \<and> locking False (tp_run (y :: 'a)) = None"
proof -
  have w: "well_locked s" using r by (rule well_locked_reach) (simp add: m well_locked_threads)
  have "locking False (bbq_method cb m) = Some False" for m by (cases m) (simp_all add: bbq_defs)
  then show ?thesis
    using well_locked_step[OF w st] locking_status[OF w] bq.locked latch.locked tp_not_locked
    by (intro conjI allI) simp_all
qed

theorem well_locked_sound_witness:
  "\<exists>s s'. reach (threads latch_method wit_latch_calls 1 []) s \<and> step 2 2 s = Some s'
    \<and> locking (owner (mtx s) = Some 2) (code s 2) = Some False"
proof -
  let ?s0 = "threads latch_method wit_latch_calls 1 []"
  have m: "\<forall>m. locking False (latch_method m) = Some False" by (simp add: latch.locked)
  have r: "reach ?s0 ?s0" by (rule reach.start)
  obtain s' where s': "step 2 2 ?s0 = Some s'"
    by (simp add: step_def threads_def latch_defs wit_latch_calls_def new_MutexLock_def mutex_lock_def)
  have "locking (owner (mtx ?s0) = Some 2) (code ?s0 2) = Some False"
    using well_locked_sound[OF m r s', where cb = wit_circular and ts = "[]" and y = "0 :: nat"]
    by (elim conjE) (erule spec)
  with r s' show ?thesis by blast
qed

text \<open>The two schedules.\<close>

lemmas tp_run_simps = step_def tp_user_def threads_def tp_defs new_MutexLock_def mutex_lock_def mutex_unlock_def
  goto_def cond_wait_def cond_notify_def cond_notifyAll_def

lemma stop_hangs:
  "\<exists>s. run_schedule [(1, 1), (1, 1), (1, 1), (1, 1), (2, 2), (2, 2), (2, 2), (1, 1), (1, 1), (2, 2)]
      (tp_user (tp_start [2] @ tp_stop [2])) = Some s
    \<and> code s 1 = [Join 2] \<and> (\<exists>p. code s 2 = Relock # p) \<and> (\<forall>t. t \<noteq> 1 \<longrightarrow> t \<noteq> 2 \<longrightarrow> code s t = [])
    \<and> waiters s = [(2, ())] \<and> \<not> running (shared s)"
  by (simp add: tp_run_simps)

lemma stop_drops:
  "\<exists>s. run_schedule (replicate 11 (1, 1) @ [(2, 2), (1, 1)]) (tp_user (tp_start [2] @ tp_run x @ tp_stop [2])) = Some s
    \<and> failed s = None \<and> code s = (\<lambda>_. []) \<and> pool_queue (shared s) = [x] \<and> (\<forall>t. performed (mine s t) = [])"
  by (simp add: tp_run_simps numeral_eq_Suc fun_eq_iff)


text \<open>C25: Stopping the pool can hang, and can lose tasks. \<open>stop\<close> sets \<open>running_\<close> and notifies without
  the mutex. If it does so after a worker has seen \<open>running_\<close> true and before it waits, the worker sleeps
  and \<open>stop\<close> waits for it: nobody can go on, unless the worker wakes up by itself. And if the workers
  have not yet begun, they end without running the tasks that were queued before \<open>stop\<close>, which
  returns normally.\<close>

theorem stop_hangs_or_drops:
  fixes x :: 'a
  shows "(\<exists>s. reach (tp_user (tp_start [2] @ tp_stop [2])) (s :: ('a thread_pool, 'a worker, unit) system)
      \<and> code s 1 = [Join 2] \<and> code s 2 \<noteq> [] \<and> \<not> running (shared s) \<and> (\<forall>t u. step t u s = None))
    \<and> (\<exists>s. reach (tp_user (tp_start [2] @ tp_run x @ tp_stop [2])) s
      \<and> failed s = None \<and> (\<forall>t. code s t = []) \<and> pool_queue (shared s) = [x] \<and> (\<forall>t. performed (mine s t) = []))"
proof
  obtain s where s: "run_schedule [(1, 1), (1, 1), (1, 1), (1, 1), (2, 2), (2, 2), (2, 2), (1, 1), (1, 1), (2, 2)]
      (tp_user (tp_start [2] @ tp_stop [2])) = Some (s :: ('a thread_pool, 'a worker, unit) system)"
    "code s 1 = [Join 2]" "\<exists>p. code s 2 = Relock # p" "\<forall>t. t \<noteq> 1 \<longrightarrow> t \<noteq> 2 \<longrightarrow> code s t = []"
    "waiters s = [(2, ())]" "\<not> running (shared s)"
    using stop_hangs[where 'a = 'a] by blast
  have "step t u s = None" for t u
    using s(2-5) by (cases "t = 1"; cases "t = 2") (auto simp: step_def)
  moreover have "reach (tp_user (tp_start [2] @ tp_stop [2])) s"
    using s(1) by (rule run_schedule_reach) (rule reach.start)
  ultimately show "\<exists>s. reach (tp_user (tp_start [2] @ tp_stop [2])) (s :: ('a thread_pool, 'a worker, unit) system)
      \<and> code s 1 = [Join 2] \<and> code s 2 \<noteq> [] \<and> \<not> running (shared s) \<and> (\<forall>t u. step t u s = None)"
    using s(2,3,6) by auto
  obtain s where "run_schedule (replicate 11 (1, 1) @ [(2, 2), (1, 1)])
      (tp_user (tp_start [2] @ tp_run x @ tp_stop [2])) = Some s"
    "failed s = None" "code s = (\<lambda>_. [])" "pool_queue (shared s) = [x]" "\<forall>t. performed (mine s t) = []"
    using stop_drops[of x] by blast
  then show "\<exists>s. reach (tp_user (tp_start [2] @ tp_run x @ tp_stop [2])) s
      \<and> failed s = None \<and> (\<forall>t. code s t = []) \<and> pool_queue (shared s) = [x] \<and> (\<forall>t. performed (mine s t) = [])"
    using run_schedule_reach[OF _ reach.start] by (intro exI[of _ s]) auto
qed

end
