(* ===== verification/Async_Logging.thy ===== *)
theory Async_Logging
  imports Log_Streams Log_Files
begin

text \<open>
  The asynchronous logger with double buffering: src/base/logging/AsyncLoggingDoubleBuffering.h, on
  top of \<open>FixedBuffer\<close> and \<open>LogFile\<close>. The front end appends lines under the mutex; the logging thread
  takes over the full buffers under the mutex and writes them outside of it. Each such stretch is one
  step, and the steps of the two sides are interleaved. \<open>waitForSeconds\<close> may return at any time, since
  it times out. Buffers move between owners; a null pointer is \<open>None\<close>.
\<close>

section \<open>State\<close>

text \<open>Where the logging thread is: not begun, at the head of its loop, inside the wait, at the
  writing that follows the critical section, or done.\<close>

datatype writer_pc = Not_begun | Loop_head | In_wait | Writing | Done

record async_log =
  al_running :: bool
  al_basename :: string
  al_rollSize :: nat
  currentBuffer :: fixed_buffer
  nextBuffer :: "fixed_buffer option"
  full_buffers :: "fixed_buffer list"
  writer :: writer_pc
  newBuffer1 :: "fixed_buffer option"
  newBuffer2 :: "fixed_buffer option"
  buffersToWrite :: "fixed_buffer list"
  log_output :: log_file
  std_err :: "string list"

definition new_large :: fixed_buffer where
  "new_large = new_FixedBuffer kLargeBuffer"

text \<open>The last argument stands for the clock, the answers of \<open>fwrite\<close> and the process number.\<close>

definition new_AsyncLogging :: "string \<Rightarrow> nat \<Rightarrow> log_file \<Rightarrow> async_log" where
  "new_AsyncLogging base limit env =
     \<lparr>al_running = False, al_basename = base, al_rollSize = limit, currentBuffer = new_large, nextBuffer = Some new_large,
      full_buffers = [], writer = Not_begun, newBuffer1 = None, newBuffer2 = None, buffersToWrite = [],
      log_output = env, std_err = []\<rparr>"

section \<open>The front end\<close>

definition al_append :: "string \<Rightarrow> async_log \<Rightarrow> async_log result" where
  "al_append logline s =
     (let len = int (length logline)
      in if fb_avail (currentBuffer s) > len
         then rbind (fb_append logline len (currentBuffer s)) (\<lambda>b. Inr (s\<lparr>currentBuffer := b\<rparr>))
         else let s = s\<lparr>full_buffers := full_buffers s @ [currentBuffer s]\<rparr>;
                  s = (case nextBuffer s of
                         Some b \<Rightarrow> s\<lparr>currentBuffer := b, nextBuffer := None\<rparr>
                       | None \<Rightarrow> s\<lparr>currentBuffer := new_large\<rparr>)
              in rbind (fb_append logline len (currentBuffer s)) (\<lambda>b. Inr (s\<lparr>currentBuffer := b\<rparr>)))"

definition al_start :: "async_log \<Rightarrow> async_log" where
  "al_start s = s\<lparr>al_running := True\<rparr>"

definition al_stop :: "async_log \<Rightarrow> async_log" where
  "al_stop s = s\<lparr>al_running := False\<rparr>"

section \<open>The logging thread\<close>

definition is_empty_buffer :: "fixed_buffer option \<Rightarrow> bool" where
  "is_empty_buffer b \<longleftrightarrow> (case b of None \<Rightarrow> False | Some b \<Rightarrow> fb_length b = 0)"

definition writer_begin :: "async_log \<Rightarrow> async_log result" where
  "writer_begin s =
     check (al_running s) (Assertion 97)
       (let env = log_output s
        in rbind (new_LogFile (al_basename s) (al_rollSize s) 3 (clocks env) (fwrites env) (pid env)) (\<lambda>f.
           Inr (s\<lparr>log_output := f, newBuffer1 := Some new_large, newBuffer2 := Some new_large, buffersToWrite := [],
                  writer := Loop_head\<rparr>)))"

text \<open>The critical section after the wait.\<close>

definition writer_swap :: "async_log \<Rightarrow> async_log result" where
  "writer_swap s =
     (case newBuffer1 s of
        None \<Rightarrow> Inl (Undefined 119)
      | Some b \<Rightarrow>
          let s = s\<lparr>full_buffers := full_buffers s @ [currentBuffer s], currentBuffer := b, newBuffer1 := None\<rparr>;
              s = s\<lparr>buffersToWrite := full_buffers s, full_buffers := buffersToWrite s\<rparr>;
              s = (if nextBuffer s = None then s\<lparr>nextBuffer := newBuffer2 s, newBuffer2 := None\<rparr> else s)
          in Inr (s\<lparr>writer := Writing\<rparr>))"

definition writer_head :: "async_log \<Rightarrow> async_log result" where
  "writer_head s =
     (if al_running s
      then check (is_empty_buffer (newBuffer1 s)) (Assertion 108)
             (check (is_empty_buffer (newBuffer2 s)) (Assertion 109)
               (check (buffersToWrite s = []) (Assertion 110)
                 (if full_buffers s \<noteq> [] then Inr (s\<lparr>writer := In_wait\<rparr>) else writer_swap s)))
      else rbind (log_flush (log_output s)) (\<lambda>f. Inr (s\<lparr>log_output := f, writer := Done\<rparr>)))"

definition dropMsg :: string where "dropMsg = ''Dropped log messages'' @ [CHR 0x0A]"

definition drop_many :: "async_log \<Rightarrow> async_log result" where
  "drop_many s =
     (if length (buffersToWrite s) > 25
      then rbind (log_append dropMsg (log_output s)) (\<lambda>f.
           Inr (s\<lparr>std_err := std_err s @ [dropMsg], log_output := f,
                  buffersToWrite := drop (length (buffersToWrite s) - 2) (buffersToWrite s)\<rparr>))
      else Inr s)"

text \<open>A new buffer from those just written, when the last one was given away.\<close>

definition take_back :: "nat \<Rightarrow> fixed_buffer option \<times> fixed_buffer list \<Rightarrow> (fixed_buffer option \<times> fixed_buffer list) result" where
  "take_back line = (\<lambda>(b, bs).
     if b = None then check (bs \<noteq> []) (Assertion line) (Inr (Some (fb_reset (last bs)), butlast bs))
     else Inr (b, bs))"

definition writer_write :: "async_log \<Rightarrow> async_log result" where
  "writer_write s =
     check (buffersToWrite s \<noteq> []) (Assertion 127)
       (rbind (drop_many s) (\<lambda>s.
        rbind (for_each (\<lambda>b. log_append (asString b)) (buffersToWrite s) (log_output s)) (\<lambda>f.
        rbind (take_back 151 (newBuffer1 s, take 2 (buffersToWrite s))) (\<lambda>(b1, bs).
        rbind (take_back 158 (newBuffer2 s, bs)) (\<lambda>(b2, bs).
        rbind (log_flush f) (\<lambda>f.
        Inr (s\<lparr>log_output := f, newBuffer1 := b1, newBuffer2 := b2, buffersToWrite := [], writer := Loop_head\<rparr>)))))))"

definition writer_step :: "async_log \<Rightarrow> async_log result" where
  "writer_step s = (case writer s of
      Not_begun \<Rightarrow> writer_begin s
    | Loop_head \<Rightarrow> writer_head s
    | In_wait \<Rightarrow> writer_swap s
    | Writing \<Rightarrow> writer_write s
    | Done \<Rightarrow> Inr s)"

section \<open>Runs\<close>

datatype log_event = Append string | Writer | Stop

definition log_do :: "log_event \<Rightarrow> async_log \<Rightarrow> async_log result" where
  "log_do e s = (case e of Append logline \<Rightarrow> al_append logline s | Writer \<Rightarrow> writer_step s | Stop \<Rightarrow> Inr (al_stop s))"

text \<open>Lines appended before \<open>start()\<close>, which returns when the thread has begun, then whatever happens.\<close>

definition log_run :: "string \<Rightarrow> nat \<Rightarrow> log_file \<Rightarrow> string list \<Rightarrow> log_event list \<Rightarrow> async_log result" where
  "log_run base limit env before events =
     rbind (for_each al_append before (new_AsyncLogging base limit env)) (\<lambda>s.
     rbind (writer_begin (al_start s)) (\<lambda>s. for_each log_do events s))"

section \<open>The invariant\<close>

definition large_buffer :: "fixed_buffer \<Rightarrow> bool" where
  "large_buffer b \<longleftrightarrow> fb_size b = kLargeBuffer \<and> fb_length b < kLargeBuffer"

definition writer_ok :: "async_log \<Rightarrow> bool" where
  "writer_ok s = (case writer s of
      Not_begun \<Rightarrow> buffersToWrite s = []
    | Writing \<Rightarrow> newBuffer1 s = None \<and> newBuffer2 s \<in> {None, Some new_large} \<and> buffersToWrite s \<noteq> []
        \<and> (newBuffer2 s = None \<longrightarrow> 2 \<le> length (buffersToWrite s))
    | Done \<Rightarrow> buffersToWrite s = []
    | _ \<Rightarrow> newBuffer1 s = Some new_large \<and> newBuffer2 s = Some new_large \<and> buffersToWrite s = [])"

definition al_ok :: "async_log \<Rightarrow> bool" where
  "al_ok s \<longleftrightarrow> large_buffer (currentBuffer s) \<and> nextBuffer s \<in> {None, Some new_large}
     \<and> (nextBuffer s = None \<longrightarrow> full_buffers s \<noteq> [])
     \<and> (\<forall>b \<in> set (full_buffers s) \<union> set (buffersToWrite s). large_buffer b)
     \<and> writer_ok s \<and> (writer s \<noteq> Not_begun \<longrightarrow> (\<exists>gs. holds_lines gs (log_output s)))"

text \<open>What is in the files, and what is in the buffers on its way to them.\<close>

definition in_files :: "async_log \<Rightarrow> string" where
  "in_files s = concat (map snd (files (log_output s)))"

definition in_buffers :: "async_log \<Rightarrow> string" where
  "in_buffers s = concat (map asString (buffersToWrite s @ full_buffers s @ [currentBuffer s]))"

lemma new_large: "large_buffer new_large" "asString new_large = []" "fb_length new_large = 0"
  "fb_avail new_large = kLargeBuffer"
  by (simp_all add: large_buffer_def new_large_def new_FixedBuffer_def fb_length_def fb_avail_def asString_def kLargeBuffer_def)

lemma large_append:
  assumes "large_buffer b" "int (length s) < fb_avail b"
  shows "\<exists>c. fb_append s (int (length s)) b = Inr c \<and> large_buffer c \<and> asString c = asString b @ s"
  using assms by (auto simp: fb_append_all large_buffer_def asString_def fb_avail_def fb_length_def)

lemma reset_large: "large_buffer b \<Longrightarrow> fb_reset b = new_large"
  by (simp add: fb_reset_def large_buffer_def new_large_def new_FixedBuffer_def)

section \<open>Steps keep the invariant\<close>

lemma al_append_ok:
  assumes ok: "al_ok s" and len: "int (length l) < kLargeBuffer"
  shows "\<exists>s'. al_append l s = Inr s' \<and> al_ok s' \<and> in_buffers s' = in_buffers s @ l \<and> log_output s' = log_output s
    \<and> std_err s' = std_err s \<and> writer s' = writer s \<and> al_running s' = al_running s"
proof (cases "fb_avail (currentBuffer s) > int (length l)")
  case True
  moreover have "large_buffer (currentBuffer s)" using ok by (simp add: al_ok_def)
  ultimately obtain c where "fb_append l (int (length l)) (currentBuffer s) = Inr c" "large_buffer c"
    "asString c = asString (currentBuffer s) @ l"
    using large_append by blast
  then show ?thesis
    using True ok by (intro exI[of _ "s\<lparr>currentBuffer := c\<rparr>"])
      (auto simp: al_append_def al_ok_def writer_ok_def in_buffers_def split: writer_pc.splits)
next
  case False
  obtain c where c: "fb_append l (int (length l)) new_large = Inr c" "large_buffer c" "asString c = l"
    using large_append[OF new_large(1), of l] len new_large by auto
  have "al_append l s = Inr (s\<lparr>full_buffers := full_buffers s @ [currentBuffer s], nextBuffer := None, currentBuffer := c\<rparr>)"
    using False ok c(1) by (auto simp: al_append_def al_ok_def Let_def split: option.splits)
  then show ?thesis
    using ok c(2,3) by (auto simp: al_ok_def writer_ok_def in_buffers_def split: writer_pc.splits)
qed

lemma al_append_fixed: "al_append l s = Inr s' \<Longrightarrow> al_basename s' = al_basename s \<and> al_rollSize s' = al_rollSize s"
  by (auto simp: al_append_def Let_def result_simps split: if_splits option.splits)

lemma writer_swap_ok:
  assumes ok: "al_ok s" and pc: "writer s = Loop_head \<or> writer s = In_wait"
  shows "\<exists>s'. writer_swap s = Inr s' \<and> al_ok s' \<and> in_buffers s' = in_buffers s \<and> log_output s' = log_output s
    \<and> std_err s' = std_err s \<and> writer s' = Writing \<and> al_running s' = al_running s"
proof -
  have w: "newBuffer1 s = Some new_large" "newBuffer2 s = Some new_large" "buffersToWrite s = []"
    using ok pc by (auto simp: al_ok_def writer_ok_def)
  have "length (full_buffers s) \<noteq> 0" if "nextBuffer s = None" using ok that by (simp add: al_ok_def)
  then show ?thesis
    using ok pc w new_large by (auto simp: writer_swap_def Let_def al_ok_def writer_ok_def in_buffers_def Suc_le_eq)
qed

lemma in_files_lines:
  assumes "holds_lines gs (log_output s)"
  shows "in_files s = concat (concat gs)"
proof -
  have "concat (map concat xs) = concat (concat xs)" for xs :: "string list list" by (induction xs) simp_all
  then show ?thesis using assms by (simp add: in_files_def holds_lines_def)
qed

lemma log_flush_holds: "holds_lines gs f \<Longrightarrow> \<exists>g. log_flush f = Inr g \<and> holds_lines gs g"
  by (auto simp: log_flush_def file_flush_def holds_lines_def)

text \<open>What the writing starts from: all the buffers, or the message and the last two of them.\<close>

lemma drop_many_ok:
  assumes "holds_lines gs (log_output s)" "buffersToWrite s \<noteq> []"
  shows "\<exists>f gs' bs. drop_many s = Inr (s\<lparr>log_output := f, buffersToWrite := bs, std_err := (if length (buffersToWrite s) > 25
        then std_err s @ [dropMsg] else std_err s)\<rparr>)
    \<and> holds_lines gs' f \<and> bs \<noteq> [] \<and> set bs \<subseteq> set (buffersToWrite s) \<and> (2 \<le> length (buffersToWrite s) \<longrightarrow> 2 \<le> length bs)
    \<and> (length (buffersToWrite s) \<le> 25 \<longrightarrow> f = log_output s \<and> gs' = gs \<and> bs = buffersToWrite s)"
proof (cases "length (buffersToWrite s) > 25")
  case True
  obtain f gs' where "log_append dropMsg (log_output s) = Inr f" "holds_lines gs' f"
    using log_append_holds[OF assms(1), of dropMsg] by blast
  then show ?thesis
    using True by (intro exI[of _ f] exI[of _ gs'] exI[of _ "drop (length (buffersToWrite s) - 2) (buffersToWrite s)"])
      (auto simp: drop_many_def dest: in_set_dropD)
next
  case False
  then show ?thesis using assms
    by (intro exI[of _ "log_output s"] exI[of _ gs] exI[of _ "buffersToWrite s"]) (auto simp: drop_many_def)
qed

text \<open>The two buffers that were given away are taken back from those written.\<close>

lemma take_back_ok:
  assumes "\<forall>b \<in> set bs. large_buffer b" "b2 \<in> {None, Some new_large}" "bs \<noteq> []" "b2 = None \<longrightarrow> 2 \<le> length bs"
  shows "\<exists>bs1 bs2. take_back 151 (None, take 2 bs) = Inr (Some new_large, bs1) \<and> take_back 158 (b2, bs1) = Inr (Some new_large, bs2)"
proof -
  obtain x xs where bs: "bs = x # xs" using assms(3) by (cases bs) auto
  show ?thesis
    using assms by (cases xs) (auto simp: bs take_back_def reset_large)
qed

lemma writer_write_ok:
  assumes ok: "al_ok s" and pc: "writer s = Writing"
  shows "\<exists>s'. writer_write s = Inr s' \<and> al_ok s' \<and> writer s' = Loop_head \<and> al_running s' = al_running s
    \<and> (length (buffersToWrite s) \<le> 25 \<longrightarrow> std_err s' = std_err s \<and> in_files s' @ in_buffers s' = in_files s @ in_buffers s)
    \<and> (25 < length (buffersToWrite s) \<longrightarrow> std_err s' = std_err s @ [dropMsg])"
proof -
  have w: "newBuffer1 s = None" "newBuffer2 s \<in> {None, Some new_large}" "buffersToWrite s \<noteq> []"
    "newBuffer2 s = None \<longrightarrow> 2 \<le> length (buffersToWrite s)" "\<forall>b \<in> set (buffersToWrite s). large_buffer b"
    using ok pc by (auto simp: al_ok_def writer_ok_def)
  obtain gs where gs: "holds_lines gs (log_output s)" using ok pc by (auto simp: al_ok_def)
  define e where "e = (if length (buffersToWrite s) > 25 then std_err s @ [dropMsg] else std_err s)"
  from drop_many_ok[OF gs w(3), folded e_def] obtain f gs1 bs where
    d: "drop_many s = Inr (s\<lparr>log_output := f, buffersToWrite := bs, std_err := e\<rparr>)" "holds_lines gs1 f" "bs \<noteq> []"
      "set bs \<subseteq> set (buffersToWrite s)" "2 \<le> length (buffersToWrite s) \<longrightarrow> 2 \<le> length bs"
      "length (buffersToWrite s) \<le> 25 \<longrightarrow> f = log_output s \<and> gs1 = gs \<and> bs = buffersToWrite s"
    by blast
  from log_appends_hold[OF d(2), of "map asString bs"] obtain f2 gs2 where
    a: "for_each log_append (map asString bs) f = Inr f2" "holds_lines gs2 f2" "concat gs2 = concat gs1 @ map asString bs"
    by blast
  have a': "for_each (\<lambda>b. log_append (asString b)) bs f = Inr f2" using a(1) by (simp add: for_each_map)
  from take_back_ok[of bs "newBuffer2 s"] w d(3-5) obtain bs1 bs2 where
    t: "take_back 151 (None, take 2 bs) = Inr (Some new_large, bs1)" "take_back 158 (newBuffer2 s, bs1) = Inr (Some new_large, bs2)"
    by blast
  from log_flush_holds[OF a(2)] obtain f3 where f3: "log_flush f2 = Inr f3" "holds_lines gs2 f3" by blast
  define s' where "s' = s\<lparr>log_output := f3, newBuffer1 := Some new_large, newBuffer2 := Some new_large,
    buffersToWrite := [], std_err := e, writer := Loop_head\<rparr>"
  have "writer_write s = Inr s'"
    unfolding writer_write_def s'_def using w(1,3) d(1) a' t f3(1) by simp
  moreover have "al_ok s'" using ok f3(2) by (auto simp: s'_def al_ok_def writer_ok_def)
  moreover have "in_files s' @ in_buffers s' = in_files s @ in_buffers s" if "length (buffersToWrite s) \<le> 25"
    using that d(6) a(3) gs f3(2) by (simp add: in_files_lines in_buffers_def s'_def)
  ultimately show ?thesis by (auto simp: s'_def e_def)
qed

lemma writer_begin_ok:
  assumes ok: "al_ok s" and pc: "writer s = Not_begun" "al_running s" "std_err s = []"
    and env: "CHR ''/'' \<notin> set (al_basename s)" "clocks (log_output s) = t # ts" "0 < t" "0 \<notin> set (fwrites (log_output s))"
  shows "\<exists>s'. writer_begin s = Inr s' \<and> al_ok s' \<and> writer s' = Loop_head \<and> al_running s' \<and> std_err s' = []
    \<and> in_files s' = [] \<and> in_buffers s' = in_buffers s"
proof -
  define f where "f = \<lparr>basename = al_basename s, rollSize = al_rollSize s, flushInterval = 3, count = 0, startOfPeriod = 0,
    lastRoll = 0, lastFlush = 0, writtenBytes = None, files = [], unflushed = False, clocks = t # ts,
    fwrites = fwrites (log_output s), pid = pid (log_output s)\<rparr>"
  have "holds_lines [[]] (rollFile f)"
    using env rollFile_cases[of f] by (auto simp: holds_lines_def f_def sys_time_def split: list.splits)
  moreover from this have "concat (map snd (files (rollFile f))) = []" by (simp add: holds_lines_def)
  moreover have "buffersToWrite s = []" using ok pc by (simp add: al_ok_def writer_ok_def)
  moreover have "writer_begin s = Inr (s\<lparr>log_output := rollFile f, newBuffer1 := Some new_large, newBuffer2 := Some new_large,
      buffersToWrite := [], writer := Loop_head\<rparr>)"
    using env pc by (simp add: writer_begin_def new_LogFile_def Let_def f_def)
  ultimately show ?thesis using ok pc by (auto simp: al_ok_def writer_ok_def in_files_def in_buffers_def)
qed

text \<open>Everything appended, written or not.\<close>

definition all_text :: "async_log \<Rightarrow> string" where
  "all_text s = in_files s @ in_buffers s"

definition writer_rank :: "async_log \<Rightarrow> nat" where
  "writer_rank s = (case writer s of In_wait \<Rightarrow> 3 | Writing \<Rightarrow> 2 | Loop_head \<Rightarrow> 1 | _ \<Rightarrow> 0)"

lemma writer_head_ok:
  assumes ok: "al_ok s" and pc: "writer s = Loop_head"
  shows "\<exists>s'. writer_head s = Inr s' \<and> al_ok s' \<and> writer s' \<noteq> Not_begun \<and> al_running s' = al_running s \<and> std_err s' = std_err s
    \<and> all_text s' = all_text s \<and> in_files s' = in_files s \<and> (\<not> al_running s \<longrightarrow> writer s' = Done)"
proof -
  have w: "is_empty_buffer (newBuffer1 s)" "is_empty_buffer (newBuffer2 s)" "buffersToWrite s = []"
    using ok pc by (auto simp: al_ok_def writer_ok_def is_empty_buffer_def new_large)
  show ?thesis
  proof (cases "al_running s")
    case True
    show ?thesis
    proof (cases "full_buffers s = []")
      case False
      then show ?thesis
        using True ok pc w by (auto simp: writer_head_def al_ok_def writer_ok_def all_text_def in_files_def in_buffers_def)
    next
      case e: True
      then show ?thesis
        using True pc w writer_swap_ok[OF ok] by (auto simp: writer_head_def all_text_def in_files_def)
    qed
  next
    case False
    obtain gs where gs: "holds_lines gs (log_output s)" using ok pc by (auto simp: al_ok_def)
    from log_flush_holds[OF this] obtain f where f: "log_flush (log_output s) = Inr f" "holds_lines gs f" by blast
    have "in_files (s\<lparr>log_output := f, writer := Done\<rparr>) = in_files s"
      using gs f(2) by (simp add: in_files_lines)
    moreover have "al_ok (s\<lparr>log_output := f, writer := Done\<rparr>)"
      using ok f(2) w by (auto simp: al_ok_def writer_ok_def)
    ultimately show ?thesis using False f(1) by (auto simp: writer_head_def all_text_def in_buffers_def)
  qed
qed

text \<open>A step of the logging thread once it has begun.\<close>

lemma writer_step_ok:
  assumes ok: "al_ok s" and pc: "writer s \<noteq> Not_begun"
  shows "\<exists>s'. writer_step s = Inr s' \<and> al_ok s' \<and> writer s' \<noteq> Not_begun \<and> al_running s' = al_running s
    \<and> (std_err s' = [] \<longrightarrow> std_err s = [] \<and> all_text s' = all_text s)
    \<and> (\<not> al_running s \<longrightarrow> writer_rank s' \<le> writer_rank s - 1)"
proof (cases "writer s")
  case Loop_head
  then show ?thesis using writer_head_ok[OF ok] by (auto simp: writer_step_def writer_rank_def)
next
  case In_wait
  then show ?thesis
    using writer_swap_ok[OF ok] by (auto simp: writer_step_def all_text_def in_files_def writer_rank_def)
next
  case Writing
  then show ?thesis
    using writer_write_ok[OF ok] by (cases "25 < length (buffersToWrite s)") (auto simp: writer_step_def all_text_def writer_rank_def)
qed (use assms in \<open>auto simp: writer_step_def writer_rank_def\<close>)

definition line_of :: "log_event \<Rightarrow> string list" where
  "line_of e = (case e of Append l \<Rightarrow> [l] | _ \<Rightarrow> [])"

definition lines_of :: "log_event list \<Rightarrow> string list" where
  "lines_of es = concat (map line_of es)"

definition short_line :: "string \<Rightarrow> bool" where
  "short_line l \<longleftrightarrow> int (length l) < kLargeBuffer"

definition logging_ok :: "async_log \<Rightarrow> bool" where
  "logging_ok s \<longleftrightarrow> al_ok s \<and> writer s \<noteq> Not_begun"

lemma lines_of_simps [simp]:
  "lines_of [] = []" "lines_of (e # es) = line_of e @ lines_of es" "lines_of (es @ fs) = lines_of es @ lines_of fs"
  "line_of (Append l) = [l]" "line_of Writer = []" "line_of Stop = []"
  by (simp_all add: lines_of_def line_of_def)

lemma log_do_ok:
  assumes s: "logging_ok s" and short: "list_all short_line (line_of e)"
  shows "\<exists>s'. log_do e s = Inr s' \<and> logging_ok s' \<and> (std_err s' = [] \<longrightarrow> std_err s = [] \<and> all_text s' = all_text s @ concat (line_of e))
    \<and> (\<not> al_running s \<longrightarrow> \<not> al_running s' \<and> writer_rank s' \<le> writer_rank s - count_list [e] Writer)"
proof (cases e)
  case (Append l)
  then show ?thesis
    using s short al_append_ok[of s l] by (auto simp: log_do_def logging_ok_def short_line_def all_text_def in_files_def writer_rank_def)
next
  case Writer
  then show ?thesis using s writer_step_ok[of s] by (auto simp: log_do_def logging_ok_def)
next
  case Stop
  then show ?thesis
    using s by (auto simp: log_do_def al_stop_def logging_ok_def al_ok_def writer_ok_def all_text_def in_files_def in_buffers_def writer_rank_def
        split: writer_pc.splits)
qed

lemma log_events_ok:
  "logging_ok s \<Longrightarrow> list_all short_line (lines_of es) \<Longrightarrow> \<exists>s'. for_each log_do es s = Inr s' \<and> logging_ok s'
    \<and> (std_err s' = [] \<longrightarrow> std_err s = [] \<and> all_text s' = all_text s @ concat (lines_of es))
    \<and> (\<not> al_running s \<longrightarrow> \<not> al_running s' \<and> writer_rank s' \<le> writer_rank s - count_list es Writer)"
proof (induction es arbitrary: s)
  case (Cons e es)
  from Cons.prems log_do_ok[of s e] obtain s1 where s1: "log_do e s = Inr s1" "logging_ok s1"
    "std_err s1 = [] \<longrightarrow> std_err s = [] \<and> all_text s1 = all_text s @ concat (line_of e)"
    "\<not> al_running s \<longrightarrow> \<not> al_running s1 \<and> writer_rank s1 \<le> writer_rank s - count_list [e] Writer"
    by auto
  show ?case using Cons.IH[OF s1(2)] Cons.prems(2) s1 by fastforce
qed simp

lemma al_appends_ok:
  "al_ok s \<Longrightarrow> list_all short_line ls \<Longrightarrow> \<exists>s'. for_each al_append ls s = Inr s' \<and> al_ok s'
    \<and> in_buffers s' = in_buffers s @ concat ls \<and> log_output s' = log_output s \<and> std_err s' = std_err s
    \<and> writer s' = writer s \<and> al_rollSize s' = al_rollSize s \<and> al_basename s' = al_basename s"
proof (induction ls arbitrary: s)
  case (Cons l ls)
  then obtain s1 where s1: "al_append l s = Inr s1" "al_ok s1" "in_buffers s1 = in_buffers s @ l" "log_output s1 = log_output s"
    "std_err s1 = std_err s" "writer s1 = writer s" "al_basename s1 = al_basename s" "al_rollSize s1 = al_rollSize s"
    using al_append_ok[of s l] al_append_fixed[of l s] by (auto simp: short_line_def)
  show ?case using Cons.IH[OF s1(2)] Cons.prems(2) s1 by auto
qed simp

lemma log_start_ok:
  assumes env: "CHR ''/'' \<notin> set base" "clocks env = t # ts" "0 < t" "0 \<notin> set (fwrites env)"
    and short: "list_all short_line before"
  shows "\<exists>s. rbind (for_each al_append before (new_AsyncLogging base limit env)) (\<lambda>s. writer_begin (al_start s)) = Inr s
    \<and> logging_ok s \<and> writer s = Loop_head \<and> al_running s \<and> std_err s = [] \<and> all_text s = concat before \<and> in_files s = []"
proof -
  have n: "al_ok (new_AsyncLogging base limit env)" "in_buffers (new_AsyncLogging base limit env) = []"
    by (simp_all add: new_AsyncLogging_def al_ok_def writer_ok_def in_buffers_def new_large)
  from al_appends_ok[OF n(1) short] obtain s where s: "for_each al_append before (new_AsyncLogging base limit env) = Inr s"
    "al_ok s" "in_buffers s = concat before" "log_output s = env" "std_err s = []" "writer s = Not_begun" "al_basename s = base"
    using n(2) by (auto simp: new_AsyncLogging_def)
  have "al_ok (al_start s)" "in_buffers (al_start s) = in_buffers s"
    using s(2,6) by (simp_all add: al_start_def al_ok_def writer_ok_def in_buffers_def)
  then show ?thesis
    using writer_begin_ok[of "al_start s" t ts] s env by (auto simp: al_start_def logging_ok_def all_text_def)
qed

lemma logging_stop: "logging_ok s \<Longrightarrow> logging_ok (al_stop s) \<and> \<not> al_running (al_stop s)"
  by (simp add: logging_ok_def al_ok_def writer_ok_def al_stop_def cong: writer_pc.case_cong)

lemma log_run_start:
  "log_run base limit env before events =
     rbind (rbind (for_each al_append before (new_AsyncLogging base limit env)) (\<lambda>s. writer_begin (al_start s))) (for_each log_do events)"
  by (simp add: log_run_def rbind_assoc)

lemma log_run_app: "log_run base limit env before (es @ fs) = rbind (log_run base limit env before es) (for_each log_do fs)"
  by (cases "rbind (for_each al_append before (new_AsyncLogging base limit env)) (\<lambda>s. writer_begin (al_start s))")
    (simp_all add: log_run_start for_each_append)

lemma log_run_ok:
  assumes "CHR ''/'' \<notin> set base" "clocks env = t # ts" "0 < t" "0 \<notin> set (fwrites env)"
    and "list_all short_line (before @ lines_of events)"
  shows "\<exists>s. log_run base limit env before events = Inr s \<and> logging_ok s
    \<and> (std_err s = [] \<longrightarrow> all_text s = concat (before @ lines_of events))"
proof -
  have short: "list_all short_line before" "list_all short_line (lines_of events)" using assms(5) by simp_all
  from log_start_ok[OF assms(1-4) short(1), of limit] obtain s where s:
    "rbind (for_each al_append before (new_AsyncLogging base limit env)) (\<lambda>s. writer_begin (al_start s)) = Inr s" "logging_ok s"
    "all_text s = concat before" by blast
  then show ?thesis using log_events_ok[OF s(2) short(2)] by (auto simp: log_run_start)
qed

text \<open>The thread has left its loop, or will at its next step.\<close>

definition writer_ends :: "async_log \<Rightarrow> bool" where
  "writer_ends s \<longleftrightarrow> \<not> al_running s \<and> (writer s = Done \<or> writer s = Loop_head)"

lemma al_append_same: "al_append l s = Inr s' \<Longrightarrow> log_output s' = log_output s \<and> writer s' = writer s \<and> al_running s' = al_running s"
  by (auto simp: al_append_def Let_def result_simps split: if_splits option.splits)

lemma log_do_ends:
  assumes "writer_ends s" "log_do e s = Inr s'"
  shows "writer_ends s' \<and> in_files s' = in_files s \<and> (writer s = Done \<longrightarrow> writer s' = Done \<and> log_output s' = log_output s)"
proof (cases e)
  case (Append l)
  then have "al_append l s = Inr s'" using assms(2) by (simp add: log_do_def)
  from al_append_same[OF this] show ?thesis using assms(1) by (simp add: writer_ends_def in_files_def)
next
  case Writer
  then have "writer_step s = Inr s'" using assms(2) by (simp add: log_do_def)
  then show ?thesis
    using assms(1) by (auto simp: writer_ends_def writer_step_def writer_head_def in_files_def log_flush_def file_flush_def result_simps)
next
  case Stop
  then have "s' = al_stop s" using assms(2) by (simp add: log_do_def)
  then show ?thesis using assms(1) by (simp add: writer_ends_def in_files_def al_stop_def)
qed

lemma log_events_end:
  "writer_ends s \<Longrightarrow> for_each log_do es s = Inr s' \<Longrightarrow>
    writer_ends s' \<and> in_files s' = in_files s \<and> (writer s = Done \<longrightarrow> writer s' = Done \<and> log_output s' = log_output s)"
proof (induction es arbitrary: s)
  case (Cons e es)
  then obtain s1 where "log_do e s = Inr s1" "for_each log_do es s1 = Inr s'" by (auto simp: result_simps)
  then show ?case using Cons.IH[of s1] log_do_ends[OF Cons.prems(1)] by auto
qed simp

section \<open>Properties\<close>

text \<open>C17: The asynchronous logger keeps the order and the content of what it is given. Whatever the
  interleaving of the threads that append with the steps of the logging thread, none of its assertions
  fails, no buffer is used after it was given away, and as long as it has not said on the standard
  error that it dropped messages, the files followed by the buffers on their way to them hold
  exactly the lines appended, in order. Lines are shorter than a buffer, the file takes at least
  one byte at a time.\<close>

theorem async_log_keeps_lines:
  assumes "CHR ''/'' \<notin> set base" "clocks env = t # ts" "0 < t" "0 \<notin> set (fwrites env)"
    and "list_all short_line (before @ lines_of events)"
  shows "\<exists>s. log_run base limit env before events = Inr s
    \<and> (std_err s = [] \<longrightarrow> in_files s @ in_buffers s = concat (before @ lines_of events))"
  using log_run_ok[OF assms] unfolding all_text_def by blast

text \<open>C18: The logging thread ends after \<open>stop()\<close>: wherever it was, three more of its steps take it
  out of its loop, so \<open>stop()\<close>, which joins it, returns; and nothing is written from then on.\<close>

theorem async_stop_ends:
  assumes env: "CHR ''/'' \<notin> set base" "clocks env = t # ts" "0 < t" "0 \<notin> set (fwrites env)"
    and short: "list_all short_line (before @ lines_of (events @ later @ rest))"
    and steps: "3 \<le> count_list later Writer"
  shows "\<exists>s s'. log_run base limit env before (events @ Stop # later) = Inr s \<and> writer s = Done
    \<and> log_run base limit env before ((events @ Stop # later) @ rest) = Inr s' \<and> writer s' = Done \<and> log_output s' = log_output s"
proof -
  obtain s0 where s0: "log_run base limit env before (events @ [Stop]) = Inr s0" "logging_ok s0" "\<not> al_running s0"
    using log_run_ok[OF env, of before events limit] short logging_stop by (auto simp: log_run_app log_do_def)
  obtain s where s: "for_each log_do later s0 = Inr s" "logging_ok s" "\<not> al_running s" "writer_rank s \<le> writer_rank s0 - count_list later Writer"
    using log_events_ok[OF s0(2), of later] short s0(3) by auto
  have "writer_rank s = 0" using s(4) steps by (auto simp: writer_rank_def split: writer_pc.splits)
  then have "writer s = Done" using s(2) by (auto simp: writer_rank_def logging_ok_def split: writer_pc.splits)
  moreover have run: "log_run base limit env before (events @ Stop # later) = Inr s"
    using log_run_app[of base limit env before "events @ [Stop]" later] s0(1) s(1) by simp
  moreover obtain s' where s': "for_each log_do rest s = Inr s'" using log_events_ok[OF s(2), of rest] short by auto
  moreover have "log_run base limit env before ((events @ Stop # later) @ rest) = Inr s'"
    using run s' by (simp only: log_run_app[of _ _ _ _ _ rest] rbind.simps)
  moreover have "writer_ends s" using s(3) \<open>writer s = Done\<close> by (simp add: writer_ends_def)
  ultimately show ?thesis using log_events_end[of s rest s'] by auto
qed

text \<open>C29: What is appended after the last swap is lost. When \<open>stop()\<close> is called while the
  logging thread is about to test its loop condition, it leaves without taking the buffers over:
  nothing more reaches the files, whatever was in the buffers and whatever is appended later.\<close>

theorem async_stop_loses_buffers:
  assumes "log_run base limit env before events = Inr s" "writer s = Loop_head"
    and "log_run base limit env before (events @ Stop # later) = Inr s'"
  shows "in_files s' = in_files s"
proof -
  have "for_each log_do later (al_stop s) = Inr s'" using assms(1,3) by (simp add: log_run_app log_do_def)
  moreover have "writer_ends (al_stop s)" using assms(2) by (simp add: writer_ends_def al_stop_def)
  ultimately show ?thesis using log_events_end by (fastforce simp: al_stop_def in_files_def)
qed

section \<open>Witnesses\<close>

text \<open>A clock and short writes.\<close>

definition sample_env :: log_file where
  "sample_env = \<lparr>basename = [], rollSize = 0, flushInterval = 0, count = 0, startOfPeriod = 0, lastRoll = 0, lastFlush = 0,
     writtenBytes = None, files = [], unflushed = False, clocks = [100, 200], fwrites = [2, 1], pid = 7\<rparr>"

lemma sample_env: "CHR ''/'' \<notin> set ''server''" "clocks sample_env = 100 # [200]" "(0::int) < 100" "0 \<notin> set (fwrites sample_env)"
  by (simp_all add: sample_env_def)

lemma short_lines: "short_line ''first'' \<and> short_line ''second''"
  by (simp add: short_line_def kLargeBuffer_def)

theorem async_log_keeps_lines_witness:
  "\<exists>s. log_run ''server'' 10 sample_env [''first''] [Writer, Append ''second'', Writer, Writer] = Inr s
    \<and> (std_err s = [] \<longrightarrow> in_files s @ in_buffers s = ''firstsecond'')"
  using async_log_keeps_lines[OF sample_env, of "[''first'']" "[Writer, Append ''second'', Writer, Writer]" 10] short_lines by simp

theorem async_stop_ends_witness:
  "\<exists>s s'. log_run ''server'' 10 sample_env [''first''] ([Writer] @ Stop # [Writer, Writer, Writer]) = Inr s \<and> writer s = Done
    \<and> log_run ''server'' 10 sample_env [''first''] (([Writer] @ Stop # [Writer, Writer, Writer]) @ [Append ''second'']) = Inr s'
    \<and> writer s' = Done \<and> log_output s' = log_output s"
proof -
  have "list_all short_line ([''first''] @ lines_of ([Writer] @ [Writer, Writer, Writer] @ [Append ''second'']))"
    "3 \<le> count_list [Writer, Writer, Writer] Writer"
    using short_lines by simp_all
  from async_stop_ends[OF sample_env this] show ?thesis .
qed

theorem async_stop_loses_buffers_witness:
  "\<exists>s s'. log_run ''server'' 10 sample_env [] [Append ''first''] = Inr s \<and> in_buffers s = ''first''
    \<and> log_run ''server'' 10 sample_env [] ([Append ''first''] @ Stop # [Writer]) = Inr s' \<and> writer s' = Done \<and> in_files s' = []"
proof -
  obtain s0 where s0: "log_run ''server'' 10 sample_env [] [] = Inr s0" "al_ok s0" "writer s0 = Loop_head" "al_running s0"
    "all_text s0 = []" "in_files s0 = []"
    using log_start_ok[OF sample_env, of "[]" 10] by (auto simp: log_run_start logging_ok_def)
  obtain s where s: "al_append ''first'' s0 = Inr s" "al_ok s" "in_buffers s = in_buffers s0 @ ''first''" "log_output s = log_output s0"
    "writer s = writer s0" "al_running s = al_running s0"
    using al_append_ok[OF s0(2), of "''first''"] short_lines by (auto simp: short_line_def)
  have run: "log_run ''server'' 10 sample_env [] [Append ''first''] = Inr s"
    using s0(1) s(1) log_run_app[of _ _ _ _ "[]" "[Append ''first'']"] by (simp add: log_do_def)
  have "al_ok (al_stop s)" "writer (al_stop s) = Loop_head" "\<not> al_running (al_stop s)"
    using s(2,5) s0(3) by (simp_all add: al_stop_def al_ok_def writer_ok_def)
  from writer_head_ok[OF this(1,2)] this obtain s' where s': "writer_head (al_stop s) = Inr s'" "writer s' = Done" by auto
  have stopped: "log_run ''server'' 10 sample_env [] ([Append ''first''] @ Stop # [Writer]) = Inr s'"
    using run s' s(5) s0(3) by (simp add: log_run_app[of _ _ _ _ "[Append ''first'']" "[Stop, Writer]", simplified] log_do_def writer_step_def al_stop_def)
  have "writer s = Loop_head" "in_files s = []" "in_buffers s = ''first''"
    using s(3-5) s0(3,5,6) by (simp_all add: all_text_def in_files_def)
  with async_stop_loses_buffers[OF run _ stopped] run stopped s'(2) show ?thesis by auto
qed

end
