(* ===== verification/Queue_Logging.thy ===== *)
theory Queue_Logging
  imports Log_Files Blocking_Queues
begin

text \<open>
  The asynchronous logger on a blocking queue: src/base/logging/AsyncLoggingQueue.h. \<open>AsyncLoggingT\<close> is a
  template over the type of the messages and the queue. What it needs of a message is a record of
  functions, given for \<open>string\<close> and for \<open>LogMessage\<close>; of the queue it uses the steps that the methods of
  \<open>Blocking_Queues\<close> have been shown to make, where a thread that has to wait makes none.
\<close>

section \<open>Messages\<close>

record 'm message_ops =
  msg_new :: "string \<Rightarrow> 'm result"
  msg_default :: 'm
  msg_copy :: "'m \<Rightarrow> 'm result"
  msg_empty :: "'m \<Rightarrow> bool"
  msg_text :: "'m \<Rightarrow> string"

definition string_ops :: "string message_ops" where
  "string_ops = \<lparr>msg_new = Inr, msg_default = [], msg_copy = Inr, msg_empty = (\<lambda>m. m = []), msg_text = (\<lambda>m. m)\<rparr>"

text \<open>\<open>data_\<close> up to what has been copied into it.\<close>

record log_message =
  lm_data :: string
  lm_length :: nat

definition sizeof_data :: nat where "sizeof_data = 4000"

definition new_LogMessage :: "string \<Rightarrow> nat \<Rightarrow> log_message result" where
  "new_LogMessage msg len = check (len \<le> sizeof_data) (Assertion 115) (Inr \<lparr>lm_data = take len msg, lm_length = len\<rparr>)"

definition default_LogMessage :: log_message where
  "default_LogMessage = \<lparr>lm_data = [], lm_length = 0\<rparr>"

definition copy_LogMessage :: "log_message \<Rightarrow> log_message result" where
  "copy_LogMessage rhs =
     check (lm_length rhs \<le> sizeof_data) (Assertion 127) (Inr \<lparr>lm_data = take (lm_length rhs) (lm_data rhs), lm_length = lm_length rhs\<rparr>)"

definition lm_empty :: "log_message \<Rightarrow> bool" where
  "lm_empty m \<longleftrightarrow> lm_length m = 0"

definition LogMessage_ops :: "log_message message_ops" where
  "LogMessage_ops = \<lparr>msg_new = (\<lambda>s. new_LogMessage s (length s)), msg_default = default_LogMessage, msg_copy = copy_LogMessage,
     msg_empty = lm_empty, msg_text = (\<lambda>m. take (lm_length m) (lm_data m))\<rparr>"

section \<open>AsyncLoggingT\<close>

datatype queue_writer = Idle | Looping | Ended

record 'm queue_log =
  ql_running :: bool
  ql_basename :: string
  ql_rollSize :: nat
  ql_queue :: "'m list"
  ql_writer :: queue_writer
  ql_output :: log_file

text \<open>The last argument is the clock, the answers of \<open>fwrite\<close> and the process number.\<close>

definition new_AsyncLoggingT :: "string \<Rightarrow> nat \<Rightarrow> log_file \<Rightarrow> 'm queue_log" where
  "new_AsyncLoggingT base limit env =
     \<lparr>ql_running = False, ql_basename = base, ql_rollSize = limit, ql_queue = [], ql_writer = Idle, ql_output = env\<rparr>"

text \<open>A result of \<open>None\<close>: the thread waits.\<close>

definition queue_put :: "'m message_ops \<Rightarrow> nat option \<Rightarrow> 'm \<Rightarrow> 'm queue_log \<Rightarrow> 'm queue_log result option" where
  "queue_put ops cap m s =
     (if room_left cap (ql_queue s) then Some (rbind (msg_copy ops m) (\<lambda>m. Inr (s\<lparr>ql_queue := ql_queue s @ [m]\<rparr>))) else None)"

definition ql_append :: "'m message_ops \<Rightarrow> nat option \<Rightarrow> string \<Rightarrow> 'm queue_log \<Rightarrow> 'm queue_log result option" where
  "ql_append ops cap logline s =
     (case msg_new ops logline of Inl e \<Rightarrow> Some (Inl e) | Inr m \<Rightarrow> queue_put ops cap m s)"

definition ql_start :: "'m queue_log \<Rightarrow> 'm queue_log" where
  "ql_start s = s\<lparr>ql_running := True\<rparr>"

definition ql_begin :: "'m queue_log \<Rightarrow> 'm queue_log result" where
  "ql_begin s =
     check (ql_running s) (Assertion 80)
       (let env = ql_output s
        in rbind (new_LogFile (ql_basename s) (ql_rollSize s) 3 (clocks env) (fwrites env) (pid env)) (\<lambda>f.
           Inr (s\<lparr>ql_output := snd (sys_time f), ql_writer := Looping\<rparr>)))"

definition ql_turn :: "'m message_ops \<Rightarrow> 'm queue_log \<Rightarrow> 'm queue_log result option" where
  "ql_turn ops s =
     (if ql_writer s \<noteq> Looping then Some (Inr s)
      else case ql_queue s of
        [] \<Rightarrow> None
      | m # ms \<Rightarrow> Some (rbind (msg_copy ops m) (\<lambda>msg.
          let s = s\<lparr>ql_queue := ms\<rparr>
          in if msg_empty ops msg
             then check (\<not> ql_running s) (Assertion 89)
                    (rbind (log_flush (ql_output s)) (\<lambda>f. Inr (s\<lparr>ql_output := f, ql_writer := Ended\<rparr>)))
             else rbind (log_append (msg_text ops msg) (ql_output s)) (\<lambda>f. Inr (s\<lparr>ql_output := f\<rparr>)))))"

definition ql_stop_flag :: "'m queue_log \<Rightarrow> 'm queue_log" where
  "ql_stop_flag s = s\<lparr>ql_running := False\<rparr>"

definition ql_stop_put :: "'m message_ops \<Rightarrow> nat option \<Rightarrow> 'm queue_log \<Rightarrow> 'm queue_log result option" where
  "ql_stop_put ops cap s = queue_put ops cap (msg_default ops) s"

section \<open>Runs\<close>

datatype queue_event = QAppend string | QTurn | QStop_flag | QStop_put

definition ql_do :: "'m message_ops \<Rightarrow> nat option \<Rightarrow> queue_event \<Rightarrow> 'm queue_log \<Rightarrow> 'm queue_log result option" where
  "ql_do ops cap e s = (case e of
      QAppend l \<Rightarrow> ql_append ops cap l s
    | QTurn \<Rightarrow> ql_turn ops s
    | QStop_flag \<Rightarrow> Some (Inr (ql_stop_flag s))
    | QStop_put \<Rightarrow> ql_stop_put ops cap s)"

fun ql_events :: "'m message_ops \<Rightarrow> nat option \<Rightarrow> queue_event list \<Rightarrow> 'm queue_log \<Rightarrow> 'm queue_log result option" where
  "ql_events ops cap [] s = Some (Inr s)"
| "ql_events ops cap (e # es) s = (case ql_do ops cap e s of
      None \<Rightarrow> None
    | Some (Inl f) \<Rightarrow> Some (Inl f)
    | Some (Inr s) \<Rightarrow> ql_events ops cap es s)"

definition ql_run :: "'m message_ops \<Rightarrow> nat option \<Rightarrow> string \<Rightarrow> nat \<Rightarrow> log_file \<Rightarrow> queue_event list \<Rightarrow> 'm queue_log result option" where
  "ql_run ops cap base limit env es =
     (case ql_begin (ql_start (new_AsyncLoggingT base limit env)) of
        Inl f \<Rightarrow> Some (Inl f)
      | Inr s \<Rightarrow> ql_events ops cap es s)"

section \<open>What a message promises\<close>

locale message =
  fixes ops :: "'m message_ops" and fine :: "'m \<Rightarrow> bool" and fits :: "string \<Rightarrow> bool"
  assumes new: "fits l \<Longrightarrow> \<exists>m. msg_new ops l = Inr m \<and> fine m \<and> msg_text ops m = l"
    and copy: "fine m \<Longrightarrow> msg_copy ops m = Inr m"
    and default: "fine (msg_default ops)" "msg_text ops (msg_default ops) = []"
    and empty: "fine m \<Longrightarrow> msg_empty ops m \<longleftrightarrow> msg_text ops m = []"

definition fine_LogMessage :: "log_message \<Rightarrow> bool" where
  "fine_LogMessage m \<longleftrightarrow> length (lm_data m) = lm_length m \<and> lm_length m \<le> sizeof_data"

interpretation str: message string_ops "\<lambda>m. True" "\<lambda>l. True"
  by unfold_locales (simp_all add: string_ops_def)

interpretation lm: message LogMessage_ops fine_LogMessage "\<lambda>l. length l \<le> sizeof_data"
  by unfold_locales
    (auto simp: LogMessage_ops_def new_LogMessage_def copy_LogMessage_def default_LogMessage_def fine_LogMessage_def lm_empty_def)

text \<open>Putting and taking are the steps of the abstract queue that \<open>Blocking_Queues\<close> implements.\<close>

lemma queue_put_step:
  "queue_put ops cap m s = Some (Inr s') \<Longrightarrow> queue_step cap (ql_queue s) (l :: 'm returned) (ql_queue s') l"
  by (auto simp: queue_put_def queue_step_def result_simps split: if_splits)

lemma ql_turn_step:
  assumes "ql_turn ops s = Some (Inr s')" "ql_writer s = Looping"
  shows "queue_step cap (ql_queue s) l (ql_queue s') (l\<lparr>got := got l @ [hd (ql_queue s)]\<rparr>)"
  using assms by (auto simp: ql_turn_def queue_step_def Let_def result_simps split: list.splits if_splits)

section \<open>The logger for any message\<close>

definition q_line :: "queue_event \<Rightarrow> string list" where
  "q_line e = (case e of QAppend l \<Rightarrow> [l] | _ \<Rightarrow> [])"

definition q_lines :: "queue_event list \<Rightarrow> string list" where
  "q_lines es = concat (map q_line es)"

lemma q_lines_simps [simp]:
  "q_lines [] = []" "q_lines (e # es) = q_line e @ q_lines es" "q_lines (es @ fs) = q_lines es @ q_lines fs"
  "q_line (QAppend l) = [l]" "q_line QTurn = []" "q_line QStop_flag = []" "q_line QStop_put = []"
  by (simp_all add: q_lines_def q_line_def)

definition ql_text :: "'m queue_log \<Rightarrow> string" where
  "ql_text s = concat (map snd (files (ql_output s)))"

text \<open>A line that makes a message, and is not taken for the end.\<close>

definition plain :: "(string \<Rightarrow> bool) \<Rightarrow> queue_event \<Rightarrow> bool" where
  "plain fits e \<longleftrightarrow> (case e of QAppend l \<Rightarrow> fits l \<and> l \<noteq> [] | QTurn \<Rightarrow> True | _ \<Rightarrow> False)"

context message
begin

definition lines_in :: "'m list \<Rightarrow> bool" where
  "lines_in ms \<longleftrightarrow> (\<forall>m \<in> set ms. fine m \<and> msg_text ops m \<noteq> [])"

definition wrote :: "string list \<Rightarrow> 'm list \<Rightarrow> 'm queue_log \<Rightarrow> bool" where
  "wrote ls ms s \<longleftrightarrow> (\<exists>gs. holds_lines gs (ql_output s) \<and> concat gs @ map (msg_text ops) ms = ls)"

lemma wrote_all: "wrote ls [] s \<Longrightarrow> ql_text s = concat ls"
proof -
  have "concat (map concat xs) = concat (concat xs)" for xs :: "string list list" by (induction xs) simp_all
  then show "wrote ls [] s \<Longrightarrow> ?thesis" by (auto simp: wrote_def holds_lines_def ql_text_def)
qed

definition logs :: "string list \<Rightarrow> 'm queue_log \<Rightarrow> bool" where
  "logs ls s \<longleftrightarrow> ql_writer s = Looping \<and> lines_in (ql_queue s) \<and> wrote ls (ql_queue s) s"

text \<open>A message for the end is in the queue, with \<open>n - 1\<close> lines before it, or has been taken (\<open>n = 0\<close>).\<close>

definition ends :: "string list \<Rightarrow> nat \<Rightarrow> 'm queue_log \<Rightarrow> bool" where
  "ends ls n s \<longleftrightarrow> \<not> ql_running s \<and> (\<forall>m \<in> set (ql_queue s). fine m)
     \<and> (ql_writer s = Looping \<and> (\<exists>ms d ms'. ql_queue s = ms @ d # ms' \<and> lines_in ms \<and> msg_text ops d = []
            \<and> wrote ls ms s \<and> n = length ms + 1)
        \<or> ql_writer s = Ended \<and> n = 0 \<and> ql_text s = concat ls)"

lemma append_step:
  assumes "fits l" "ql_do ops cap (QAppend l) s = Some r"
  shows "\<exists>m. fine m \<and> msg_text ops m = l \<and> r = Inr (s\<lparr>ql_queue := ql_queue s @ [m]\<rparr>)"
  using assms new[OF assms(1)] copy by (auto simp: ql_do_def ql_append_def queue_put_def split: if_splits)

lemma turn_line:
  assumes "ql_writer s = Looping" "ql_queue s = m # ms" "fine m" "msg_text ops m \<noteq> []" "wrote ls (m # ms') s"
  shows "\<exists>f. ql_do ops cap QTurn s = Some (Inr (s\<lparr>ql_queue := ms, ql_output := f\<rparr>)) \<and> wrote ls ms' (s\<lparr>ql_queue := ms, ql_output := f\<rparr>)"
proof -
  obtain gs where gs: "holds_lines gs (ql_output s)" "concat gs @ map (msg_text ops) (m # ms') = ls"
    using assms(5) by (auto simp: wrote_def)
  obtain f hs where f: "log_append (msg_text ops m) (ql_output s) = Inr f" "holds_lines hs f" "concat hs = concat gs @ [msg_text ops m]"
    using log_appends_hold[OF gs(1), of "[msg_text ops m]"] by auto
  have "ql_do ops cap QTurn s = Some (Inr (s\<lparr>ql_queue := ms, ql_output := f\<rparr>))"
    using assms(1-4) copy empty f(1) by (simp add: ql_do_def ql_turn_def Let_def)
  then show ?thesis using f(2,3) gs(2) by (intro exI[of _ f]) (auto simp: wrote_def)
qed

lemma turn_stop:
  assumes "ql_writer s = Looping" "ql_queue s = m # ms" "fine m" "msg_text ops m = []" "wrote ls [] s" "\<not> ql_running s"
  shows "\<exists>f. ql_do ops cap QTurn s = Some (Inr (s\<lparr>ql_queue := ms, ql_output := f, ql_writer := Ended\<rparr>))
    \<and> wrote ls [] (s\<lparr>ql_queue := ms, ql_output := f, ql_writer := Ended\<rparr>)"
proof -
  obtain gs where gs: "holds_lines gs (ql_output s)" "concat gs = ls" using assms(5) by (auto simp: wrote_def)
  then obtain f where "log_flush (ql_output s) = Inr f" "holds_lines gs f" by (auto simp: log_flush_def file_flush_def holds_lines_def)
  then show ?thesis using assms copy empty gs(2) by (auto simp: ql_do_def ql_turn_def Let_def wrote_def)
qed

lemma logs_step:
  assumes s: "logs ls s" and e: "plain fits e" and r: "ql_do ops cap e s = Some r"
  shows "\<exists>s'. r = Inr s' \<and> logs (ls @ q_line e) s' \<and> ql_running s' = ql_running s"
proof (cases e)
  case (QAppend l)
  then show ?thesis
    using append_step[of l cap s r] s e r by (fastforce simp: logs_def lines_in_def wrote_def plain_def)
next
  case QTurn
  obtain m ms where q: "ql_queue s = m # ms" using r s QTurn by (cases "ql_queue s") (auto simp: ql_do_def ql_turn_def logs_def)
  then show ?thesis
    using turn_line[of s m ms ls ms cap] s r QTurn by (auto simp: logs_def lines_in_def wrote_def)
qed (use e in \<open>simp_all add: plain_def\<close>)

lemma ends_step:
  assumes s: "ends ls n s" and e: "plain fits e" and r: "ql_do ops cap e s = Some r"
  shows "\<exists>s'. r = Inr s' \<and> ends ls (n - count_list [e] QTurn) s'"
proof (cases e)
  case (QAppend l)
  then obtain m where m: "fine m" "r = Inr (s\<lparr>ql_queue := ql_queue s @ [m]\<rparr>)"
    using append_step[of l cap s r] e r by (auto simp: plain_def)
  then show ?thesis using s QAppend by (fastforce simp: ends_def wrote_def ql_text_def)
next
  case QTurn
  show ?thesis
  proof (cases "ql_writer s = Looping")
    case False
    then show ?thesis using s r QTurn by (auto simp: ends_def ql_do_def ql_turn_def)
  next
    case True
    then obtain ms d ms' where q: "ql_queue s = ms @ d # ms'" "lines_in ms" "msg_text ops d = []" "wrote ls ms s" "n = length ms + 1"
      using s by (auto simp: ends_def)
    show ?thesis
    proof (cases ms)
      case Nil
      then show ?thesis
        using turn_stop[OF True, of d ms' ls cap] q s r QTurn wrote_all by (auto simp: ends_def)
    next
      case (Cons m ms1)
      then obtain f where "r = Inr (s\<lparr>ql_queue := ms1 @ d # ms', ql_output := f\<rparr>)"
        "wrote ls ms1 (s\<lparr>ql_queue := ms1 @ d # ms', ql_output := f\<rparr>)"
        using turn_line[OF True, of m "ms1 @ d # ms'" ls ms1 cap] q r QTurn by (auto simp: lines_in_def)
      then show ?thesis using True q s QTurn Cons by (fastforce simp: ends_def lines_in_def)
    qed
  qed
qed (use e in \<open>simp_all add: plain_def\<close>)

lemma logs_events:
  "logs ls s \<Longrightarrow> list_all (plain fits) es \<Longrightarrow> ql_events ops cap es s = Some r \<Longrightarrow>
    \<exists>s'. r = Inr s' \<and> logs (ls @ q_lines es) s' \<and> ql_running s' = ql_running s"
proof (induction es arbitrary: ls s)
  case (Cons e es)
  then obtain r1 where "ql_do ops cap e s = Some r1" by (auto split: option.splits)
  moreover from this obtain s1 where s1: "r1 = Inr s1" "logs (ls @ q_line e) s1" "ql_running s1 = ql_running s"
    using logs_step[OF Cons.prems(1), of e cap r1] Cons.prems(2) by auto
  ultimately show ?case using Cons.IH[OF s1(2)] Cons.prems by auto
qed auto

lemma ends_events:
  "ends ls n s \<Longrightarrow> list_all (plain fits) es \<Longrightarrow> ql_events ops cap es s = Some r \<Longrightarrow>
    \<exists>s'. r = Inr s' \<and> ends ls (n - count_list es QTurn) s'"
proof (induction es arbitrary: n s)
  case (Cons e es)
  then obtain r1 where "ql_do ops cap e s = Some r1" by (auto split: option.splits)
  moreover from this obtain s1 where s1: "r1 = Inr s1" "ends ls (n - count_list [e] QTurn) s1"
    using ends_step[OF Cons.prems(1), of e cap r1] Cons.prems(2) by auto
  ultimately show ?case using Cons.IH[OF s1(2)] Cons.prems by (auto split: if_splits)
qed auto

lemma begin_logs:
  assumes "CHR ''/'' \<notin> set base" "clocks env = t # ts" "0 < t" "0 \<notin> set (fwrites env)"
  shows "\<exists>s. ql_begin (ql_start (new_AsyncLoggingT base limit env)) = Inr s \<and> logs [] s \<and> ql_running s \<and> ql_queue s = []"
proof -
  define f where "f = \<lparr>basename = base, rollSize = limit, flushInterval = 3, count = 0, startOfPeriod = 0,
    lastRoll = 0, lastFlush = 0, writtenBytes = None, files = [], unflushed = False, clocks = t # ts,
    fwrites = fwrites env, pid = pid env\<rparr>"
  have "holds_lines [[]] (rollFile f)"
    using assms rollFile_cases[of f] by (auto simp: holds_lines_def f_def sys_time_def split: list.splits)
  then have "holds_lines [[]] (snd (sys_time (rollFile f)))"
    by (auto simp: holds_lines_def sys_time_def split: list.splits)
  then show ?thesis
    using assms by (auto simp: ql_begin_def ql_start_def new_AsyncLoggingT_def new_LogFile_def f_def logs_def lines_in_def wrote_def)
qed

lemma stop_put:
  assumes s: "logs ls s" "\<not> ql_running s" and r: "ql_do ops cap QStop_put s = Some r"
  shows "\<exists>s' n. r = Inr s' \<and> ends ls n s' \<and> n \<le> length ls + 1"
proof -
  have "r = Inr (s\<lparr>ql_queue := ql_queue s @ [msg_default ops]\<rparr>)"
    using r copy[OF default(1)] by (auto simp: ql_do_def ql_stop_put_def queue_put_def split: if_splits)
  moreover have "length (ql_queue s) \<le> length ls" using s(1) by (auto simp: logs_def wrote_def)
  moreover have "ends ls (length (ql_queue s) + 1) (s\<lparr>ql_queue := ql_queue s @ [msg_default ops]\<rparr>)"
    using s default by (fastforce simp: ends_def logs_def lines_in_def wrote_def)
  ultimately show ?thesis by fastforce
qed

lemma ql_events_app:
  "ql_events ops cap (es @ fs) s = (case ql_events ops cap es s of
      Some (Inr s) \<Rightarrow> ql_events ops cap fs s | r \<Rightarrow> r)"
  by (induction es arbitrary: s) (auto split: option.splits sum.splits)

text \<open>All that was appended before the message for the end, and nothing else.\<close>

lemma stopped_complete:
  assumes s: "logs [] s" "ql_running s" and es: "list_all (plain fits) (es1 @ es2 @ es3)"
    and n: "length (q_lines (es1 @ es2)) < count_list es3 QTurn"
    and r: "ql_events ops cap (es1 @ QStop_flag # es2 @ QStop_put # es3) s = Some r"
  shows "\<exists>s'. r = Inr s' \<and> ql_writer s' = Ended \<and> ql_text s' = concat (q_lines (es1 @ es2))"
proof -
  obtain r1 where r1: "ql_events ops cap es1 s = Some r1" using r by (auto simp: ql_events_app split: option.splits)
  then obtain s1 where s1: "r1 = Inr s1" "logs (q_lines es1) s1" using logs_events[OF s(1), of es1 cap r1] es by auto
  let ?s2 = "ql_stop_flag s1"
  have r2: "ql_events ops cap (es2 @ QStop_put # es3) ?s2 = Some r" using r r1 s1(1) by (simp add: ql_events_app ql_do_def)
  have l2: "logs (q_lines es1) ?s2" "\<not> ql_running ?s2" using s1(2) by (simp_all add: logs_def wrote_def ql_stop_flag_def)
  obtain r3 where r3: "ql_events ops cap es2 ?s2 = Some r3" using r2 by (auto simp: ql_events_app split: option.splits)
  then obtain s3 where s3: "r3 = Inr s3" "logs (q_lines (es1 @ es2)) s3" "\<not> ql_running s3"
    using logs_events[OF l2(1), of es2 cap r3] es l2(2) by auto
  have r4: "ql_events ops cap (QStop_put # es3) s3 = Some r" using r2 r3 s3(1) by (simp add: ql_events_app)
  then obtain r5 where r5: "ql_do ops cap QStop_put s3 = Some r5" by (auto split: option.splits)
  from stop_put[OF s3(2,3) r5] obtain s5 n where s5: "r5 = Inr s5" "ends (q_lines (es1 @ es2)) n s5" "n \<le> length (q_lines (es1 @ es2)) + 1"
    by blast
  obtain s6 where s6: "r = Inr s6" "ends (q_lines (es1 @ es2)) (n - count_list es3 QTurn) s6"
    using ends_events[OF s5(2), of es3 cap r] es r4 r5 s5(1) by auto
  then show ?thesis using n s5(3) by (auto simp: ends_def)
qed

text \<open>A message without text ends the thread, which aborts when it has not been told to stop.\<close>

lemma empty_aborts:
  "ql_writer s = Looping \<Longrightarrow> ql_running s \<Longrightarrow> ql_queue s = ms @ [d] \<Longrightarrow> lines_in ms \<Longrightarrow> fine d \<Longrightarrow> msg_text ops d = [] \<Longrightarrow>
    wrote ls ms s \<Longrightarrow> ql_events ops cap (replicate (length ms + 1) QTurn) s = Some (Inl (Assertion 89))"
proof (induction ms arbitrary: s)
  case Nil
  then show ?case using copy empty by (simp add: ql_do_def ql_turn_def Let_def)
next
  case (Cons m ms)
  obtain f where f: "ql_do ops cap QTurn s = Some (Inr (s\<lparr>ql_queue := ms @ [d], ql_output := f\<rparr>))"
    "wrote ls ms (s\<lparr>ql_queue := ms @ [d], ql_output := f\<rparr>)"
    using turn_line[of s m "ms @ [d]" ls ms cap] Cons.prems by (auto simp: lines_in_def)
  have "ql_events ops cap (replicate (length ms + 1) QTurn) (s\<lparr>ql_queue := ms @ [d], ql_output := f\<rparr>) = Some (Inl (Assertion 89))"
    by (rule Cons.IH) (use Cons.prems f(2) in \<open>simp_all add: lines_in_def\<close>)
  then show ?case using f(1) by simp
qed

end

section \<open>Properties\<close>

text \<open>C21: The logger on a queue of strings, bounded or not, writes every line appended before \<open>stop()\<close> has put its
  message, in order, and nothing that is appended later; and its thread ends. No line is
  empty, and the file takes at least one byte at a time. (\<open>es1\<close> are the steps before \<open>stop()\<close> clears \<open>running_\<close>,
  \<open>es2\<close> those until it puts the message, \<open>es3\<close> those after, with a turn of the thread for every line and one more.)\<close>

theorem queue_log_complete:
  assumes "CHR ''/'' \<notin> set base" "clocks env = t # ts" "0 < t" "0 \<notin> set (fwrites env)"
    and "list_all (plain (\<lambda>l. True)) (es1 @ es2 @ es3)" "length (q_lines (es1 @ es2)) < count_list es3 QTurn"
    and "ql_run string_ops cap base limit env (es1 @ QStop_flag # es2 @ QStop_put # es3) = Some r"
  shows "\<exists>s. r = Inr s \<and> ql_writer s = Ended \<and> concat (map snd (files (ql_output s))) = concat (q_lines (es1 @ es2))"
proof -
  obtain s where s: "ql_begin (ql_start (new_AsyncLoggingT base limit env)) = Inr s" "str.logs [] s" "ql_running s"
    using str.begin_logs[OF assms(1-4)] by blast
  then have "ql_events string_ops cap (es1 @ QStop_flag # es2 @ QStop_put # es3) s = Some r"
    using assms(7) by (simp add: ql_run_def)
  then show ?thesis using str.stopped_complete[OF s(2,3) assms(5,6)] by (simp add: ql_text_def)
qed

text \<open>C30: An empty line brings the program down. With \<open>LogMessage\<close>s, in any queue, a line of length 0 that is
  appended while the logger runs is taken for the message of \<open>stop()\<close>: when its turn comes, after the
  lines before it, the assertion that the logger has been stopped fails.\<close>

theorem empty_line_aborts:
  assumes "CHR ''/'' \<notin> set base" "clocks env = t # ts" "0 < t" "0 \<notin> set (fwrites env)"
    and "list_all (plain (\<lambda>l. length l \<le> sizeof_data)) es"
    and "ql_run LogMessage_ops cap base limit env es = Some (Inr s)" "room_left cap (ql_queue s)"
  shows "ql_run LogMessage_ops cap base limit env (es @ QAppend [] # replicate (length (ql_queue s) + 1) QTurn) = Some (Inl (Assertion 89))"
proof -
  obtain s0 where s0: "ql_begin (ql_start (new_AsyncLoggingT base limit env)) = Inr s0" "lm.logs [] s0" "ql_running s0"
    using lm.begin_logs[OF assms(1-4)] by blast
  then have run: "ql_events LogMessage_ops cap es s0 = Some (Inr s)" using assms(6) by (simp add: ql_run_def)
  then have s: "lm.logs (q_lines es) s" "ql_running s" using lm.logs_events[OF s0(2) assms(5) run] s0(3) by auto
  let ?d = "\<lparr>lm_data = [], lm_length = 0\<rparr>"
  let ?s1 = "s\<lparr>ql_queue := ql_queue s @ [?d]\<rparr>"
  have d: "fine_LogMessage ?d" "msg_text LogMessage_ops ?d = []" by (simp_all add: fine_LogMessage_def LogMessage_ops_def)
  have put: "ql_do LogMessage_ops cap (QAppend []) s = Some (Inr ?s1)"
    using assms(7) by (simp add: ql_do_def ql_append_def queue_put_def LogMessage_ops_def new_LogMessage_def copy_LogMessage_def)
  have "ql_events LogMessage_ops cap (replicate (length (ql_queue s) + 1) QTurn) ?s1 = Some (Inl (Assertion 89))"
    by (rule lm.empty_aborts[of _ _ ?d "q_lines es"])
      (use s d in \<open>simp_all add: lm.logs_def lm.wrote_def\<close>)
  then have "ql_events LogMessage_ops cap (es @ QAppend [] # replicate (length (ql_queue s) + 1) QTurn) s0 = Some (Inl (Assertion 89))"
    using run put by (simp only: lm.ql_events_app ql_events.simps option.case sum.case)
  then show ?thesis using s0(1) by (simp add: ql_run_def)
qed

section \<open>Witnesses\<close>

definition ql_wit_env :: log_file where
  "ql_wit_env = \<lparr>basename = [], rollSize = 0, flushInterval = 0, count = 0, startOfPeriod = 0, lastRoll = 0, lastFlush = 0,
     writtenBytes = None, files = [], unflushed = False, clocks = [100, 200], fwrites = [2, 1], pid = 7\<rparr>"

lemma ql_wit_env: "CHR ''/'' \<notin> set ''server''" "clocks ql_wit_env = 100 # [200]" "(0::int) < 100" "0 \<notin> set (fwrites ql_wit_env)"
  by (simp_all add: ql_wit_env_def)

theorem queue_log_complete_witness:
  "\<exists>s. ql_run string_ops (Some 2) ''server'' 10 ql_wit_env ([QAppend ''line''] @ QStop_flag # [] @ QStop_put # [QTurn, QTurn]) = Some (Inr s)
    \<and> ql_writer s = Ended \<and> concat (map snd (files (ql_output s))) = ''line''"
proof -
  obtain s where s: "ql_begin (ql_start (new_AsyncLoggingT ''server'' 10 ql_wit_env)) = Inr s" "str.logs [] s" "ql_queue s = []"
    using str.begin_logs[OF ql_wit_env] by blast
  let ?s1 = "s\<lparr>ql_running := False, ql_queue := [''line'', []]\<rparr>"
  have start: "ql_run string_ops (Some 2) ''server'' 10 ql_wit_env ([QAppend ''line''] @ QStop_flag # [] @ QStop_put # es)
      = ql_events string_ops (Some 2) es ?s1" for es
    using s(1,3) by (simp add: ql_run_def ql_do_def ql_append_def queue_put_def ql_stop_flag_def ql_stop_put_def string_ops_def room_left_def)
  have tx: "msg_text string_ops m = m" for m by (simp add: string_ops_def)
  have w: "str.wrote [''line''] (''line'' # []) ?s1" "ql_writer ?s1 = Looping"
    using s(2,3) tx by (auto simp: str.wrote_def str.logs_def)
  obtain f where f: "ql_do string_ops (Some 2) QTurn ?s1 = Some (Inr (?s1\<lparr>ql_queue := [[]], ql_output := f\<rparr>))"
    "str.wrote [''line''] [] (?s1\<lparr>ql_queue := [[]], ql_output := f\<rparr>)"
    using str.turn_line[OF w(2) _ _ _ w(1), of "[[]]" "Some 2"] tx by auto
  obtain r where "ql_do string_ops (Some 2) QTurn (?s1\<lparr>ql_queue := [[]], ql_output := f\<rparr>) = Some (Inr r)"
    using str.turn_stop[OF _ _ _ _ f(2), of "[]" "[]" "Some 2"] w(2) tx by auto
  then have r: "ql_run string_ops (Some 2) ''server'' 10 ql_wit_env ([QAppend ''line''] @ QStop_flag # [] @ QStop_put # [QTurn, QTurn]) = Some (Inr r)"
    unfolding start using f(1) by simp
  have "list_all (plain (\<lambda>l. True)) ([QAppend ''line''] @ [] @ [QTurn, QTurn])"
    "length (q_lines ([QAppend ''line''] @ [])) < count_list [QTurn, QTurn] QTurn" by (simp_all add: plain_def)
  from queue_log_complete[OF ql_wit_env this r] r show ?thesis by simp
qed

theorem empty_line_aborts_witness:
  "ql_run LogMessage_ops None ''server'' 10 ql_wit_env [QAppend [], QTurn] = Some (Inl (Assertion 89))"
proof -
  obtain s where s: "ql_begin (ql_start (new_AsyncLoggingT ''server'' 10 ql_wit_env)) = Inr (s :: log_message queue_log)" "ql_queue s = []"
    using lm.begin_logs[OF ql_wit_env] by blast
  have "list_all (plain (\<lambda>l. length l \<le> sizeof_data)) []" "ql_run LogMessage_ops None ''server'' 10 ql_wit_env [] = Some (Inr s)"
    "room_left None (ql_queue s)"
    using s(1) by (simp_all add: ql_run_def room_left_def)
  from empty_line_aborts[OF ql_wit_env this] s(2) show ?thesis by simp
qed

end
