(* ===== verification/Signal_Slots.thy ===== *)
theory Signal_Slots
  imports Fppnet_Prelude "HOL-Library.Sublist"
begin

text \<open>
  Signals and slots: src/base/thread/SignalSlot.h. The program shares its objects by reference counts,
  so the state is their stores, and a count is kept as the set of those who own the object. Slots,
  lists of slots and calls are numbered in the order they are made. A critical section, a step of
  the loop of \<open>call\<close>, and the return of a callback are one step each; any of them may follow any
  other, which is what other threads do, and also what callbacks do that use the signal themselves.
\<close>

section \<open>State\<close>

datatype owner = Field | Handle nat | Local nat

text \<open>A slot with its tie, if it is tied; its callback is known by the number of the slot.\<close>

record slot_impl =
  slot_owners :: "owner set"
  slot_tie :: "nat option"

text \<open>A call under way: the list it goes through, its iterator and, inside a callback, the slot it has locked.\<close>

record activation =
  act_list :: nat
  act_pos :: nat
  act_slot :: "nat option"

record signal =
  impl_slots :: nat
  slot_lists :: "nat \<rightharpoonup> owner set \<times> nat list"
  list_count :: nat
  slot_impls :: "nat \<rightharpoonup> slot_impl"
  slot_count :: nat
  tie_owners :: "nat \<Rightarrow> owner set"
  signal_alive :: bool
  destructors :: nat
  calls :: "nat \<rightharpoonup> activation"
  call_count :: nat
  invoked :: "(nat \<times> nat) list"

text \<open>\<open>destructors\<close> counts the destructors of slots that have yet to clean the list.\<close>

definition new_Signal :: "(nat \<Rightarrow> owner set) \<Rightarrow> signal" where
  "new_Signal ties =
     \<lparr>impl_slots = 0, slot_lists = [0 \<mapsto> ({Field}, [])], list_count = 1, slot_impls = Map.empty, slot_count = 0,
      tie_owners = ties, signal_alive = True, destructors = 0, calls = Map.empty, call_count = 0, invoked = []\<rparr>"

section \<open>SignalImpl\<close>

definition release_list :: "owner \<Rightarrow> nat \<Rightarrow> signal \<Rightarrow> signal" where
  "release_list who a s = (case slot_lists s a of
      None \<Rightarrow> s
    | Some (ows, xs) \<Rightarrow>
        s\<lparr>slot_lists := (slot_lists s)(a := if ows - {who} = {} then None else Some (ows - {who}, xs))\<rparr>)"

definition unique_list :: "signal \<Rightarrow> bool" where
  "unique_list s = (case slot_lists s (impl_slots s) of None \<Rightarrow> False | Some (ows, xs) \<Rightarrow> ows = {Field})"

definition change_list :: "(nat list \<Rightarrow> nat list) \<Rightarrow> signal \<Rightarrow> signal" where
  "change_list f s = (case slot_lists s (impl_slots s) of
      None \<Rightarrow> s
    | Some (ows, xs) \<Rightarrow> s\<lparr>slot_lists := (slot_lists s)(impl_slots s \<mapsto> (ows, f xs))\<rparr>)"

definition copyOnWrite :: "signal \<Rightarrow> signal result" where
  "copyOnWrite s =
     (case slot_lists s (impl_slots s) of
        None \<Rightarrow> Inl (Undefined 35)
      | Some (ows, xs) \<Rightarrow>
          let s = (if \<not> unique_list s
                   then let copy = list_count s;
                            s = release_list Field (impl_slots s) s
                        in s\<lparr>slot_lists := (slot_lists s)(copy \<mapsto> ({Field}, xs)), impl_slots := copy, list_count := copy + 1\<rparr>
                   else s)
          in check (unique_list s) (Assertion 39) (Inr s))"

fun erase_expired :: "(nat \<Rightarrow> bool) \<Rightarrow> nat list \<Rightarrow> nat list" where
  "erase_expired expired [] = []"
| "erase_expired expired (x # xs) = (if expired x then erase_expired expired xs else x # erase_expired expired xs)"

definition clean :: "signal \<Rightarrow> signal result" where
  "clean s = rbind (copyOnWrite s) (\<lambda>s. Inr (change_list (erase_expired (\<lambda>n. slot_impls s n = None)) s))"

section \<open>SlotImpl\<close>

text \<open>The last owner of a slot starts its destructor, which cleans the list if the signal is still there.\<close>

definition release_slot :: "owner \<Rightarrow> nat \<Rightarrow> signal \<Rightarrow> signal" where
  "release_slot who n s = (case slot_impls s n of
      None \<Rightarrow> s
    | Some slot \<Rightarrow>
        if slot_owners slot - {who} = {}
        then s\<lparr>slot_impls := (slot_impls s)(n := None), destructors := destructors s + 1\<rparr>
        else s\<lparr>slot_impls := (slot_impls s)(n \<mapsto> slot\<lparr>slot_owners := slot_owners slot - {who}\<rparr>)\<rparr>)"

definition delete_SlotImpl :: "signal \<Rightarrow> signal result" where
  "delete_SlotImpl s =
     (if destructors s = 0 then Inr s
      else let s = s\<lparr>destructors := destructors s - 1\<rparr>
           in if signal_alive s then clean s else Inr s)"

section \<open>Signal\<close>

definition delete_Signal :: "signal \<Rightarrow> signal" where
  "delete_Signal s = (if signal_alive s then (release_list Field (impl_slots s) s)\<lparr>signal_alive := False\<rparr> else s)"

definition sig_add :: "nat \<Rightarrow> signal \<Rightarrow> signal result" where
  "sig_add n s = rbind (copyOnWrite s) (\<lambda>s. Inr (change_list (\<lambda>xs. xs @ [n]) s))"

definition sig_connect :: "nat \<Rightarrow> nat option \<Rightarrow> signal \<Rightarrow> signal result" where
  "sig_connect h tie s =
     check (signal_alive s) (Undefined 173)
       (let n = slot_count s
        in sig_add n (s\<lparr>slot_impls := (slot_impls s)(n \<mapsto> \<lparr>slot_owners = {Handle h}, slot_tie = tie\<rparr>), slot_count := n + 1\<rparr>))"

definition sig_call :: "signal \<Rightarrow> signal result" where
  "sig_call s =
     check (signal_alive s) (Undefined 140)
       (case slot_lists s (impl_slots s) of
          None \<Rightarrow> Inl (Undefined 144)
        | Some (ows, xs) \<Rightarrow>
            let k = call_count s
            in Inr (s\<lparr>slot_lists := (slot_lists s)(impl_slots s \<mapsto> (insert (Local k) ows, xs)), call_count := k + 1,
                      calls := (calls s)(k \<mapsto> \<lparr>act_list = impl_slots s, act_pos = 0, act_slot = None\<rparr>)\<rparr>))"

definition take_tie :: "owner \<Rightarrow> nat option \<Rightarrow> signal \<Rightarrow> signal" where
  "take_tie who tie s = (case tie of None \<Rightarrow> s
     | Some t \<Rightarrow> s\<lparr>tie_owners := (tie_owners s)(t := insert who (tie_owners s t))\<rparr>)"

definition release_tie :: "owner \<Rightarrow> nat option \<Rightarrow> signal \<Rightarrow> signal" where
  "release_tie who tie s = (case tie of None \<Rightarrow> s
     | Some t \<Rightarrow> s\<lparr>tie_owners := (tie_owners s)(t := tie_owners s t - {who})\<rparr>)"

definition tie_holds :: "nat option \<Rightarrow> signal \<Rightarrow> bool" where
  "tie_holds tie s = (case tie of None \<Rightarrow> True | Some t \<Rightarrow> tie_owners s t \<noteq> {})"

text \<open>A turn of the loop of call \<open>k\<close> up to the callback it invokes, if it does, or the end of the loop.\<close>

definition call_turn :: "nat \<Rightarrow> signal \<Rightarrow> signal result" where
  "call_turn k s = (case calls s k of
      None \<Rightarrow> Inr s
    | Some act \<Rightarrow>
        if act_slot act \<noteq> None then Inr s
        else (case slot_lists s (act_list act) of
          None \<Rightarrow> Inl (Undefined 147)
        | Some (ows, xs) \<Rightarrow>
            if act_pos act < length xs
            then let n = xs ! act_pos act;
                     skip = s\<lparr>calls := (calls s)(k \<mapsto> act\<lparr>act_pos := act_pos act + 1\<rparr>)\<rparr>
                 in case slot_impls s n of
                      None \<Rightarrow> Inr skip
                    | Some slot \<Rightarrow>
                        if tie_holds (slot_tie slot) s
                        then Inr (take_tie (Local k) (slot_tie slot)
                               (s\<lparr>slot_impls := (slot_impls s)(n \<mapsto> slot\<lparr>slot_owners := insert (Local k) (slot_owners slot)\<rparr>),
                                  calls := (calls s)(k \<mapsto> act\<lparr>act_slot := Some n\<rparr>), invoked := invoked s @ [(k, n)]\<rparr>))
                        else Inr skip
            else Inr ((release_list (Local k) (act_list act) s)\<lparr>calls := (calls s)(k := None)\<rparr>)))"

text \<open>The callback returns: \<open>guard\<close> and \<open>slotImpl\<close> go, and the iterator moves on.\<close>

definition call_return :: "nat \<Rightarrow> signal \<Rightarrow> signal" where
  "call_return k s = (case calls s k of
      None \<Rightarrow> s
    | Some act \<Rightarrow> (case act_slot act of
        None \<Rightarrow> s
      | Some n \<Rightarrow>
          let s = (case slot_impls s n of None \<Rightarrow> s | Some slot \<Rightarrow> release_tie (Local k) (slot_tie slot) s);
              s = release_slot (Local k) n s
          in s\<lparr>calls := (calls s)(k \<mapsto> act\<lparr>act_slot := None, act_pos := act_pos act + 1\<rparr>)\<rparr>))"

section \<open>Runs\<close>

text \<open>What users do with the handles of slots and of the objects they tie slots to: copy and drop them.\<close>

datatype sig_event =
    Connect nat "nat option" | Begin_call | Turn nat | Return nat | Clean | Delete_signal
  | Copy_slot nat nat nat | Drop_slot nat nat | Copy_tie nat nat nat | Drop_tie nat nat

definition copy_slot :: "nat \<Rightarrow> nat \<Rightarrow> nat \<Rightarrow> signal \<Rightarrow> signal" where
  "copy_slot n h h' s = (case slot_impls s n of
      None \<Rightarrow> s
    | Some slot \<Rightarrow>
        if Handle h \<in> slot_owners slot
        then s\<lparr>slot_impls := (slot_impls s)(n \<mapsto> slot\<lparr>slot_owners := insert (Handle h') (slot_owners slot)\<rparr>)\<rparr>
        else s)"

definition copy_tie :: "nat \<Rightarrow> nat \<Rightarrow> nat \<Rightarrow> signal \<Rightarrow> signal" where
  "copy_tie t h h' s = (if Handle h \<in> tie_owners s t then take_tie (Handle h') (Some t) s else s)"

fun sig_do :: "sig_event \<Rightarrow> signal \<Rightarrow> signal result" where
  "sig_do (Connect h tie) s = sig_connect h tie s"
| "sig_do Begin_call s = sig_call s"
| "sig_do (Turn k) s = call_turn k s"
| "sig_do (Return k) s = Inr (call_return k s)"
| "sig_do Clean s = delete_SlotImpl s"
| "sig_do Delete_signal s = Inr (delete_Signal s)"
| "sig_do (Copy_slot n h h') s = Inr (copy_slot n h h' s)"
| "sig_do (Drop_slot n h) s = Inr (release_slot (Handle h) n s)"
| "sig_do (Copy_tie t h h') s = Inr (copy_tie t h h' s)"
| "sig_do (Drop_tie t h) s = Inr (release_tie (Handle h) (Some t) s)"

section \<open>The invariant\<close>

text \<open>Who owns the lists.\<close>

definition owners_ok :: "signal \<Rightarrow> nat \<Rightarrow> owner set \<Rightarrow> bool" where [simp]:
  "owners_ok s a ows \<longleftrightarrow> a < list_count s \<and> ows \<noteq> {}
     \<and> (Field \<in> ows \<longleftrightarrow> signal_alive s \<and> a = impl_slots s)
     \<and> (\<forall>k. Local k \<in> ows \<longleftrightarrow> (\<exists>act. calls s k = Some act \<and> act_list act = a)) \<and> (\<forall>h. Handle h \<notin> ows)"

definition lists_ok :: "signal \<Rightarrow> bool" where
  "lists_ok s \<longleftrightarrow> (\<forall>a ows xs. slot_lists s a = Some (ows, xs) \<longrightarrow> owners_ok s a ows)"

text \<open>The list of the signal has every slot that exists, in the order they were connected, and no other
  slot when no destructor is at work.\<close>

definition field_ok :: "signal \<Rightarrow> bool" where
  "field_ok s \<longleftrightarrow> (signal_alive s \<longrightarrow> (\<exists>ows xs. slot_lists s (impl_slots s) = Some (ows, xs) \<and> sorted_wrt (<) xs
     \<and> set xs \<subseteq> {..<slot_count s} \<and> dom (slot_impls s) \<subseteq> set xs
     \<and> (destructors s = 0 \<longrightarrow> set xs \<subseteq> dom (slot_impls s))))"

definition call_ok :: "signal \<Rightarrow> nat \<Rightarrow> activation \<Rightarrow> bool" where [simp]:
  "call_ok s k act \<longleftrightarrow> k < call_count s \<and> act_list act \<in> dom (slot_lists s)
     \<and> (\<forall>n. act_slot act = Some n \<longrightarrow> (\<exists>slot. slot_impls s n = Some slot \<and> Local k \<in> slot_owners slot
          \<and> (\<forall>t. slot_tie slot = Some t \<longrightarrow> Local k \<in> tie_owners s t)))"

definition calls_ok :: "signal \<Rightarrow> bool" where
  "calls_ok s \<longleftrightarrow> (\<forall>k act. calls s k = Some act \<longrightarrow> call_ok s k act)"

definition slot_ok :: "signal \<Rightarrow> nat \<Rightarrow> slot_impl \<Rightarrow> bool" where [simp]:
  "slot_ok s n slot \<longleftrightarrow> n < slot_count s \<and> slot_owners slot \<noteq> {} \<and> Field \<notin> slot_owners slot
     \<and> (\<forall>k. Local k \<in> slot_owners slot \<longrightarrow> (\<exists>act. calls s k = Some act \<and> act_slot act = Some n))"

definition slots_ok :: "signal \<Rightarrow> bool" where
  "slots_ok s \<longleftrightarrow> (\<forall>n slot. slot_impls s n = Some slot \<longrightarrow> slot_ok s n slot)"

definition past_ok :: "signal \<Rightarrow> bool" where
  "past_ok s \<longleftrightarrow> (\<forall>p \<in> set (invoked s). fst p < call_count s)"

definition sig_ok :: "signal \<Rightarrow> bool" where
  "sig_ok s \<longleftrightarrow> lists_ok s \<and> field_ok s \<and> calls_ok s \<and> slots_ok s \<and> past_ok s"

declare past_ok_def [simp]

text \<open>The list a call goes through.\<close>

definition going_through :: "nat \<Rightarrow> signal \<Rightarrow> nat list option" where
  "going_through k s = (case calls s k of None \<Rightarrow> None | Some act \<Rightarrow> map_option snd (slot_lists s (act_list act)))"

lemma lists_okD:
  assumes "lists_ok s" "slot_lists s a = Some (ows, xs)"
  shows "a < list_count s" "ows \<noteq> {}" "Field \<in> ows \<longleftrightarrow> signal_alive s \<and> a = impl_slots s"
    "Local k \<in> ows \<longleftrightarrow> (\<exists>act. calls s k = Some act \<and> act_list act = a)" "Handle h \<notin> ows"
  using assms unfolding lists_ok_def owners_ok_def by blast+

lemma fresh_list: "lists_ok s \<Longrightarrow> slot_lists s (list_count s) = None"
proof (cases "slot_lists s (list_count s)")
  case (Some l)
  assume "lists_ok s"
  then show ?thesis using Some lists_okD(1)[of s "list_count s" "fst l" "snd l"] by simp
qed

text \<open>Changing the list of the signal leaves the lists of the calls as they are.\<close>

lemma copyOnWrite_ok:
  assumes ok: "lists_ok s" "calls_ok s" and alive: "signal_alive s" and l: "slot_lists s (impl_slots s) = Some (ows, xs)"
    and f: "\<And>L a c. f (s\<lparr>slot_lists := L, impl_slots := a, list_count := c\<rparr>) = g"
  shows "\<exists>L a c s'. rbind (copyOnWrite s) (\<lambda>s. Inr (change_list (f s) s)) = Inr s'
    \<and> s' = s\<lparr>slot_lists := L, impl_slots := a, list_count := c\<rparr> \<and> L a = Some ({Field}, g xs) \<and> lists_ok s'
    \<and> (\<forall>k. going_through k s' = going_through k s) \<and> dom (slot_lists s) \<subseteq> dom L"
proof (cases "ows = {Field}")
  case True
  have eq: "rbind (copyOnWrite s) (\<lambda>s. Inr (change_list (f s) s))
      = Inr (s\<lparr>slot_lists := (slot_lists s)(impl_slots s \<mapsto> ({Field}, g xs)), impl_slots := impl_slots s, list_count := list_count s\<rparr>)"
    (is "_ = Inr ?s'")
    using l True f[where L = "slot_lists s" and a = "impl_slots s" and c = "list_count s"] by (simp add: copyOnWrite_def unique_list_def change_list_def)
  have nolocal: "calls s k = Some act \<Longrightarrow> act_list act \<noteq> impl_slots s" for k act
    using lists_okD(4)[OF ok(1) l, of k] True by auto
  have "going_through k ?s' = going_through k s" for k
    using nolocal by (auto simp: going_through_def split: option.splits)
  moreover have "lists_ok ?s'"
    using ok(1) lists_okD[OF ok(1) l] unfolding lists_ok_def by (auto simp: True split: if_splits)
  ultimately show ?thesis
    using eq by (intro exI[of _ "(slot_lists s)(impl_slots s \<mapsto> ({Field}, g xs))"] exI[of _ "impl_slots s"]
        exI[of _ "list_count s"] exI[of _ ?s'] conjI) (auto simp: l)
next
  case False
  have F: "Field \<in> ows" using lists_okD(3)[OF ok(1) l] alive by simp
  let ?L = "(slot_lists s)(impl_slots s \<mapsto> (ows - {Field}, xs), list_count s \<mapsto> ({Field}, g xs))"
  have new: "impl_slots s < list_count s" using lists_okD(1)[OF ok(1) l] .
  have ne: "ows - {Field} \<noteq> {}" using False F by auto
  have eq: "rbind (copyOnWrite s) (\<lambda>s. Inr (change_list (f s) s))
      = Inr (s\<lparr>slot_lists := ?L, impl_slots := list_count s, list_count := list_count s + 1\<rparr>)" (is "_ = Inr ?s'")
    using l False ne new f by (simp add: copyOnWrite_def unique_list_def change_list_def release_list_def Let_def)
  have old: "calls s k = Some act \<Longrightarrow> act_list act \<noteq> list_count s" for k act
    using fresh_list[OF ok(1)] ok(2) by (force simp: calls_ok_def)
  have "going_through k ?s' = going_through k s" for k
    using old[of k] l by (auto simp: going_through_def split: option.splits)
  moreover have "lists_ok ?s'"
    unfolding lists_ok_def
  proof (intro allI impI)
    fix b os ys assume "slot_lists ?s' b = Some (os, ys)"
    then consider "b = list_count s" "os = {Field}" | "b = impl_slots s" "b \<noteq> list_count s" "os = ows - {Field}"
      | "b \<noteq> impl_slots s" "b \<noteq> list_count s" "slot_lists s b = Some (os, ys)"
      by (auto split: if_splits)
    then show "owners_ok ?s' b os"
    proof cases
      case 1
      then show ?thesis using alive old by auto
    next
      case 2
      then show ?thesis using lists_okD[OF ok(1) l] ne by auto
    next
      case 3
      then show ?thesis using lists_okD[OF ok(1) 3(3)] by auto
    qed
  qed
  ultimately show ?thesis
    using eq by (intro exI[of _ ?L] exI[of _ "list_count s"] exI[of _ "list_count s + 1"] exI[of _ ?s'] conjI) (auto simp: l)
qed

section \<open>Steps\<close>

text \<open>A slot that a call may still invoke.\<close>

definition slot_live :: "signal \<Rightarrow> nat \<Rightarrow> bool" where
  "slot_live s n \<longleftrightarrow> (\<exists>slot. slot_impls s n = Some slot \<and> tie_holds (slot_tie slot) s)"

definition ran_of :: "nat \<Rightarrow> signal \<Rightarrow> nat list" where
  "ran_of k s = map snd (filter (\<lambda>p. fst p = k) (invoked s))"

text \<open>A step only takes slots away or adds new ones; the calls it is not about it leaves alone.\<close>

definition older :: "signal \<Rightarrow> signal \<Rightarrow> bool" where
  "older s s' \<longleftrightarrow> slot_count s \<le> slot_count s' \<and> call_count s \<le> call_count s'
     \<and> (\<forall>n < slot_count s. slot_live s' n \<longrightarrow> slot_live s n)"

definition undisturbed :: "nat \<Rightarrow> signal \<Rightarrow> signal \<Rightarrow> bool" where
  "undisturbed k s s' \<longleftrightarrow> calls s' k = calls s k \<and> going_through k s' = going_through k s \<and> ran_of k s' = ran_of k s"

definition good_step :: "(nat \<Rightarrow> bool) \<Rightarrow> signal \<Rightarrow> signal \<Rightarrow> bool" where
  "good_step others s s' \<longleftrightarrow> sig_ok s' \<and> older s s' \<and> (\<forall>k. others k \<longrightarrow> undisturbed k s s')"

lemma ok_frames [simp]:
  "lists_ok (s\<lparr>slot_impls := x1\<rparr>) = lists_ok s" "lists_ok (s\<lparr>slot_count := n\<rparr>) = lists_ok s"
  "lists_ok (s\<lparr>tie_owners := x2\<rparr>) = lists_ok s" "lists_ok (s\<lparr>destructors := n\<rparr>) = lists_ok s"
  "lists_ok (s\<lparr>invoked := x3\<rparr>) = lists_ok s" "lists_ok (s\<lparr>call_count := n\<rparr>) = lists_ok s"
  "field_ok (s\<lparr>calls := x4\<rparr>) = field_ok s" "field_ok (s\<lparr>tie_owners := x2\<rparr>) = field_ok s"
  "field_ok (s\<lparr>invoked := x3\<rparr>) = field_ok s" "field_ok (s\<lparr>call_count := n\<rparr>) = field_ok s"
  "calls_ok (s\<lparr>destructors := n\<rparr>) = calls_ok s" "calls_ok (s\<lparr>slot_count := n\<rparr>) = calls_ok s"
  "calls_ok (s\<lparr>invoked := x3\<rparr>) = calls_ok s"
  "slots_ok (s\<lparr>tie_owners := x2\<rparr>) = slots_ok s" "slots_ok (s\<lparr>destructors := n\<rparr>) = slots_ok s"
  "slots_ok (s\<lparr>invoked := x3\<rparr>) = slots_ok s" "slots_ok (s\<lparr>call_count := n\<rparr>) = slots_ok s"
  "slots_ok (s\<lparr>slot_lists := x5\<rparr>) = slots_ok s"
  by (simp_all add: lists_ok_def field_ok_def calls_ok_def slots_ok_def)

lemma going_through_frames [simp]:
  "going_through k (s\<lparr>slot_impls := x1\<rparr>) = going_through k s" "going_through k (s\<lparr>slot_count := n\<rparr>) = going_through k s"
  "going_through k (s\<lparr>tie_owners := x2\<rparr>) = going_through k s" "going_through k (s\<lparr>destructors := n\<rparr>) = going_through k s"
  "going_through k (s\<lparr>invoked := x3\<rparr>) = going_through k s" "going_through k (s\<lparr>call_count := n\<rparr>) = going_through k s"
  by (auto simp: going_through_def split: option.splits)

lemma calls_okD:
  assumes "calls_ok s" "calls s k = Some act"
  shows "k < call_count s" "\<exists>ows xs. slot_lists s (act_list act) = Some (ows, xs)"
    "act_slot act = Some n \<Longrightarrow> \<exists>slot. slot_impls s n = Some slot \<and> Local k \<in> slot_owners slot
       \<and> (\<forall>t. slot_tie slot = Some t \<longrightarrow> Local k \<in> tie_owners s t)"
  using assms unfolding calls_ok_def by fastforce+

lemma slots_okD:
  assumes "slots_ok s" "slot_impls s n = Some slot"
  shows "n < slot_count s" "slot_owners slot \<noteq> {}" "Field \<notin> slot_owners slot"
    "Local k \<in> slot_owners slot \<Longrightarrow> \<exists>act. calls s k = Some act \<and> act_slot act = Some n"
  using assms unfolding slots_ok_def slot_ok_def by blast+

lemma slot_okI:
  assumes "slots_ok s" "slot_impls s n = Some slot" "slot_count s' = slot_count s"
    and "os \<noteq> {}" "Field \<notin> os"
    and "\<And>j. Local j \<in> os \<Longrightarrow> Local j \<in> slot_owners slot \<and> calls s' j = calls s j
      \<or> (\<exists>b. calls s' j = Some b \<and> act_slot b = Some n)"
  shows "slot_ok s' n (slot\<lparr>slot_owners := os\<rparr>)"
  using slots_okD[OF assms(1,2)] assms(3-6) by fastforce

lemma good_step_same: "sig_ok s \<Longrightarrow> good_step P s s"
  by (simp add: good_step_def older_def undisturbed_def)

text \<open>Steps that change only who owns a slot.\<close>

lemma good_owners:
  assumes ok: "sig_ok s" and slot: "slot_impls s n = Some slot" and os: "os \<noteq> {}" "Field \<notin> os"
    and l: "\<And>k. Local k \<in> os \<longleftrightarrow> Local k \<in> slot_owners slot"
  shows "good_step P s (s\<lparr>slot_impls := (slot_impls s)(n \<mapsto> slot\<lparr>slot_owners := os\<rparr>)\<rparr>)" (is "good_step P s ?s'")
proof -
  have ok': "lists_ok s" "field_ok s" "calls_ok s" "slots_ok s" "past_ok s" using ok by (simp_all add: sig_ok_def)
  have "dom (slot_impls ?s') = dom (slot_impls s)" using slot by auto
  then have "field_ok ?s'" using ok'(2) unfolding field_ok_def by simp
  moreover have "calls_ok ?s'"
    unfolding calls_ok_def using calls_okD[OF ok'(3)] slot l by fastforce
  moreover have "slots_ok ?s'"
    unfolding slots_ok_def using slots_okD[OF ok'(4)] slot os l by auto
  ultimately have "sig_ok ?s'" using ok ok'(1) by (simp add: sig_ok_def)
  moreover have "older s ?s'" using slot by (auto simp: older_def slot_live_def tie_holds_def split: option.splits)
  ultimately show ?thesis by (simp add: good_step_def undisturbed_def ran_of_def)
qed

lemma copy_slot_good: "sig_ok s \<Longrightarrow> good_step P s (copy_slot n h h' s)"
  by (auto simp: copy_slot_def good_step_same split: option.splits intro!: good_owners) (auto simp: sig_ok_def slots_ok_def)

lemma release_tie_good:
  assumes ok: "sig_ok s" and h: "\<And>k. who \<noteq> Local k"
  shows "good_step P s (release_tie who t s)"
proof -
  have "calls_ok (release_tie who t s)"
    using ok h by (fastforce simp: release_tie_def sig_ok_def calls_ok_def split: option.splits)
  moreover have "older s (release_tie who t s)"
    by (auto simp: older_def slot_live_def tie_holds_def release_tie_def split: option.splits if_splits)
  ultimately show ?thesis
    using ok by (auto simp: good_step_def undisturbed_def ran_of_def sig_ok_def release_tie_def split: option.splits)
qed

lemma copy_tie_good:
  assumes ok: "sig_ok s"
  shows "good_step P s (copy_tie t h h' s)"
proof -
  have "calls_ok (copy_tie t h h' s)"
    using ok by (fastforce simp: copy_tie_def take_tie_def sig_ok_def calls_ok_def)
  moreover have "older s (copy_tie t h h' s)"
    by (auto simp: older_def slot_live_def tie_holds_def copy_tie_def take_tie_def split: option.splits if_splits)
  ultimately show ?thesis
    using ok by (simp add: good_step_def undisturbed_def ran_of_def sig_ok_def copy_tie_def take_tie_def)
qed

lemma release_slot_good:
  assumes ok: "sig_ok s" and h: "\<And>k. who \<noteq> Local k"
  shows "good_step P s (release_slot who n s)"
proof (cases "slot_impls s n")
  case None
  then show ?thesis using ok by (simp add: release_slot_def good_step_same)
next
  case (Some slot)
  show ?thesis
  proof (cases "slot_owners slot - {who} = {}")
    case False
    then show ?thesis
      using good_owners[OF ok Some, of "slot_owners slot - {who}" P] ok h Some
      by (auto simp: release_slot_def sig_ok_def dest: slots_okD)
  next
    case True
    have eq: "release_slot who n s = s\<lparr>slot_impls := (slot_impls s)(n := None), destructors := destructors s + 1\<rparr>"
      using Some True by (simp add: release_slot_def)
    have "field_ok (release_slot who n s)" using ok by (force simp: sig_ok_def field_ok_def eq)
    moreover have "calls_ok (release_slot who n s)"
      using ok True Some h by (fastforce simp: sig_ok_def calls_ok_def eq)
    moreover have "slots_ok (release_slot who n s)" using ok by (auto simp: sig_ok_def slots_ok_def eq)
    moreover have "older s (release_slot who n s)"
      by (auto simp: older_def slot_live_def tie_holds_def eq split: option.splits if_splits)
    ultimately show ?thesis using ok by (simp add: good_step_def undisturbed_def ran_of_def sig_ok_def eq)
  qed
qed

lemma owner_left:
  assumes "lists_ok s" "calls s k = Some act" "slot_lists s (act_list act) = Some (ows, xs)"
  shows "Local k \<in> ows"
  using lists_okD(4)[OF assms(1,3)] assms(2) by blast

lemma delete_Signal_good:
  assumes ok: "sig_ok s"
  shows "good_step P s (delete_Signal s)"
proof (cases "signal_alive s")
  case False
  then show ?thesis using ok by (simp add: delete_Signal_def good_step_same)
next
  case True
  have ok': "lists_ok s" "field_ok s" "calls_ok s" "slots_ok s" "past_ok s" using ok by (simp_all add: sig_ok_def)
  obtain ows xs where l: "slot_lists s (impl_slots s) = Some (ows, xs)" using ok'(2) True by (auto simp: field_ok_def)
  define L where "L = (slot_lists s)(impl_slots s := if ows - {Field} = {} then None else Some (ows - {Field}, xs))"
  have eq: "delete_Signal s = s\<lparr>slot_lists := L, signal_alive := False\<rparr>"
    using True l by (simp add: delete_Signal_def release_list_def L_def)
  have keep: "map_option snd (L (act_list act)) = map_option snd (slot_lists s (act_list act))" if "calls s k = Some act" for k act
    using owner_left[OF ok'(1) that, of ows xs] l by (auto simp: L_def)
  have "lists_ok (delete_Signal s)"
    unfolding lists_ok_def eq using lists_okD[OF ok'(1)] l by (auto simp: L_def split: if_splits) blast
  moreover have "calls_ok (delete_Signal s)"
    unfolding calls_ok_def
  proof (intro allI impI)
    fix k act assume a: "calls (delete_Signal s) k = Some act"
    then have c: "calls s k = Some act" by (simp add: eq)
    have "L (act_list act) \<noteq> None" using keep[OF c] calls_okD(2)[OF ok'(3) c] by (metis option.distinct(1) option.map_disc_iff)
    then show "call_ok (delete_Signal s) k act"
      using calls_okD[OF ok'(3) c] by (simp add: eq domIff)
  qed
  moreover have "field_ok (delete_Signal s)" "slots_ok (delete_Signal s)"
    using ok'(4) by (simp_all add: field_ok_def slots_ok_def eq)
  moreover have "older s (delete_Signal s)" by (simp add: older_def slot_live_def tie_holds_def eq cong: option.case_cong)
  moreover have "going_through k (delete_Signal s) = going_through k s" for k
    using keep by (auto simp: going_through_def eq split: option.splits)
  ultimately show ?thesis using ok'(5) by (simp add: good_step_def sig_ok_def undisturbed_def ran_of_def eq)
qed

lemma erase_expired_filter: "erase_expired p xs = [x \<leftarrow> xs. \<not> p x]"
  by (induction xs) simp_all

text \<open>A change of the signal's list, from a state in which only that list is wrong.\<close>

lemma change_list_ok:
  assumes ok: "lists_ok s" "calls_ok s" "slots_ok s" "past_ok s" and alive: "signal_alive s"
    and l: "slot_lists s (impl_slots s) = Some (ows, xs)"
    and f: "\<And>L a c. f (s\<lparr>slot_lists := L, impl_slots := a, list_count := c\<rparr>) = g"
    and new: "sorted_wrt (<) (g xs)" "set (g xs) \<subseteq> {..<slot_count s}" "dom (slot_impls s) \<subseteq> set (g xs)"
      "destructors s = 0 \<longrightarrow> set (g xs) \<subseteq> dom (slot_impls s)"
  shows "\<exists>s'. rbind (copyOnWrite s) (\<lambda>s. Inr (change_list (f s) s)) = Inr s' \<and> good_step P s s'"
proof -
  obtain L a c s' where r: "rbind (copyOnWrite s) (\<lambda>s. Inr (change_list (f s) s)) = Inr s'"
    "s' = s\<lparr>slot_lists := L, impl_slots := a, list_count := c\<rparr>" "L a = Some ({Field}, g xs)" "lists_ok s'"
    "\<And>k. going_through k s' = going_through k s" "dom (slot_lists s) \<subseteq> dom L"
    using copyOnWrite_ok[OF ok(1,2) alive l, of f g, OF f] by blast
  have "field_ok s'" using new r(2,3) by (simp add: field_ok_def)
  moreover have "calls_ok s'"
    using ok(2) r(6) unfolding calls_ok_def r(2) by (auto simp: subset_eq)
  moreover have "slots_ok s'" using ok(3) by (simp add: slots_ok_def r(2))
  moreover have "older s s'" by (simp add: older_def slot_live_def tie_holds_def r(2) cong: option.case_cong)
  ultimately show ?thesis using ok(4) r(1,4,5) by (auto simp: good_step_def sig_ok_def undisturbed_def ran_of_def r(2))
qed

lemma good_step_older:
  "older s s1 \<Longrightarrow> (\<And>k. P k \<Longrightarrow> undisturbed k s s1) \<Longrightarrow> good_step P s1 s' \<Longrightarrow> good_step P s s'"
  by (fastforce simp: good_step_def older_def undisturbed_def)

lemma delete_SlotImpl_good:
  assumes ok: "sig_ok s"
  shows "\<exists>s'. delete_SlotImpl s = Inr s' \<and> good_step P s s'"
proof (cases "destructors s = 0")
  case True
  then show ?thesis using ok by (simp add: delete_SlotImpl_def good_step_same)
next
  case False
  let ?s1 = "s\<lparr>destructors := destructors s - 1\<rparr>"
  have ok1: "lists_ok ?s1" "calls_ok ?s1" "slots_ok ?s1" "past_ok ?s1" using ok by (simp_all add: sig_ok_def)
  have old: "older s ?s1" "\<And>k. undisturbed k s ?s1"
    by (simp_all add: older_def undisturbed_def slot_live_def tie_holds_def ran_of_def cong: option.case_cong)
  have "\<exists>s'. delete_SlotImpl s = Inr s' \<and> good_step P ?s1 s'"
  proof (cases "signal_alive s")
    case dead: False
    then have "sig_ok ?s1" using ok1 by (simp add: sig_ok_def field_ok_def)
    then show ?thesis using False dead by (simp add: delete_SlotImpl_def good_step_same)
  next
    case True
    then obtain ows xs where l: "slot_lists ?s1 (impl_slots ?s1) = Some (ows, xs)" "sorted_wrt (<) xs"
      "set xs \<subseteq> {..<slot_count s}" "dom (slot_impls s) \<subseteq> set xs"
      using ok by (auto simp: sig_ok_def field_ok_def)
    have "\<exists>s'. clean ?s1 = Inr s' \<and> good_step P ?s1 s'"
      unfolding clean_def
      by (rule change_list_ok[OF ok1 _ l(1), where g = "erase_expired (\<lambda>n. slot_impls s n = None)"])
        (use True l(2-4) in \<open>auto simp: erase_expired_filter sorted_wrt_filter\<close>)
    then show ?thesis using False True by (simp add: delete_SlotImpl_def)
  qed
  then show ?thesis using good_step_older[OF old(1)] old(2) by blast
qed

lemma sig_connect_good:
  assumes ok: "sig_ok s" and alive: "signal_alive s"
  shows "\<exists>s'. sig_connect h tie s = Inr s' \<and> good_step P s s'"
proof -
  let ?n = "slot_count s"
  let ?s1 = "s\<lparr>slot_impls := (slot_impls s)(?n \<mapsto> \<lparr>slot_owners = {Handle h}, slot_tie = tie\<rparr>), slot_count := ?n + 1\<rparr>"
  have ok': "lists_ok s" "field_ok s" "calls_ok s" "slots_ok s" "past_ok s" using ok by (simp_all add: sig_ok_def)
  obtain ows xs where l: "slot_lists ?s1 (impl_slots ?s1) = Some (ows, xs)" "sorted_wrt (<) xs"
    "set xs \<subseteq> {..<slot_count s}" "dom (slot_impls s) \<subseteq> set xs" "destructors s = 0 \<longrightarrow> set xs \<subseteq> dom (slot_impls s)"
    using ok'(2) alive by (auto simp: field_ok_def)
  have fresh: "slot_impls s ?n = None" using l(3,4) by auto
  have ok1: "lists_ok ?s1" "calls_ok ?s1" "slots_ok ?s1" "past_ok ?s1"
    using ok' fresh by (simp, fastforce simp: calls_ok_def, fastforce simp: slots_ok_def less_SucI, simp)
  have old: "older s ?s1" "\<And>k. undisturbed k s ?s1"
    by (auto simp: older_def undisturbed_def slot_live_def tie_holds_def ran_of_def split: option.splits)
  have "\<exists>s'. sig_add ?n ?s1 = Inr s' \<and> good_step P ?s1 s'"
    unfolding sig_add_def
    by (rule change_list_ok[OF ok1 _ l(1), where g = "\<lambda>xs. xs @ [?n]"])
      (use alive l(2-5) in \<open>auto simp: sorted_wrt_append less_SucI\<close>)
  then show ?thesis
    using alive good_step_older[OF old(1)] old(2) by (auto simp: sig_connect_def Let_def)
qed

lemma sig_call_good:
  assumes ok: "sig_ok s" and alive: "signal_alive s"
  shows "\<exists>s' xs. sig_call s = Inr s' \<and> good_step (\<lambda>k. k < call_count s) s s' \<and> going_through (call_count s) s' = Some xs
    \<and> (\<exists>ows. slot_lists s (impl_slots s) = Some (ows, xs)) \<and> calls s' (call_count s) = Some \<lparr>act_list = impl_slots s, act_pos = 0, act_slot = None\<rparr>
    \<and> ran_of (call_count s) s' = [] \<and> call_count s' = call_count s + 1 \<and> slot_count s' = slot_count s"
proof -
  have ok': "lists_ok s" "field_ok s" "calls_ok s" "slots_ok s" "past_ok s" using ok by (simp_all add: sig_ok_def)
  obtain ows xs where l: "slot_lists s (impl_slots s) = Some (ows, xs)" using ok'(2) alive by (auto simp: field_ok_def)
  let ?k = "call_count s"
  define act where "act = \<lparr>act_list = impl_slots s, act_pos = 0, act_slot = None\<rparr>"
  define s' where "s' = s\<lparr>slot_lists := (slot_lists s)(impl_slots s \<mapsto> (insert (Local ?k) ows, xs)), call_count := ?k + 1,
    calls := (calls s)(?k \<mapsto> act)\<rparr>"
  have fresh: "calls s ?k = None" using calls_okD(1)[OF ok'(3), of ?k] by (cases "calls s ?k") auto
  have "lists_ok s'"
    unfolding lists_ok_def
  proof (intro allI impI)
    fix a os ys assume a: "slot_lists s' a = Some (os, ys)"
    show "owners_ok s' a os"
    proof (cases "a = impl_slots s")
      case True
      then show ?thesis using a lists_okD[OF ok'(1) l] fresh by (auto simp: s'_def act_def)
    next
      case False
      then show ?thesis using a lists_okD[OF ok'(1), of a os ys] fresh by (auto simp: s'_def act_def)
    qed
  qed
  moreover have "field_ok s'" using ok'(2) l by (simp add: field_ok_def s'_def)
  moreover have "calls_ok s'"
    unfolding calls_ok_def
  proof (intro allI impI)
    fix j b assume b: "calls s' j = Some b"
    show "call_ok s' j b"
    proof (cases "j = ?k")
      case True
      then show ?thesis using b l by (auto simp: s'_def act_def)
    next
      case False
      then have "calls s j = Some b" using b by (simp add: s'_def)
      then show ?thesis using calls_okD[OF ok'(3), of j b] l by (auto simp: s'_def less_SucI)
    qed
  qed
  moreover have "slots_ok s'" using ok'(4) fresh by (fastforce simp: slots_ok_def s'_def)
  moreover have "past_ok s'" using ok'(5) by (auto simp: s'_def less_SucI)
  moreover have "older s s'" by (simp add: older_def slot_live_def tie_holds_def s'_def cong: option.case_cong)
  moreover have "undisturbed k s s'" if "k < ?k" for k
    using that l by (auto simp: undisturbed_def going_through_def ran_of_def s'_def split: option.splits)
  moreover have "going_through ?k s' = Some xs" by (simp add: going_through_def s'_def act_def)
  moreover have "ran_of ?k s' = []" using ok'(5) by (fastforce simp: ran_of_def s'_def filter_empty_conv)
  moreover have "sig_call s = Inr s'" using alive l by (simp add: sig_call_def s'_def act_def Let_def)
  ultimately show ?thesis using l by (intro exI[of _ s'] exI[of _ xs]) (simp add: good_step_def sig_ok_def s'_def act_def)
qed

section \<open>The calls\<close>

text \<open>The part of the list \<open>xs\<close> that call \<open>k\<close> has dealt with, and what it has made of it: it ran some of the
  slots in their order, and all of those that are still live.\<close>

definition done_part :: "nat \<Rightarrow> nat list \<Rightarrow> signal \<Rightarrow> nat list" where
  "done_part k xs s = (case calls s k of None \<Rightarrow> xs
     | Some act \<Rightarrow> take (if act_slot act = None then act_pos act else act_pos act + 1) xs)"

definition ran_right :: "nat list \<Rightarrow> nat list \<Rightarrow> signal \<Rightarrow> bool" where
  "ran_right ns xs s \<longleftrightarrow> subseq ns xs \<and> (\<forall>n \<in> set xs. slot_live s n \<longrightarrow> n \<in> set ns)"

definition call_inv :: "signal \<Rightarrow> nat \<Rightarrow> nat list \<Rightarrow> signal \<Rightarrow> bool" where
  "call_inv s0 k xs s \<longleftrightarrow> older s0 s \<and> k < call_count s \<and> set xs \<subseteq> {..<slot_count s0}
     \<and> (\<forall>act. calls s k = Some act \<longrightarrow> going_through k s = Some xs \<and> (act_slot act \<noteq> None \<longrightarrow> act_pos act < length xs))
     \<and> ran_right (ran_of k s) (done_part k xs s) s \<and> (\<forall>n \<in> set (ran_of k s). slot_live s0 n)"

lemma older_trans: "older s0 s \<Longrightarrow> older s s' \<Longrightarrow> older s0 s'"
  unfolding older_def by (meson order.strict_trans2 order.trans)

lemma older_set: "older s0 s \<Longrightarrow> X \<subseteq> {..<slot_count s0} \<Longrightarrow> X \<subseteq> {..<slot_count s}"
  unfolding older_def by (meson lessThan_subset_iff order.trans)

lemma done_part_subset: "set (done_part k xs s) \<subseteq> set xs"
  by (auto simp: done_part_def dest: in_set_takeD split: option.splits)

lemma ran_right_older:
  "ran_right ns ys s \<Longrightarrow> older s s' \<Longrightarrow> set ys \<subseteq> {..<slot_count s} \<Longrightarrow> ran_right ns ys s'"
  unfolding ran_right_def older_def by blast

lemma call_inv_undisturbed:
  assumes inv: "call_inv s0 k xs s" and old: "older s s'" and u: "undisturbed k s s'"
  shows "call_inv s0 k xs s'"
proof -
  have same: "done_part k xs s' = done_part k xs s" "ran_of k s' = ran_of k s"
    using u by (simp_all add: done_part_def undisturbed_def)
  have "set (done_part k xs s) \<subseteq> {..<slot_count s}"
    using inv done_part_subset older_set unfolding call_inv_def by (meson order.trans)
  then have "ran_right (ran_of k s') (done_part k xs s') s'"
    using inv ran_right_older[OF _ old] same by (simp add: call_inv_def)
  moreover have "older s0 s'" using inv older_trans[OF _ old] by (simp add: call_inv_def)
  ultimately show ?thesis using inv old u same by (auto simp: call_inv_def older_def undisturbed_def)
qed

text \<open>A turn that invokes nothing, or the slot \<open>n\<close>.\<close>

lemma call_inv_turn:
  assumes inv: "call_inv s0 k xs s" and old: "older s s'" and act: "calls s k = Some act" "act_slot act = None"
    and pos: "act_pos act < length xs" and act': "calls s' k = Some act'"
      "(if act_slot act' = None then act_pos act' else act_pos act' + 1) = act_pos act + 1"
      "act_slot act' \<noteq> None \<longrightarrow> act_pos act' < length xs"
    and l: "going_through k s' = going_through k s"
    and r: "ran_of k s' = ran_of k s \<and> \<not> slot_live s (xs ! act_pos act)
      \<or> ran_of k s' = ran_of k s @ [xs ! act_pos act] \<and> slot_live s (xs ! act_pos act)"
  shows "call_inv s0 k xs s'"
proof -
  have old0: "older s0 s" and old': "older s0 s'" using inv older_trans[OF _ old] by (simp_all add: call_inv_def)
  have n: "xs ! act_pos act < slot_count s0" using inv nth_mem[OF pos] by (auto simp: call_inv_def)
  have "done_part k xs s' = done_part k xs s @ [xs ! act_pos act]"
    using act act'(1,2) pos by (simp add: done_part_def take_Suc_conv_app_nth)
  moreover have "ran_right (ran_of k s) (done_part k xs s) s" using inv by (simp add: call_inv_def)
  then have "ran_right (ran_of k s') (done_part k xs s @ [xs ! act_pos act]) s"
    using r by (auto simp: ran_right_def subseq_append intro: subseq_order.trans)
  moreover have "set (done_part k xs s @ [xs ! act_pos act]) \<subseteq> {..<slot_count s0}"
    using inv done_part_subset[of k xs s] n unfolding call_inv_def by auto
  ultimately have "ran_right (ran_of k s') (done_part k xs s') s'"
    using ran_right_older[OF _ old older_set[OF old0]] by simp
  moreover have "slot_live s0 (xs ! act_pos act)" if "slot_live s (xs ! act_pos act)"
    using old0 n that by (simp add: older_def)
  ultimately show ?thesis using inv old old' act act' l r by (auto simp: call_inv_def older_def)
qed

lemma calls_update_ok:
  assumes "calls s k = Some act" "act_list act' = act_list act"
  shows "lists_ok (s\<lparr>calls := (calls s)(k \<mapsto> act')\<rparr>) = lists_ok s"
    "going_through j (s\<lparr>calls := (calls s)(k \<mapsto> act')\<rparr>) = going_through j s"
proof -
  have "(\<exists>b. ((calls s)(k \<mapsto> act')) j = Some b \<and> act_list b = a) \<longleftrightarrow> (\<exists>b. calls s j = Some b \<and> act_list b = a)" for j a
    using assms by auto
  then show "lists_ok (s\<lparr>calls := (calls s)(k \<mapsto> act')\<rparr>) = lists_ok s" by (simp add: lists_ok_def)
  show "going_through j (s\<lparr>calls := (calls s)(k \<mapsto> act')\<rparr>) = going_through j s"
    using assms by (cases "j = k") (simp_all add: going_through_def cong: option.case_cong)
qed

text \<open>The loop moves on without a callback.\<close>

lemma turn_skip:
  assumes ok: "sig_ok s" and act: "calls s k = Some act" "act_slot act = None"
  shows "good_step (\<lambda>j. j \<noteq> k) s (s\<lparr>calls := (calls s)(k \<mapsto> act\<lparr>act_pos := p\<rparr>)\<rparr>)" (is "good_step _ s ?s'")
proof -
  have ok': "lists_ok s" "field_ok s" "calls_ok s" "slots_ok s" "past_ok s" using ok by (simp_all add: sig_ok_def)
  have "calls_ok ?s'"
    unfolding calls_ok_def
  proof (intro allI impI)
    fix j b assume b: "calls ?s' j = Some b"
    show "call_ok ?s' j b"
    proof (cases "j = k")
      case True
      then have "b = act\<lparr>act_pos := p\<rparr>" using b by simp
      then show ?thesis using calls_okD(1,2)[OF ok'(3) act(1)] act(2) True by auto
    next
      case False
      then have "calls s j = Some b" using b by simp
      then show ?thesis using calls_okD[OF ok'(3), of j b] by auto
    qed
  qed
  moreover have "slots_ok ?s'" using ok'(4) act unfolding slots_ok_def by fastforce
  moreover have "older s ?s'" by (simp add: older_def slot_live_def tie_holds_def cong: option.case_cong)
  moreover have "lists_ok ?s'" "\<And>j. going_through j ?s' = going_through j s"
    using calls_update_ok(1,2)[of s k act "act\<lparr>act_pos := p\<rparr>"] act(1) ok'(1) by simp_all
  ultimately show ?thesis using ok' by (simp add: good_step_def sig_ok_def undisturbed_def ran_of_def)
qed

text \<open>The loop has come to its end.\<close>

lemma turn_end:
  assumes ok: "sig_ok s" and act: "calls s k = Some act" "act_slot act = None"
  shows "good_step (\<lambda>j. j \<noteq> k) s ((release_list (Local k) (act_list act) s)\<lparr>calls := (calls s)(k := None)\<rparr>)"
proof -
  have ok': "lists_ok s" "field_ok s" "calls_ok s" "slots_ok s" "past_ok s" using ok by (simp_all add: sig_ok_def)
  obtain ows xs where l: "slot_lists s (act_list act) = Some (ows, xs)" using calls_okD(2)[OF ok'(3) act(1)] by blast
  define L where "L = (slot_lists s)(act_list act := if ows - {Local k} = {} then None else Some (ows - {Local k}, xs))"
  define s' where "s' = s\<lparr>slot_lists := L, calls := (calls s)(k := None)\<rparr>"
  have eq: "(release_list (Local k) (act_list act) s)\<lparr>calls := (calls s)(k := None)\<rparr> = s'"
    using l by (simp add: release_list_def L_def s'_def)
  have keep: "map_option snd (L (act_list b)) = map_option snd (slot_lists s (act_list b))" if "calls s j = Some b" "j \<noteq> k" for j b
    using owner_left[OF ok'(1) that(1), of ows xs] l that(2) by (auto simp: L_def)
  have "lists_ok s'"
    unfolding lists_ok_def
  proof (intro allI impI)
    fix a os ys assume a: "slot_lists s' a = Some (os, ys)"
    show "owners_ok s' a os"
    proof (cases "a = act_list act")
      case True
      then have "os = ows - {Local k}" "ows - {Local k} \<noteq> {}" using a by (auto simp: s'_def L_def split: if_splits)
      then show ?thesis using True lists_okD[OF ok'(1) l] act(1) by (auto simp: s'_def)
    next
      case False
      then have "slot_lists s a = Some (os, ys)" using a by (simp add: s'_def L_def)
      then show ?thesis using False lists_okD[OF ok'(1), of a os ys] act(1) by (auto simp: s'_def)
    qed
  qed
  moreover have "field_ok s'"
  proof (cases "signal_alive s \<and> act_list act = impl_slots s")
    case True
    then have "Field \<in> ows" using lists_okD(3)[OF ok'(1) l] by simp
    then have "L (impl_slots s) = Some (ows - {Local k}, xs)" using True by (auto simp: L_def)
    then show ?thesis using ok'(2) l True by (auto simp: field_ok_def s'_def)
  next
    case False
    then show ?thesis using ok'(2) by (auto simp: field_ok_def s'_def L_def)
  qed
  moreover have "calls_ok s'"
    unfolding calls_ok_def
  proof (intro allI impI)
    fix j b assume "calls s' j = Some b"
    then have b: "calls s j = Some b" "j \<noteq> k" by (auto simp: s'_def split: if_splits)
    have "L (act_list b) \<noteq> None" using keep[OF b] calls_okD(2)[OF ok'(3) b(1)] by (metis option.distinct(1) option.map_disc_iff)
    then show "call_ok s' j b" using calls_okD[OF ok'(3) b(1)] by (simp add: s'_def domIff)
  qed
  moreover have "slots_ok s'" using ok'(4) act unfolding slots_ok_def s'_def by fastforce
  moreover have "older s s'" by (simp add: older_def slot_live_def tie_holds_def s'_def cong: option.case_cong)
  moreover have "going_through j s' = going_through j s" if "j \<noteq> k" for j
    using keep that by (auto simp: going_through_def s'_def split: option.splits)
  ultimately show ?thesis using ok'(5) unfolding eq by (simp add: good_step_def sig_ok_def undisturbed_def ran_of_def s'_def)
qed

text \<open>The loop invokes a callback, with the slot and its tie locked.\<close>

definition with_tie :: "owner \<Rightarrow> nat option \<Rightarrow> (nat \<Rightarrow> owner set) \<Rightarrow> nat \<Rightarrow> owner set" where
  "with_tie who tie T = (case tie of None \<Rightarrow> T | Some t \<Rightarrow> T(t := insert who (T t)))"

definition without_tie :: "owner \<Rightarrow> nat option \<Rightarrow> (nat \<Rightarrow> owner set) \<Rightarrow> nat \<Rightarrow> owner set" where
  "without_tie who tie T = (case tie of None \<Rightarrow> T | Some t \<Rightarrow> T(t := T t - {who}))"

lemma take_tie_eq: "take_tie who tie s = s\<lparr>tie_owners := with_tie who tie (tie_owners s)\<rparr>"
  by (simp add: take_tie_def with_tie_def split: option.split)

lemma release_tie_eq: "release_tie who tie s = s\<lparr>tie_owners := without_tie who tie (tie_owners s)\<rparr>"
  by (simp add: release_tie_def without_tie_def split: option.split)

lemma turn_invoke:
  assumes ok: "sig_ok s" and act: "calls s k = Some act" "act_slot act = None"
    and slot: "slot_impls s n = Some slot" "tie_holds (slot_tie slot) s"
  shows "good_step (\<lambda>j. j \<noteq> k) s (take_tie (Local k) (slot_tie slot)
    (s\<lparr>slot_impls := (slot_impls s)(n \<mapsto> slot\<lparr>slot_owners := insert (Local k) (slot_owners slot)\<rparr>),
       calls := (calls s)(k \<mapsto> act\<lparr>act_slot := Some n\<rparr>), invoked := invoked s @ [(k, n)]\<rparr>))"
proof -
  have ok': "lists_ok s" "field_ok s" "calls_ok s" "slots_ok s" "past_ok s" using ok by (simp_all add: sig_ok_def)
  define c where "c = s\<lparr>calls := (calls s)(k \<mapsto> act\<lparr>act_slot := Some n\<rparr>)\<rparr>"
  define s' where "s' = c\<lparr>slot_impls := (slot_impls s)(n \<mapsto> slot\<lparr>slot_owners := insert (Local k) (slot_owners slot)\<rparr>),
    invoked := invoked s @ [(k, n)], tie_owners := with_tie (Local k) (slot_tie slot) (tie_owners s)\<rparr>"
  have eq: "take_tie (Local k) (slot_tie slot)
    (s\<lparr>slot_impls := (slot_impls s)(n \<mapsto> slot\<lparr>slot_owners := insert (Local k) (slot_owners slot)\<rparr>),
       calls := (calls s)(k \<mapsto> act\<lparr>act_slot := Some n\<rparr>), invoked := invoked s @ [(k, n)]\<rparr>) = s'"
    by (simp add: take_tie_eq s'_def c_def)
  have c: "lists_ok c" "\<And>j. going_through j c = going_through j s"
    using calls_update_ok[of s k act "act\<lparr>act_slot := Some n\<rparr>"] act(1) ok'(1) by (simp_all add: c_def)
  have tie: "tie_owners s t \<subseteq> with_tie (Local k) (slot_tie slot) (tie_owners s) t"
    "slot_tie slot = Some t \<Longrightarrow> Local k \<in> with_tie (Local k) (slot_tie slot) (tie_owners s) t"
    "with_tie (Local k) (slot_tie slot) (tie_owners s) t \<noteq> {} \<Longrightarrow> tie_owners s t \<noteq> {}" for t
    using slot(2) by (auto simp: with_tie_def tie_holds_def split: option.splits if_splits)
  have "dom (slot_impls s') = dom (slot_impls s)" using slot(1) by (auto simp: s'_def)
  then have "field_ok s'" using ok'(2) by (simp add: field_ok_def s'_def c_def)
  moreover have "calls_ok s'"
    unfolding calls_ok_def
  proof (intro allI impI)
    fix j b assume b: "calls s' j = Some b"
    show "call_ok s' j b"
    proof (cases "j = k")
      case True
      then have "b = act\<lparr>act_slot := Some n\<rparr>" using b by (simp add: s'_def c_def)
      then show ?thesis using calls_okD(1,2)[OF ok'(3) act(1)] True tie(2) by (auto simp: s'_def c_def)
    next
      case False
      then have "calls s j = Some b" using b by (simp add: s'_def c_def)
      then show ?thesis using calls_okD[OF ok'(3), of j b] slot(1) tie(1) by (fastforce simp: s'_def c_def)
    qed
  qed
  moreover have "slots_ok s'"
    unfolding slots_ok_def
  proof (intro allI impI)
    fix m sl assume m: "slot_impls s' m = Some sl"
    show "slot_ok s' m sl"
    proof (cases "m = n")
      case True
      then have "sl = slot\<lparr>slot_owners := insert (Local k) (slot_owners slot)\<rparr>" using m by (simp add: s'_def)
      moreover have "slot_ok s' n (slot\<lparr>slot_owners := insert (Local k) (slot_owners slot)\<rparr>)"
        by (rule slot_okI[OF ok'(4) slot(1)]) (use slots_okD(3)[OF ok'(4) slot(1)] in \<open>auto simp: s'_def c_def\<close>)
      ultimately show ?thesis using True by simp
    next
      case False
      then have sl: "slot_impls s m = Some sl" using m by (simp add: s'_def)
      have "Local k \<notin> slot_owners sl" using slots_okD(4)[OF ok'(4) sl, of k] act by auto
      then have "slot_ok s' m (sl\<lparr>slot_owners := slot_owners sl\<rparr>)"
        by (intro slot_okI[OF ok'(4) sl]) (use slots_okD(2,3)[OF ok'(4) sl] in \<open>auto simp: s'_def c_def\<close>)
      then show ?thesis by simp
    qed
  qed
  moreover have "past_ok s'" using ok'(5) calls_okD(1)[OF ok'(3) act(1)] by (auto simp: s'_def c_def)
  moreover have "older s s'"
    using slot(1) tie(3) by (auto simp: older_def slot_live_def tie_holds_def s'_def c_def split: option.splits if_splits)
  ultimately show ?thesis
    unfolding eq using c by (simp add: good_step_def sig_ok_def undisturbed_def ran_of_def s'_def) (simp add: c_def)
qed

text \<open>A callback returns.\<close>

lemma return_good:
  assumes ok: "sig_ok s" and act: "calls s k = Some act" "act_slot act = Some n"
  shows "good_step (\<lambda>j. j \<noteq> k) s (call_return k s) \<and> going_through k (call_return k s) = going_through k s
    \<and> ran_of k (call_return k s) = ran_of k s \<and> calls (call_return k s) k = Some (act\<lparr>act_slot := None, act_pos := act_pos act + 1\<rparr>)"
proof -
  have ok': "lists_ok s" "field_ok s" "calls_ok s" "slots_ok s" "past_ok s" using ok by (simp_all add: sig_ok_def)
  obtain slot where slot: "slot_impls s n = Some slot" using calls_okD(3)[OF ok'(3) act] by blast
  define act' where "act' = act\<lparr>act_slot := None, act_pos := act_pos act + 1\<rparr>"
  define c where "c = s\<lparr>calls := (calls s)(k \<mapsto> act')\<rparr>"
  define os where "os = slot_owners slot - {Local k}"
  define M where "M = (slot_impls s)(n := if os = {} then None else Some (slot\<lparr>slot_owners := os\<rparr>))"
  define s' where "s' = c\<lparr>slot_impls := M, destructors := (if os = {} then destructors s + 1 else destructors s),
    tie_owners := without_tie (Local k) (slot_tie slot) (tie_owners s)\<rparr>"
  have eq: "call_return k s = s'"
    using act slot by (simp add: call_return_def release_slot_def release_tie_eq s'_def c_def M_def os_def act'_def Let_def)
  have c: "lists_ok c" "\<And>j. going_through j c = going_through j s"
    using calls_update_ok[of s k act act'] act(1) ok'(1) by (simp_all add: c_def act'_def)
  have tie: "without_tie (Local k) (slot_tie slot) (tie_owners s) t \<subseteq> tie_owners s t"
    "j \<noteq> k \<Longrightarrow> Local j \<in> tie_owners s t \<Longrightarrow> Local j \<in> without_tie (Local k) (slot_tie slot) (tie_owners s) t" for t j
    by (auto simp: without_tie_def split: option.splits)
  have "field_ok s'" using ok'(2) slot by (force simp: field_ok_def s'_def c_def M_def)
  moreover have "calls_ok s'"
    unfolding calls_ok_def
  proof (intro allI impI)
    fix j b assume b: "calls s' j = Some b"
    show "call_ok s' j b"
    proof (cases "j = k")
      case True
      then have "b = act'" using b by (simp add: s'_def c_def)
      then show ?thesis using calls_okD(1,2)[OF ok'(3) act(1)] True by (auto simp: s'_def c_def act'_def)
    next
      case False
      then have "calls s j = Some b" using b by (simp add: s'_def c_def)
      then show ?thesis using calls_okD[OF ok'(3), of j b] slot tie(2)[OF False] False
        by (fastforce simp: s'_def c_def M_def os_def)
    qed
  qed
  moreover have "slots_ok s'"
    unfolding slots_ok_def
  proof (intro allI impI)
    fix m sl assume m: "slot_impls s' m = Some sl"
    show "slot_ok s' m sl"
    proof (cases "m = n")
      case True
      then have "sl = slot\<lparr>slot_owners := os\<rparr>" "os \<noteq> {}" using m by (auto simp: s'_def M_def split: if_splits)
      then show ?thesis using slots_okD[OF ok'(4) slot] True by (auto simp: s'_def c_def os_def)
    next
      case False
      then have sl: "slot_impls s m = Some sl" using m by (simp add: s'_def M_def)
      have "Local k \<notin> slot_owners sl" using slots_okD(4)[OF ok'(4) sl, of k] act False by auto
      then have "slot_ok s' m (sl\<lparr>slot_owners := slot_owners sl\<rparr>)"
        by (intro slot_okI[OF ok'(4) sl]) (use slots_okD(2,3)[OF ok'(4) sl] in \<open>auto simp: s'_def c_def\<close>)
      then show ?thesis by simp
    qed
  qed
  moreover have "older s s'"
    using slot tie(1) by (fastforce simp: older_def slot_live_def tie_holds_def s'_def c_def M_def split: option.splits if_splits)
  moreover have "past_ok s'" using ok'(5) by (simp add: s'_def c_def)
  ultimately show ?thesis
    unfolding eq using c by (simp add: good_step_def sig_ok_def undisturbed_def ran_of_def s'_def) (simp add: c_def act'_def)
qed

lemma call_inv_end:
  assumes ok: "sig_ok s" and act: "calls s k = Some act" "act_slot act = None"
    and inv: "call_inv s0 k xs s" and pos: "\<not> act_pos act < length xs"
  shows "call_inv s0 k xs ((release_list (Local k) (act_list act) s)\<lparr>calls := (calls s)(k := None)\<rparr>)" (is "call_inv s0 k xs ?s'")
proof -
  have good: "good_step (\<lambda>j. j \<noteq> k) s ?s'" by (rule turn_end[OF ok act])
  have new: "calls ?s' k = None" "ran_of k ?s' = ran_of k s" by (simp_all add: ran_of_def release_list_def split: option.split)
  have part: "done_part k xs ?s' = done_part k xs s" using new(1) act pos by (simp add: done_part_def)
  have "older s0 s" "set xs \<subseteq> {..<slot_count s0}" using inv by (simp_all add: call_inv_def)
  then have "set (done_part k xs s) \<subseteq> {..<slot_count s}" using done_part_subset older_set by (meson order.trans)
  then have "ran_right (ran_of k ?s') (done_part k xs ?s') ?s'"
    using inv good ran_right_older[of _ _ s ?s'] unfolding part new(2) by (simp add: call_inv_def good_step_def)
  moreover have "older s0 ?s'" using inv good older_trans[of s0 s ?s'] by (simp add: call_inv_def good_step_def)
  moreover have "call_count s \<le> call_count ?s'" using good by (simp add: good_step_def older_def)
  ultimately show ?thesis using inv new by (simp add: call_inv_def)
qed

lemma call_turn_ok:
  assumes ok: "sig_ok s"
  shows "\<exists>s'. call_turn k s = Inr s' \<and> good_step (\<lambda>j. j \<noteq> k) s s' \<and> (\<forall>s0 xs. call_inv s0 k xs s \<longrightarrow> call_inv s0 k xs s')"
proof (cases "\<exists>act. calls s k = Some act \<and> act_slot act = None")
  case False
  then have "call_turn k s = Inr s" by (auto simp: call_turn_def split: option.splits)
  then show ?thesis using ok by (simp add: good_step_same)
next
  case True
  then obtain act where act: "calls s k = Some act" "act_slot act = None" by blast
  obtain ows ys where l: "slot_lists s (act_list act) = Some (ows, ys)"
    using calls_okD(2)[of s k act] ok act(1) by (auto simp: sig_ok_def)
  have ys: "xs = ys" if "call_inv s0 k xs s" for s0 xs
    using that act(1) l by (simp add: call_inv_def going_through_def)
  let ?n = "ys ! act_pos act"
  show ?thesis
  proof (cases "act_pos act < length ys")
    case pos: True
    show ?thesis
    proof (cases "slot_live s ?n")
      case alive: True
      then obtain slot where slot: "slot_impls s ?n = Some slot" "tie_holds (slot_tie slot) s" by (auto simp: slot_live_def)
      obtain s' where s': "call_turn k s = Inr s'" "s' = take_tie (Local k) (slot_tie slot)
          (s\<lparr>slot_impls := (slot_impls s)(?n \<mapsto> slot\<lparr>slot_owners := insert (Local k) (slot_owners slot)\<rparr>),
             calls := (calls s)(k \<mapsto> act\<lparr>act_slot := Some ?n\<rparr>), invoked := invoked s @ [(k, ?n)]\<rparr>)"
        using act l pos slot by (simp add: call_turn_def Let_def)
      have good: "good_step (\<lambda>j. j \<noteq> k) s s'" unfolding s'(2) by (rule turn_invoke[OF ok act slot])
      have new: "calls s' k = Some (act\<lparr>act_slot := Some ?n\<rparr>)" "going_through k s' = Some ys" "ran_of k s' = ran_of k s @ [?n]"
        using l by (simp_all add: s'(2) take_tie_eq going_through_def ran_of_def)
      have "call_inv s0 k xs s'" if "call_inv s0 k xs s" for s0 xs
        by (rule call_inv_turn[OF that _ act _ new(1)])
          (use good new alive pos ys[OF that] act l in \<open>auto simp: good_step_def going_through_def\<close>)
      then show ?thesis using s'(1) good by blast
    next
      case dead: False
      let ?s' = "s\<lparr>calls := (calls s)(k \<mapsto> act\<lparr>act_pos := act_pos act + 1\<rparr>)\<rparr>"
      have eq: "call_turn k s = Inr ?s'"
        using act l pos dead by (auto simp: call_turn_def slot_live_def Let_def split: option.splits)
      have good: "good_step (\<lambda>j. j \<noteq> k) s ?s'" by (rule turn_skip[OF ok act])
      have new: "calls ?s' k = Some (act\<lparr>act_pos := act_pos act + 1\<rparr>)" "going_through k ?s' = Some ys" "ran_of k ?s' = ran_of k s"
        using l by (simp_all add: going_through_def ran_of_def)
      have "call_inv s0 k xs ?s'" if "call_inv s0 k xs s" for s0 xs
        by (rule call_inv_turn[OF that _ act _ new(1)])
          (use good new dead pos ys[OF that] act l in \<open>auto simp: good_step_def going_through_def\<close>)
      then show ?thesis using eq good by blast
    qed
  next
    case False
    have "call_turn k s = Inr ((release_list (Local k) (act_list act) s)\<lparr>calls := (calls s)(k := None)\<rparr>)"
      using act l False by (simp add: call_turn_def)
    then show ?thesis using turn_end[OF ok act] call_inv_end[OF ok act] False ys by auto
  qed
qed

lemma call_return_ok:
  assumes ok: "sig_ok s"
  shows "good_step (\<lambda>j. j \<noteq> k) s (call_return k s) \<and> (\<forall>s0 xs. call_inv s0 k xs s \<longrightarrow> call_inv s0 k xs (call_return k s))"
proof (cases "\<exists>act n. calls s k = Some act \<and> act_slot act = Some n")
  case False
  then have "call_return k s = s" by (auto simp: call_return_def split: option.splits)
  then show ?thesis using ok by (simp add: good_step_same)
next
  case True
  then obtain act n where act: "calls s k = Some act" "act_slot act = Some n" by blast
  define s' where "s' = call_return k s"
  note r = return_good[OF ok act, folded s'_def]
  have part: "done_part k xs s' = done_part k xs s" for xs using r act by (simp add: done_part_def)
  have "call_inv s0 k xs s'" if inv: "call_inv s0 k xs s" for s0 xs
  proof -
    have "set (done_part k xs s) \<subseteq> {..<slot_count s}"
      using inv done_part_subset older_set unfolding call_inv_def by (meson order.trans)
    then have "ran_right (ran_of k s') (done_part k xs s') s'"
      using inv r ran_right_older[of _ _ s s'] by (simp add: part call_inv_def good_step_def)
    moreover have "older s0 s'" using inv r older_trans[of s0 s s'] by (simp add: call_inv_def good_step_def)
    moreover have "call_count s \<le> call_count s'" using r by (simp add: good_step_def older_def)
    ultimately show ?thesis using inv r act by (simp add: call_inv_def)
  qed
  then show ?thesis using r by (simp add: s'_def)
qed

text \<open>A use of the signal after its end.\<close>

definition uses_deleted :: "signal result \<Rightarrow> bool" where
  "uses_deleted r \<longleftrightarrow> r = Inl (Undefined 140) \<or> r = Inl (Undefined 173)"

lemma sig_do_ok:
  assumes ok: "sig_ok s"
  shows "\<not> signal_alive s \<and> uses_deleted (sig_do e s)
    \<or> (\<exists>s'. sig_do e s = Inr s' \<and> sig_ok s' \<and> (\<forall>s0 k xs. call_inv s0 k xs s \<longrightarrow> call_inv s0 k xs s'))"
proof -
  have all: "\<forall>s0 k xs. call_inv s0 k xs s \<longrightarrow> call_inv s0 k xs s'" if "good_step (\<lambda>k. k < call_count s) s s'" for s'
  proof (intro allI impI)
    fix s0 k xs assume inv: "call_inv s0 k xs s"
    then have "k < call_count s" by (simp add: call_inv_def)
    then show "call_inv s0 k xs s'" using that call_inv_undisturbed[OF inv] by (simp add: good_step_def)
  qed
  have about: "call_inv s0 j xs s'" if "good_step (\<lambda>j. j \<noteq> k) s s'" "\<And>s0 xs. call_inv s0 k xs s \<Longrightarrow> call_inv s0 k xs s'"
    "call_inv s0 j xs s" for s0 j xs k s'
    using that call_inv_undisturbed[OF that(3)] by (cases "j = k") (auto simp: good_step_def)
  have fin: ?thesis if "\<exists>s'. sig_do e s = Inr s' \<and> good_step (\<lambda>k. k < call_count s) s s'"
  proof -
    from that obtain s' where s': "sig_do e s = Inr s'" "good_step (\<lambda>k. k < call_count s) s s'" by blast
    then show ?thesis using all[OF s'(2)] unfolding good_step_def by blast
  qed
  show ?thesis
  proof (cases e)
    case (Connect h tie)
    then show ?thesis
      using fin sig_connect_good[OF ok] by (cases "signal_alive s") (auto simp: uses_deleted_def sig_connect_def)
  next
    case Begin_call
    then show ?thesis using fin sig_call_good[OF ok] by (cases "signal_alive s") (auto simp: uses_deleted_def sig_call_def)
  next
    case (Turn k)
    obtain s' where s': "call_turn k s = Inr s'" "good_step (\<lambda>j. j \<noteq> k) s s'" "\<And>s0 xs. call_inv s0 k xs s \<Longrightarrow> call_inv s0 k xs s'"
      using call_turn_ok[OF ok] by blast
    then show ?thesis using Turn about[OF s'(2,3)] by (auto simp: good_step_def)
  next
    case (Return k)
    obtain s' where s': "call_return k s = s'" "good_step (\<lambda>j. j \<noteq> k) s s'" "\<And>s0 xs. call_inv s0 k xs s \<Longrightarrow> call_inv s0 k xs s'"
      using call_return_ok[OF ok] by blast
    then show ?thesis using Return about[OF s'(2,3)] by (auto simp: good_step_def)
  next
    case Clean
    then show ?thesis using fin delete_SlotImpl_good[OF ok] by simp
  next
    case Delete_signal
    then show ?thesis using fin delete_Signal_good[OF ok] by simp
  next
    case (Copy_slot n h h')
    then show ?thesis using fin copy_slot_good[OF ok] by simp
  next
    case (Drop_slot n h)
    then show ?thesis using fin release_slot_good[OF ok] by simp
  next
    case (Copy_tie t h h')
    then show ?thesis using fin copy_tie_good[OF ok] by simp
  next
    case (Drop_tie t h)
    then show ?thesis using fin release_tie_good[OF ok] by simp
  qed
qed

lemma sig_run_ok:
  "sig_ok s \<Longrightarrow> uses_deleted (for_each sig_do es s)
    \<or> (\<exists>s'. for_each sig_do es s = Inr s' \<and> sig_ok s' \<and> (\<forall>s0 k xs. call_inv s0 k xs s \<longrightarrow> call_inv s0 k xs s'))"
proof (induction es arbitrary: s)
  case (Cons e es)
  show ?case
  proof (cases "uses_deleted (sig_do e s)")
    case True
    then show ?thesis by (auto simp: uses_deleted_def)
  next
    case False
    then obtain s1 where s1: "sig_do e s = Inr s1" "sig_ok s1" "\<And>s0 k xs. call_inv s0 k xs s \<Longrightarrow> call_inv s0 k xs s1"
      using sig_do_ok[OF Cons.prems, of e] by blast
    then show ?thesis using Cons.IH[OF s1(2)] by auto
  qed
qed simp

lemma new_Signal_ok: "sig_ok (new_Signal ties)"
  by (simp add: sig_ok_def lists_ok_def field_ok_def calls_ok_def slots_ok_def new_Signal_def)

lemma subseq_sorted: "subseq xs ys \<Longrightarrow> sorted_wrt P ys \<Longrightarrow> sorted_wrt P xs"
  by (induction rule: list_emb.induct) (auto dest: list_emb_set)

lemma alive_kept:
  assumes "sig_do e s = Inr s'" "e \<noteq> Delete_signal"
  shows "signal_alive s' = signal_alive s"
proof -
  have cow: "signal_alive t' = signal_alive t" if "copyOnWrite t = Inr t'" for t t'
    using that by (auto simp: copyOnWrite_def Let_def release_list_def result_simps split: option.splits if_splits prod.splits)
  have chg: "signal_alive (change_list f t) = signal_alive t" for f t by (simp add: change_list_def split: option.split)
  show ?thesis
    using assms
    by (cases e) (auto simp: sig_connect_def sig_add_def sig_call_def call_turn_def call_return_def delete_SlotImpl_def clean_def
        copy_slot_def copy_tie_def take_tie_eq release_tie_eq release_slot_def release_list_def Let_def result_simps chg
        dest!: cow split: option.splits if_splits)
qed

lemma alive_run:
  "for_each sig_do es s = Inr s' \<Longrightarrow> Delete_signal \<notin> set es \<Longrightarrow> signal_alive s' = signal_alive s"
proof (induction es arbitrary: s)
  case (Cons e es)
  then obtain s1 where "sig_do e s = Inr s1" "for_each sig_do es s1 = Inr s'" by (auto simp: result_simps)
  then show ?case using Cons alive_kept[of e s s1] by auto
qed simp

lemma uses_deleted_needs_delete:
  "sig_ok s \<Longrightarrow> signal_alive s \<Longrightarrow> uses_deleted (for_each sig_do es s) \<Longrightarrow> Delete_signal \<in> set es"
proof (induction es arbitrary: s)
  case Nil
  then show ?case by (simp add: uses_deleted_def)
next
  case (Cons e es)
  obtain s1 where s1: "sig_do e s = Inr s1" "sig_ok s1" using sig_do_ok[OF Cons.prems(1), of e] Cons.prems(2) by blast
  show ?case
  proof (cases "e = Delete_signal")
    case False
    then have "signal_alive s1" using alive_kept[OF s1(1)] Cons.prems(2) by simp
    then show ?thesis using Cons.IH[OF s1(2)] Cons.prems(3) s1(1) by simp
  qed simp
qed

section \<open>Properties\<close>

text \<open>C20: Signals are safe under every interleaving of connecting, calling, dropping handles and ties and
  deleting the signal, from callbacks too. No assertion fails and no list or slot is used after it was freed;
  the only failure is the use of a signal that was deleted. A callback that runs has its slot and its
  tie alive; a slot lives exactly as long as it has a handle or its callback runs; and when no
  destructor is at work, the list of the signal is that of the slots that exist, in the order they were
  connected.\<close>

theorem signal_slots_safe:
  "(\<exists>s. for_each sig_do es (new_Signal ties) = Inr s
     \<and> (\<forall>k act n. calls s k = Some act \<and> act_slot act = Some n \<longrightarrow> (\<exists>slot. slot_impls s n = Some slot \<and> tie_holds (slot_tie slot) s))
     \<and> (\<forall>n slot. slot_impls s n = Some slot \<longrightarrow>
          (\<exists>h. Handle h \<in> slot_owners slot) \<or> (\<exists>k act. calls s k = Some act \<and> act_slot act = Some n))
     \<and> (signal_alive s \<and> destructors s = 0 \<longrightarrow>
          (\<exists>ows xs. slot_lists s (impl_slots s) = Some (ows, xs) \<and> sorted_wrt (<) xs \<and> set xs = dom (slot_impls s))))
   \<or> Delete_signal \<in> set es \<and> uses_deleted (for_each sig_do es (new_Signal ties))"
proof (cases "uses_deleted (for_each sig_do es (new_Signal ties))")
  case True
  then show ?thesis using uses_deleted_needs_delete[OF new_Signal_ok] by (simp add: new_Signal_def)
next
  case False
  then obtain s where s: "for_each sig_do es (new_Signal ties) = Inr s" "sig_ok s"
    using sig_run_ok[OF new_Signal_ok] by blast
  have "\<forall>k act n. calls s k = Some act \<and> act_slot act = Some n \<longrightarrow> (\<exists>slot. slot_impls s n = Some slot \<and> tie_holds (slot_tie slot) s)"
    using calls_okD(3)[of s] s(2) by (fastforce simp: sig_ok_def tie_holds_def split: option.splits)
  moreover have "\<forall>n slot. slot_impls s n = Some slot \<longrightarrow>
      (\<exists>h. Handle h \<in> slot_owners slot) \<or> (\<exists>k act. calls s k = Some act \<and> act_slot act = Some n)"
  proof (intro allI impI)
    fix n slot assume slot: "slot_impls s n = Some slot"
    have ok: "slots_ok s" using s(2) by (simp add: sig_ok_def)
    obtain w where w: "w \<in> slot_owners slot" using slots_okD(2)[OF ok slot] by blast
    then show "(\<exists>h. Handle h \<in> slot_owners slot) \<or> (\<exists>k act. calls s k = Some act \<and> act_slot act = Some n)"
      using slots_okD(3,4)[OF ok slot] by (cases w) auto
  qed
  moreover have "signal_alive s \<and> destructors s = 0 \<longrightarrow>
      (\<exists>ows xs. slot_lists s (impl_slots s) = Some (ows, xs) \<and> sorted_wrt (<) xs \<and> set xs = dom (slot_impls s))"
    using s(2) by (auto simp: sig_ok_def field_ok_def)
  ultimately show ?thesis using s(1) by blast
qed

text \<open>C19: A call runs a snapshot of the slots. Whatever other threads and its own callbacks do in the meantime,
  a call that has ended ran callbacks in the order in which they were connected, none twice, and only
  of slots that were there, with their ties, when it began; and it ran all of those that are still there now.\<close>

theorem call_runs_snapshot:
  assumes before: "for_each sig_do es (new_Signal ties) = Inr s0" and start: "sig_do Begin_call s0 = Inr s1"
    and after: "for_each sig_do later s1 = Inr s2" and ended: "calls s2 (call_count s0) = None"
  shows "sorted_wrt (<) (ran_of (call_count s0) s2) \<and> (\<forall>n \<in> set (ran_of (call_count s0) s2). slot_live s0 n)
    \<and> (\<forall>n < slot_count s0. slot_live s2 n \<longrightarrow> n \<in> set (ran_of (call_count s0) s2))"
proof -
  let ?k = "call_count s0"
  have ok: "sig_ok s0" using sig_run_ok[OF new_Signal_ok, of es ties] before by (auto simp: uses_deleted_def)
  have alive: "signal_alive s0" using start by (simp add: sig_call_def result_simps)
  obtain ows xs where l: "slot_lists s0 (impl_slots s0) = Some (ows, xs)" "sorted_wrt (<) xs" "set xs \<subseteq> {..<slot_count s0}"
    "dom (slot_impls s0) \<subseteq> set xs"
    using ok alive by (auto simp: sig_ok_def field_ok_def)
  have s1: "sig_ok s1" "older s0 s1" "going_through ?k s1 = Some xs"
    "calls s1 ?k = Some \<lparr>act_list = impl_slots s0, act_pos = 0, act_slot = None\<rparr>" "ran_of ?k s1 = []" "?k < call_count s1"
    using sig_call_good[OF ok alive] start l(1) by (auto simp: good_step_def)
  have "call_inv s0 ?k xs s1" using s1 l(3) by (simp add: call_inv_def done_part_def ran_right_def)
  then have inv: "call_inv s0 ?k xs s2" using sig_run_ok[OF s1(1), of later] after by (auto simp: uses_deleted_def)
  then have r: "subseq (ran_of ?k s2) xs" "\<forall>n \<in> set xs. slot_live s2 n \<longrightarrow> n \<in> set (ran_of ?k s2)" "older s0 s2"
    "\<forall>n \<in> set (ran_of ?k s2). slot_live s0 n"
    using ended by (simp_all add: call_inv_def done_part_def ran_right_def)
  moreover have "n \<in> set xs" if "n < slot_count s0" "slot_live s2 n" for n
  proof -
    have "slot_live s0 n" using r(3) that by (simp add: older_def)
    then show ?thesis using l(4) by (auto simp: slot_live_def)
  qed
  ultimately show ?thesis using subseq_sorted[OF _ l(2)] by blast
qed

section \<open>Witnesses\<close>

text \<open>A signal with two slots, the second tied to an object that goes while the first callback runs, which
  connects a third slot.\<close>

definition wit_ties :: "nat \<Rightarrow> owner set" where
  "wit_ties t = (if t = 0 then {Handle 9} else {})"

definition wit_before :: "sig_event list" where
  "wit_before = [Connect 1 None, Connect 2 (Some 0)]"

definition wit_during :: "sig_event list" where
  "wit_during = [Turn 0, Connect 3 None, Drop_tie 0 9, Return 0, Turn 0, Turn 0]"

lemmas wit_defs = wit_ties_def wit_before_def wit_during_def new_Signal_def sig_connect_def sig_add_def copyOnWrite_def
  unique_list_def change_list_def sig_call_def call_turn_def call_return_def take_tie_def release_tie_def release_slot_def
  release_list_def tie_holds_def

theorem signal_slots_safe_witness:
  "\<exists>s. for_each sig_do wit_before (new_Signal wit_ties) = Inr s
    \<and> (\<exists>ows xs. slot_lists s (impl_slots s) = Some (ows, xs) \<and> set xs = {0, 1})"
proof -
  have "Delete_signal \<notin> set wit_before" by (simp add: wit_before_def)
  moreover obtain s where s: "for_each sig_do wit_before (new_Signal wit_ties) = Inr s" "signal_alive s" "destructors s = 0"
    "dom (slot_impls s) = {0, 1}"
    by (simp add: wit_defs Let_def) auto
  ultimately show ?thesis using signal_slots_safe[of wit_before wit_ties] by auto
qed

theorem call_runs_snapshot_witness:
  "\<exists>s0 s1 s2. for_each sig_do wit_before (new_Signal wit_ties) = Inr s0 \<and> sig_do Begin_call s0 = Inr s1
    \<and> for_each sig_do wit_during s1 = Inr s2 \<and> ran_of 0 s2 = [0] \<and> slot_live s2 2 \<and> (\<forall>n < 2. slot_live s2 n \<longrightarrow> n \<in> set (ran_of 0 s2))"
proof -
  obtain s0 s1 s2 where s: "for_each sig_do wit_before (new_Signal wit_ties) = Inr s0" "sig_do Begin_call s0 = Inr s1"
    "for_each sig_do wit_during s1 = Inr s2" "call_count s0 = 0" "slot_count s0 = 2" "calls s2 0 = None" "ran_of 0 s2 = [0]" "slot_live s2 2"
    by (simp add: wit_defs ran_of_def slot_live_def Let_def)
  have "calls s2 (call_count s0) = None" using s by simp
  from call_runs_snapshot[OF s(1-3) this] s show ?thesis by auto
qed

end
