(* ===== verification/Threads.thy ===== *)
theory Threads
  imports Fppnet_Prelude "HOL-Library.Word"
begin

text \<open>
  Threads as objects, the thread-local data of \<open>CurrentThread\<close>, and atomic integers:
  src/base/thread/Thread.h, Thread.cpp and Atomic.h. The state is a process: its \<open>Thread\<close> objects
  and its operating-system threads, by their ids. The kernel gives every thread an id that is not 0
  and not that of another; \<open>fork\<close> leaves the calling thread alone in a copy of the process.
\<close>

section \<open>AtomicIntegerT\<close>

text \<open>An operation gives its result and the new value; the compiler's intrinsics are atomic.\<close>

definition atomic_get :: "'w::len word \<Rightarrow> 'w word \<times> 'w word" where
  "atomic_get v = (v, if v = 0 then 0 else v)"

definition getAndAdd :: "'w::len word \<Rightarrow> 'w word \<Rightarrow> 'w word \<times> 'w word" where
  "getAndAdd x v = (v, v + x)"

definition addAndGet :: "'w::len word \<Rightarrow> 'w word \<Rightarrow> 'w word \<times> 'w word" where
  "addAndGet x v = (case getAndAdd x v of (r, v) \<Rightarrow> (r + x, v))"

definition incrementAndGet :: "'w::len word \<Rightarrow> 'w word \<times> 'w word" where
  "incrementAndGet = addAndGet 1"

definition atomic_add :: "'w::len word \<Rightarrow> 'w word \<Rightarrow> 'w word" where
  "atomic_add x v = snd (getAndAdd x v)"

definition atomic_increment :: "'w::len word \<Rightarrow> 'w word" where
  "atomic_increment v = snd (incrementAndGet v)"

definition atomic_decrement :: "'w::len word \<Rightarrow> 'w word" where
  "atomic_decrement v = snd (getAndAdd (- 1) v)"

definition getAndSet :: "'w::len word \<Rightarrow> 'w word \<Rightarrow> 'w word \<times> 'w word" where
  "getAndSet x v = (v, x)"

section \<open>State\<close>

text \<open>\<open>th_os\<close> is the thread that \<open>pthreadId_\<close> stands for, \<open>th_tid\<close> the number \<open>*tid_\<close>.\<close>

record thread_obj =
  th_started :: bool
  th_joined :: bool
  th_os :: nat
  th_tid :: nat
  th_name :: string

record thread_data =
  td_name :: string
  td_obj :: nat

datatype os_pc = Created thread_data | In_func | Exited

record os_thread =
  t_cachedTid :: nat
  t_threadName :: string
  os_pc :: os_pc
  detached :: bool

record process =
  thread_objs :: "nat \<rightharpoonup> thread_obj"
  obj_count :: nat
  os_threads :: "nat \<rightharpoonup> os_thread"
  main_tid :: nat
  threads_created :: "32 word"

text \<open>The start of the program: the initializers of \<open>Thread.cpp\<close> have run in the main thread.\<close>

definition new_process :: "nat \<Rightarrow> process" where
  "new_process p =
     \<lparr>thread_objs = Map.empty, obj_count = 0,
      os_threads = [p \<mapsto> \<lparr>t_cachedTid = 0, t_threadName = ''main'', os_pc = In_func, detached = False\<rparr>],
      main_tid = p, threads_created = 0\<rparr>"

section \<open>CurrentThread\<close>

definition current_tid :: "nat \<Rightarrow> os_thread \<Rightarrow> nat \<times> os_thread" where
  "current_tid self_id t =
     (let t = (if t_cachedTid t = 0 then t\<lparr>t_cachedTid := self_id\<rparr> else t)
      in (t_cachedTid t, t))"

definition current_name :: "os_thread \<Rightarrow> string" where
  "current_name t = t_threadName t"

definition isMainThread :: "nat \<Rightarrow> nat \<Rightarrow> os_thread \<Rightarrow> bool \<times> os_thread" where
  "isMainThread pid self_id t = (case current_tid self_id t of (n, t) \<Rightarrow> (n = pid, t))"

definition afterFork :: "nat \<Rightarrow> os_thread \<Rightarrow> os_thread" where
  "afterFork self_id t = t\<lparr>t_cachedTid := self_id, t_threadName := ''main''\<rparr>"

section \<open>Thread\<close>

definition new_Thread :: "string \<Rightarrow> process \<Rightarrow> process" where
  "new_Thread n s =
     s\<lparr>thread_objs := (thread_objs s)(obj_count s \<mapsto>
          \<lparr>th_started = False, th_joined = False, th_os = 0, th_tid = 0, th_name = n\<rparr>),
       obj_count := obj_count s + 1, threads_created := atomic_increment (threads_created s)\<rparr>"

text \<open>\<open>pthread_create\<close> answers with the id of the new thread, or fails.\<close>

definition thread_start :: "nat option \<Rightarrow> nat \<Rightarrow> process \<Rightarrow> process result" where
  "thread_start created a s =
     (case thread_objs s a of
        None \<Rightarrow> Inl (Undefined 141)
      | Some th \<Rightarrow>
          check (\<not> th_started th) (Assertion 141)
            (let data = \<lparr>td_name = th_name th, td_obj = a\<rparr>
             in case created of
                  None \<Rightarrow> Inl (Fatal 149)
                | Some n \<Rightarrow>
                    Inr (s\<lparr>thread_objs := (thread_objs s)(a \<mapsto> th\<lparr>th_started := True, th_os := n\<rparr>),
                           os_threads := (os_threads s)(n \<mapsto>
                             \<lparr>t_cachedTid = 0, t_threadName = ''unknown'', os_pc = Created data, detached = False\<rparr>)\<rparr>)))"

text \<open>\<open>runInThread\<close> up to \<open>func_()\<close>. The weak pointer to the number of the object locks as long as the object is there.\<close>

definition td_runInThread :: "nat \<Rightarrow> process \<Rightarrow> process" where
  "td_runInThread n s =
     (case os_threads s n of
        None \<Rightarrow> s
      | Some t \<Rightarrow> (case os_pc t of
          Created data \<Rightarrow>
            (case current_tid n t of (tid, t) \<Rightarrow>
              let s = (case thread_objs s (td_obj data) of
                         None \<Rightarrow> s
                       | Some th \<Rightarrow> s\<lparr>thread_objs := (thread_objs s)(td_obj data \<mapsto> th\<lparr>th_tid := tid\<rparr>)\<rparr>);
                  t = t\<lparr>t_threadName := (if td_name data = [] then ''muduoThread'' else td_name data)\<rparr>
              in s\<lparr>os_threads := (os_threads s)(n \<mapsto> t\<lparr>os_pc := In_func\<rparr>)\<rparr>)
        | _ \<Rightarrow> s))"

definition func_returns :: "nat \<Rightarrow> process \<Rightarrow> process" where
  "func_returns n s =
     (case os_threads s n of
        None \<Rightarrow> s
      | Some t \<Rightarrow>
          if os_pc t = In_func \<and> n \<noteq> main_tid s
          then s\<lparr>os_threads := (os_threads s)(n \<mapsto> t\<lparr>t_threadName := ''finished'', os_pc := Exited\<rparr>)\<rparr>
          else s)"

text \<open>Up to the wait in \<open>pthread_join\<close>, and whether that returns.\<close>

definition thread_join :: "nat \<Rightarrow> process \<Rightarrow> process result" where
  "thread_join a s =
     (case thread_objs s a of
        None \<Rightarrow> Inl (Undefined 155)
      | Some th \<Rightarrow>
          check (th_started th) (Assertion 155)
            (check (\<not> th_joined th) (Assertion 156)
              (Inr (s\<lparr>thread_objs := (thread_objs s)(a \<mapsto> th\<lparr>th_joined := True\<rparr>)\<rparr>))))"

definition join_returns :: "nat \<Rightarrow> process \<Rightarrow> bool" where
  "join_returns a s = (case thread_objs s a of
      None \<Rightarrow> False
    | Some th \<Rightarrow> th_joined th \<and> (case os_threads s (th_os th) of None \<Rightarrow> False | Some t \<Rightarrow> os_pc t = Exited))"

definition delete_Thread :: "nat \<Rightarrow> process \<Rightarrow> process result" where
  "delete_Thread a s =
     (case thread_objs s a of
        None \<Rightarrow> Inl (Undefined 133)
      | Some th \<Rightarrow>
          let s' = s\<lparr>thread_objs := (thread_objs s)(a := None)\<rparr>
          in if th_started th \<and> \<not> th_joined th
             then (case os_threads s (th_os th) of
                     None \<Rightarrow> Inr s'
                   | Some t \<Rightarrow> Inr (s'\<lparr>os_threads := (os_threads s)(th_os th \<mapsto> t\<lparr>detached := True\<rparr>)\<rparr>))
             else Inr s')"

section \<open>Runs\<close>

text \<open>A call of \<open>CurrentThread::tid()\<close> in thread \<open>n\<close>, and a fork in thread \<open>n\<close>, after which the run goes on in the child.\<close>

definition call_tid :: "nat \<Rightarrow> process \<Rightarrow> process" where
  "call_tid n s = (case os_threads s n of
      None \<Rightarrow> s
    | Some t \<Rightarrow> if os_pc t = In_func then s\<lparr>os_threads := (os_threads s)(n \<mapsto> snd (current_tid n t))\<rparr> else s)"

definition fork_child :: "nat \<Rightarrow> nat \<Rightarrow> process \<Rightarrow> process" where
  "fork_child n child s = (case os_threads s n of
      None \<Rightarrow> s
    | Some t \<Rightarrow>
        if os_pc t = In_func then s\<lparr>os_threads := [child \<mapsto> afterFork child t], main_tid := child\<rparr> else s)"

datatype thread_event =
    New_thread string | Start nat "nat option" | Run nat | Func_returns nat | Join nat | Delete nat
  | Call_tid nat | Fork nat nat

fun thread_do :: "thread_event \<Rightarrow> process \<Rightarrow> process result" where
  "thread_do (New_thread n) s = Inr (new_Thread n s)"
| "thread_do (Start a created) s = thread_start created a s"
| "thread_do (Run n) s = Inr (td_runInThread n s)"
| "thread_do (Func_returns n) s = Inr (func_returns n s)"
| "thread_do (Join a) s = thread_join a s"
| "thread_do (Delete a) s = delete_Thread a s"
| "thread_do (Call_tid n) s = Inr (call_tid n s)"
| "thread_do (Fork n child) s = Inr (fork_child n child s)"

text \<open>What the kernel promises of the ids it gives out.\<close>

definition fresh_id :: "nat \<Rightarrow> process \<Rightarrow> bool" where
  "fresh_id n s \<longleftrightarrow> n \<noteq> 0 \<and> os_threads s n = None \<and> (\<forall>a th. thread_objs s a = Some th \<longrightarrow> th_os th \<noteq> n)"

definition kernel_keeps :: "thread_event \<Rightarrow> process \<Rightarrow> bool" where
  "kernel_keeps e s = (case e of Start a (Some n) \<Rightarrow> fresh_id n s | Fork n child \<Rightarrow> fresh_id child s | _ \<Rightarrow> True)"

inductive process_reach :: "process \<Rightarrow> process \<Rightarrow> bool" where
  start: "process_reach s s"
| step: "process_reach s0 s \<Longrightarrow> kernel_keeps e s \<Longrightarrow> thread_do e s = Inr s' \<Longrightarrow> process_reach s0 s'"

section \<open>The invariant\<close>

text \<open>The object for which a thread has yet to begin.\<close>

definition task_of :: "os_thread \<Rightarrow> nat option" where
  "task_of t = (case os_pc t of Created d \<Rightarrow> Some (td_obj d) | _ \<Rightarrow> None)"

definition began :: "nat \<Rightarrow> thread_obj \<Rightarrow> os_thread \<Rightarrow> bool" where
  "began a th t \<longleftrightarrow> task_of t = Some a \<and> th_tid th = 0 \<or> task_of t = None \<and> th_tid th = th_os th"

definition os_ok :: "process \<Rightarrow> nat \<Rightarrow> os_thread \<Rightarrow> bool" where
  "os_ok s n t \<longleftrightarrow> n \<noteq> 0 \<and> t_cachedTid t \<in> {0, n} \<and> (\<forall>a. task_of t = Some a \<longrightarrow>
     a < obj_count s \<and> (\<forall>th. thread_objs s a = Some th \<longrightarrow> th_started th \<and> th_os th = n \<and> th_tid th = 0))"

definition obj_ok :: "process \<Rightarrow> nat \<Rightarrow> thread_obj \<Rightarrow> bool" where
  "obj_ok s a th \<longleftrightarrow> a < obj_count s \<and> (th_started th \<longleftrightarrow> th_os th \<noteq> 0) \<and> (\<not> th_started th \<longrightarrow> th_tid th = 0)
     \<and> (\<forall>t. os_threads s (th_os th) = Some t \<longrightarrow> th_started th \<longrightarrow> began a th t)"

lemma task_of_simps [simp]:
  "task_of (t\<lparr>t_cachedTid := n\<rparr>) = task_of t" "task_of (t\<lparr>t_threadName := nm\<rparr>) = task_of t"
  "task_of (t\<lparr>detached := b\<rparr>) = task_of t" "task_of (t\<lparr>os_pc := In_func\<rparr>) = None" "task_of (t\<lparr>os_pc := Exited\<rparr>) = None"
  "os_pc t = In_func \<Longrightarrow> task_of t = None" "os_pc t = Created d \<Longrightarrow> task_of t = Some (td_obj d)"
  "task_of \<lparr>t_cachedTid = n, t_threadName = nm, os_pc = In_func, detached = b\<rparr> = None"
  "task_of \<lparr>t_cachedTid = n, t_threadName = nm, os_pc = Created d, detached = b\<rparr> = Some (td_obj d)"
  by (simp_all add: task_of_def)

lemma began_simps [simp]:
  "began a (th\<lparr>th_joined := j\<rparr>) t = began a th t" "task_of t = Some a \<Longrightarrow> began a th t \<longleftrightarrow> th_tid th = 0"
  "task_of t = None \<Longrightarrow> began a th t \<longleftrightarrow> th_tid th = th_os th"
  by (simp_all add: began_def)

definition process_ok :: "process \<Rightarrow> bool" where
  "process_ok s \<longleftrightarrow> (\<forall>n t. os_threads s n = Some t \<longrightarrow> os_ok s n t) \<and> (\<forall>a th. thread_objs s a = Some th \<longrightarrow> obj_ok s a th)
     \<and> main_tid s \<in> dom (os_threads s)"

lemma process_okD:
  assumes "process_ok s"
  shows "os_threads s n = Some t \<Longrightarrow> os_ok s n t" "thread_objs s a = Some th \<Longrightarrow> obj_ok s a th" "\<exists>t. os_threads s (main_tid s) = Some t"
  using assms by (auto simp: process_ok_def)

lemma process_okI:
  assumes "\<And>n t. os_threads s n = Some t \<Longrightarrow> os_ok s n t" "\<And>a th. thread_objs s a = Some th \<Longrightarrow> obj_ok s a th"
    "main_tid s \<in> dom (os_threads s)"
  shows "process_ok s"
  using assms by (simp add: process_ok_def)

lemma new_process_ok: "p \<noteq> 0 \<Longrightarrow> process_ok (new_process p)"
  by (simp add: process_ok_def new_process_def os_ok_def)

lemma new_Thread_ok:
  assumes ok: "process_ok s"
  shows "process_ok (new_Thread n s)"
proof (rule process_okI)
  have fresh: "thread_objs s (obj_count s) = None"
    using process_okD(2)[OF ok, of "obj_count s"] by (cases "thread_objs s (obj_count s)") (auto simp: obj_ok_def)
  show "os_ok (new_Thread n s) m t" if "os_threads (new_Thread n s) m = Some t" for m t
    using process_okD(1)[OF ok, of m t] that by (fastforce simp: os_ok_def new_Thread_def split: if_splits)
  show "obj_ok (new_Thread n s) a th" if "thread_objs (new_Thread n s) a = Some th" for a th
    using process_okD(2)[OF ok, of a th] that by (auto simp: obj_ok_def new_Thread_def split: if_splits)
  show "main_tid (new_Thread n s) \<in> dom (os_threads (new_Thread n s))"
    using process_okD(3)[OF ok] by (auto simp: new_Thread_def)
qed

lemma thread_start_ok:
  assumes ok: "process_ok s" and fresh: "fresh_id n s" and r: "thread_start (Some n) a s = Inr s'"
  shows "process_ok s'"
proof (rule process_okI)
  obtain th where th: "thread_objs s a = Some th" "\<not> th_started th"
    "s' = s\<lparr>thread_objs := (thread_objs s)(a \<mapsto> th\<lparr>th_started := True, th_os := n\<rparr>),
       os_threads := (os_threads s)(n \<mapsto>
         \<lparr>t_cachedTid = 0, t_threadName = ''unknown'', os_pc = Created \<lparr>td_name = th_name th, td_obj = a\<rparr>, detached = False\<rparr>)\<rparr>"
    using r by (auto simp: thread_start_def check_Inr Let_def split: option.splits)
  have a: "a < obj_count s" "th_tid th = 0" using process_okD(2)[OF ok th(1)] th(2) by (auto simp: obj_ok_def)
  show "os_ok s' m t" if "os_threads s' m = Some t" for m t
  proof (cases "m = n")
    case True
    then show ?thesis using that fresh a by (auto simp: th(3) os_ok_def fresh_id_def)
  next
    case False
    then have "os_ok s m t" using that process_okD(1)[OF ok] by (simp add: th(3))
    then show ?thesis using th(1,2) by (auto simp: os_ok_def th(3))
  qed
  show "obj_ok s' b x" if "thread_objs s' b = Some x" for b x
  proof (cases "b = a")
    case True
    then show ?thesis using that fresh a by (auto simp: th(3) obj_ok_def fresh_id_def)
  next
    case False
    then have "thread_objs s b = Some x" "obj_ok s b x" using that process_okD(2)[OF ok] by (simp_all add: th(3))
    then show ?thesis using fresh by (auto simp: obj_ok_def th(3) fresh_id_def)
  qed
  show "main_tid s' \<in> dom (os_threads s')" using process_okD(3)[OF ok] by (auto simp: th(3))
qed

text \<open>A change of one thread that leaves what the objects rest on.\<close>

lemma os_update_ok:
  assumes ok: "process_ok s" and t: "os_threads s n = Some t" and t': "t_cachedTid t' \<in> {0, n}"
    and pc: "task_of t' = task_of t"
  shows "process_ok (s\<lparr>os_threads := (os_threads s)(n \<mapsto> t')\<rparr>)"
proof (rule process_okI)
  show "os_ok (s\<lparr>os_threads := (os_threads s)(n \<mapsto> t')\<rparr>) m u" if "os_threads (s\<lparr>os_threads := (os_threads s)(n \<mapsto> t')\<rparr>) m = Some u" for m u
    using process_okD(1)[OF ok, of m] t t' pc that by (auto simp: os_ok_def split: if_splits)
  show "obj_ok (s\<lparr>os_threads := (os_threads s)(n \<mapsto> t')\<rparr>) a th" if "thread_objs (s\<lparr>os_threads := (os_threads s)(n \<mapsto> t')\<rparr>) a = Some th" for a th
    using process_okD(2)[OF ok, of a th] t pc that by (auto simp: obj_ok_def began_def split: if_splits)
qed (use process_okD(3)[OF ok] in auto)

lemma current_tid_eq: "t_cachedTid t \<in> {0, n} \<Longrightarrow> current_tid n t = (n, t\<lparr>t_cachedTid := n\<rparr>)"
  by (cases "t_cachedTid t = 0") (auto simp: current_tid_def Let_def)

lemma td_runInThread_ok:
  assumes ok: "process_ok s"
  shows "process_ok (td_runInThread n s)"
proof (cases "\<exists>t d. os_threads s n = Some t \<and> os_pc t = Created d")
  case False
  then have "td_runInThread n s = s" by (auto simp: td_runInThread_def split: option.splits os_pc.splits)
  then show ?thesis using ok by simp
next
  case True
  then obtain t d where t: "os_threads s n = Some t" "os_pc t = Created d" by blast
  have n: "os_ok s n t" using process_okD(1)[OF ok t(1)] .
  define t' where "t' = t\<lparr>t_cachedTid := n, t_threadName := (if td_name d = [] then ''muduoThread'' else td_name d), os_pc := In_func\<rparr>"
  define M where "M = (case thread_objs s (td_obj d) of None \<Rightarrow> thread_objs s
    | Some th \<Rightarrow> (thread_objs s)(td_obj d \<mapsto> th\<lparr>th_tid := n\<rparr>))"
  have eq: "td_runInThread n s = s\<lparr>thread_objs := M, os_threads := (os_threads s)(n \<mapsto> t')\<rparr>" (is "_ = ?s'")
    using t n current_tid_eq[of t n]
    by (simp add: td_runInThread_def M_def t'_def os_ok_def Let_def split: option.split)
  show ?thesis
    unfolding eq
  proof (rule process_okI)
    show "os_ok ?s' m u" if u: "os_threads ?s' m = Some u" for m u
    proof (cases "m = n")
      case True
      then show ?thesis using u n by (auto simp: os_ok_def t'_def)
    next
      case False
      then have m: "os_ok s m u" using u process_okD(1)[OF ok] by simp
      have "thread_objs s (td_obj d) = None" if "task_of u = Some (td_obj d)"
        using m n t(2) that False by (cases "thread_objs s (td_obj d)") (auto simp: os_ok_def)
      then have "M b = thread_objs s b" if "task_of u = Some b" for b
        using that by (cases "b = td_obj d") (auto simp: M_def split: option.splits)
      then show ?thesis using m by (simp add: os_ok_def)
    qed
    show "obj_ok ?s' a x" if x: "thread_objs ?s' a = Some x" for a x
    proof (cases "a = td_obj d")
      case True
      then obtain th where th: "thread_objs s a = Some th" "x = th\<lparr>th_tid := n\<rparr>"
        using x by (auto simp: M_def split: option.splits)
      then show ?thesis using process_okD(2)[OF ok th(1)] n t True by (auto simp: obj_ok_def os_ok_def t'_def)
    next
      case False
      then have a: "thread_objs s a = Some x" using x by (auto simp: M_def split: option.splits)
      show ?thesis using process_okD(2)[OF ok a] t False by (auto simp: obj_ok_def began_def)
    qed
    show "main_tid ?s' \<in> dom (os_threads ?s')" using process_okD(3)[OF ok] by auto
  qed
qed

lemma objs_update_ok:
  assumes ok: "process_ok s" and th: "thread_objs s a = Some th" and new: "M = (thread_objs s)(a := None)
    \<or> M = (thread_objs s)(a \<mapsto> th\<lparr>th_joined := j\<rparr>)"
  shows "process_ok (s\<lparr>thread_objs := M\<rparr>)"
proof (rule process_okI)
  show "os_ok (s\<lparr>thread_objs := M\<rparr>) n t" if "os_threads (s\<lparr>thread_objs := M\<rparr>) n = Some t" for n t
    using process_okD(1)[OF ok, of n t] th new that by (auto simp: os_ok_def split: if_splits)
  show "obj_ok (s\<lparr>thread_objs := M\<rparr>) b x" if "thread_objs (s\<lparr>thread_objs := M\<rparr>) b = Some x" for b x
    using process_okD(2)[OF ok, of b] th new that by (auto simp: obj_ok_def began_def split: if_splits)
qed (use process_okD(3)[OF ok] in auto)

lemma thread_do_ok:
  assumes ok: "process_ok s" and k: "kernel_keeps e s" and r: "thread_do e s = Inr s'"
  shows "process_ok s'"
proof (cases e)
  case (New_thread n)
  then show ?thesis using r new_Thread_ok[OF ok] by auto
next
  case (Start a c)
  then show ?thesis
    using r k thread_start_ok[OF ok]
    by (cases c) (auto simp: kernel_keeps_def thread_start_def check_Inr Let_def split: option.splits)
next
  case (Run n)
  then show ?thesis using r td_runInThread_ok[OF ok] by auto
next
  case (Func_returns n)
  have "t_cachedTid t \<in> {0, n}" if "os_threads s n = Some t" for t using process_okD(1)[OF ok that] by (simp add: os_ok_def)
  then show ?thesis using r Func_returns ok by (auto simp: func_returns_def split: option.splits if_splits intro!: os_update_ok)
next
  case (Join a)
  then show ?thesis
    using r ok by (auto simp: thread_join_def check_Inr split: option.splits intro!: objs_update_ok)
next
  case (Delete a)
  then obtain th where th: "thread_objs s a = Some th" using r by (auto simp: delete_Thread_def split: option.splits)
  have del: "process_ok (s\<lparr>thread_objs := (thread_objs s)(a := None)\<rparr>)" using objs_update_ok[OF ok th] by blast
  have "t_cachedTid t \<in> {0, n}" if "os_threads s n = Some t" for n t using process_okD(1)[OF ok that] by (simp add: os_ok_def)
  then have "process_ok (s\<lparr>thread_objs := (thread_objs s)(a := None), os_threads := (os_threads s)(n \<mapsto> t\<lparr>detached := True\<rparr>)\<rparr>)"
    if "os_threads s n = Some t" for n t
    using os_update_ok[OF del, of n t "t\<lparr>detached := True\<rparr>"] that by simp
  then show ?thesis using r Delete th del by (auto simp: delete_Thread_def Let_def split: option.splits if_splits)
next
  case (Call_tid n)
  have "t_cachedTid t \<in> {0, n}" if "os_threads s n = Some t" for t using process_okD(1)[OF ok that] by (simp add: os_ok_def)
  then show ?thesis
    using r Call_tid ok by (auto simp: call_tid_def current_tid_eq split: option.splits if_splits intro!: os_update_ok)
next
  case (Fork n child)
  show ?thesis
  proof (cases "\<exists>t. os_threads s n = Some t \<and> os_pc t = In_func")
    case False
    then show ?thesis using r ok Fork by (auto simp: fork_child_def split: option.splits if_splits)
  next
    case True
    then obtain t where t: "os_threads s n = Some t" "os_pc t = In_func" by blast
    have s': "s' = s\<lparr>os_threads := [child \<mapsto> afterFork child t], main_tid := child\<rparr>" using r t Fork by (simp add: fork_child_def)
    have fresh: "fresh_id child s" using k Fork by (simp add: kernel_keeps_def)
    show ?thesis
    proof (rule process_okI)
      show "os_ok s' m u" if "os_threads s' m = Some u" for m u
        using that fresh t(2) by (auto simp: s' os_ok_def afterFork_def fresh_id_def split: if_splits)
      show "obj_ok s' a th" if "thread_objs s' a = Some th" for a th
        using process_okD(2)[OF ok, of a th] that fresh by (auto simp: s' obj_ok_def fresh_id_def)
    qed (simp add: s')
  qed
qed

lemma process_reach_ok: "process_reach s0 s \<Longrightarrow> process_ok s0 \<Longrightarrow> process_ok s"
  by (induction rule: process_reach.induct) (auto intro: thread_do_ok)

text \<open>The numbers that so many calls of \<open>incrementAndGet\<close> return, in the order in which they take effect, and the new value.\<close>

fun increments :: "nat \<Rightarrow> 'w::len word \<Rightarrow> 'w word list \<times> 'w word" where
  "increments 0 v = ([], v)"
| "increments (Suc n) v = (case incrementAndGet v of (r, v) \<Rightarrow> case increments n v of (rs, v) \<Rightarrow> (r # rs, v))"

lemma increments_eq: "increments n v = (map (\<lambda>i. v + of_nat (i + 1)) [0..<n], v + of_nat n)"
proof (induction n arbitrary: v)
  case (Suc n)
  have "map (\<lambda>i. v + of_nat (i + 1)) [0..<Suc n] = (v + 1) # map (\<lambda>i. v + 1 + of_nat (i + 1)) [0..<n]"
    by (simp add: upt_conv_Cons map_Suc_upt[symmetric] comp_def add.assoc del: upt_Suc)
  then show ?case by (simp add: Suc.IH incrementAndGet_def addAndGet_def getAndAdd_def add.assoc del: upt_Suc)
qed simp

lemma of_nat_word_inj: "i < 2 ^ LENGTH('w) \<Longrightarrow> j < 2 ^ LENGTH('w) \<Longrightarrow> (of_nat i :: 'w::len word) = of_nat j \<longleftrightarrow> i = j"
  by (simp add: word_of_nat_eq_iff take_bit_nat_eq_self)

section \<open>Properties\<close>

text \<open>C24: Threads know their ids. In every run of the threads of a process, forks and objects that go before
  their thread has begun included: \<open>CurrentThread::tid()\<close> gives in every thread the id that the kernel
  gave it, and \<open>isMainThread\<close> tells the main thread from the others; the number of a started \<open>Thread\<close>
  object is 0 until its thread has begun and that thread's id from then on.\<close>

theorem thread_ids:
  assumes "p \<noteq> 0" "process_reach (new_process p) s"
  shows "(\<forall>n t. os_threads s n = Some t \<longrightarrow>
        fst (current_tid n t) = n \<and> (fst (isMainThread (main_tid s) n t) \<longleftrightarrow> n = main_tid s))
    \<and> (\<forall>a th t. thread_objs s a = Some th \<and> th_started th \<and> os_threads s (th_os th) = Some t \<longrightarrow>
        th_tid th = (case os_pc t of Created d \<Rightarrow> 0 | _ \<Rightarrow> th_os th))"
proof -
  have ok: "process_ok s" using process_reach_ok[OF assms(2)] new_process_ok[OF assms(1)] by blast
  have "fst (current_tid n t) = n \<and> (fst (isMainThread (main_tid s) n t) \<longleftrightarrow> n = main_tid s)" if "os_threads s n = Some t" for n t
    using process_okD(1)[OF ok that] current_tid_eq[of t n] by (simp add: os_ok_def isMainThread_def)
  moreover have "th_tid th = (case os_pc t of Created d \<Rightarrow> 0 | _ \<Rightarrow> th_os th)"
    if "thread_objs s a = Some th" "th_started th" "os_threads s (th_os th) = Some t" for a th t
    using process_okD(2)[OF ok that(1)] that(2,3) by (auto simp: obj_ok_def began_def task_of_def split: os_pc.splits)
  ultimately show ?thesis by blast
qed


section \<open>Witness\<close>

theorem thread_ids_witness:
  "\<exists>s th t. process_reach (new_process 10) s \<and> thread_objs s 0 = Some th \<and> os_threads s 11 = Some t \<and> os_pc t = In_func
    \<and> t_threadName t = ''muduoThread'' \<and> th_tid th = 11 \<and> fst (current_tid 11 t) = 11"
proof -
  let ?s0 = "new_process 10"
  obtain s1 where s1: "thread_do (New_thread []) ?s0 = Inr s1" "kernel_keeps (New_thread []) ?s0"
    by (simp add: kernel_keeps_def)
  obtain s2 where s2: "thread_do (Start 0 (Some 11)) s1 = Inr s2" "kernel_keeps (Start 0 (Some 11)) s1"
    using s1(1) by (auto simp: thread_start_def new_Thread_def new_process_def kernel_keeps_def fresh_id_def Let_def)
  obtain s3 th t where s3: "thread_do (Run 11) s2 = Inr s3" "kernel_keeps (Run 11) s2" "thread_objs s3 0 = Some th" "th_started th"
    "th_os th = 11" "os_threads s3 11 = Some t" "os_pc t = In_func" "t_threadName t = ''muduoThread''"
    using s1(1) s2(1)
    by (auto simp: thread_start_def new_Thread_def new_process_def kernel_keeps_def td_runInThread_def current_tid_def Let_def)
  have "process_reach ?s0 s3"
    by (rule process_reach.step[OF process_reach.step[OF process_reach.step[OF process_reach.start s1(2,1)] s2(2,1)] s3(2,1)])
  then show ?thesis using thread_ids[of 10 s3] s3(3-8) by (intro exI[of _ s3] exI[of _ th] exI[of _ t]) simp
qed

end
