(* ===== verification/Spec2Isabelle.thy ===== *)
theory Spec2Isabelle
  imports Buffer Timer_Queue Poll_Pollers Event_Loop Tcp_Server Tcp_Client Time_Zones Log_Lines Log_Files
    Event_Loop_Threads Thread_Pools Async_Logging Queue_Logging Signal_Slots Threads
begin

text \<open>
  A verification development for fppnet, a C++ network library in the style of muduo: a
  non-blocking event loop with TCP servers and clients on it (src/net), and the time, logging and
  thread utilities below (src/base).

  \<^bold>\<open>How the program works.\<close> An \<open>EventLoop\<close> belongs to one thread. It asks a multiplexer which file
  descriptors are ready (\<open>EPoller\<close> on epoll, or \<open>Poller\<close> on poll), and for each of them the \<open>Channel\<close>
  of the descriptor calls the callbacks due. Other threads hand it functions with \<open>queueInLoop\<close> and
  wake it by writing to an \<open>eventfd\<close>; \<open>TimerQueue\<close> drives timers through a \<open>timerfd\<close>. A \<open>TcpConnection\<close>
  owns a channel, an input and an output \<open>Buffer\<close> and a state; \<open>TcpServer\<close> makes one for every socket
  its \<open>Acceptor\<close> accepts and gives it to a loop of an \<open>EventLoopThreadPool\<close>; \<open>TcpClient\<close> makes one when
  its \<open>Connector\<close>, which tries again with growing delays, has connected.

  \<^bold>\<open>How it is modelled.\<close> Each class is a record of its fields and each method a function on the
  state, or on the state of the whole process where the method calls into others; objects that are
  shared by pointers live in stores from addresses to records, so that use after deletion is
  visible. A result is a value or a \<open>failure\<close> with the line of the source that fails: the program is
  built for debugging, so every \<open>assert\<close> is checked. System calls are functions given to the model
  (\<open>epoll_ctl\<close>), with their documented behaviour as hypothesis, or answers kept in the state
  (\<open>read\<close>, \<open>write\<close>, \<open>accept\<close>, \<open>connect\<close>, \<open>time\<close>, \<open>fwrite\<close>). Callbacks of the user are programs over the
  operations of the object they are given.

  \<^bold>\<open>Theories, and what their lemmas show.\<close>
  \<^item> \<open>Fppnet_Prelude\<close>: failures and their sequencing, \<open>size_t\<close> arithmetic, memory blocks, sorted sets.
  \<^item> \<open>Buffer\<close> (net/Buffer), with the contract \<open>byte_queue\<close> of \<open>Byte_Queue\<close>: the buffer refines a
    queue of bytes; reading from a descriptor appends; prepending and appending read back.
  \<^item> \<open>Timestamps\<close>, \<open>Dates\<close>, \<open>Time_Zones\<close> (base/datetime): decimal output, the part of \<open>double\<close> arithmetic
    used; calendar dates and Julian days are inverse; UTC conversion; the search for the offset of a
    zone agrees with its specification, reading of zone files included.
  \<^item> \<open>Timer_Queue\<close> (net/Timer, TimerId, TimerQueue): the invariant of the two indices and the heap of
    timers through adding, cancelling and expiry, callbacks that add and cancel included.
  \<^item> \<open>Channels\<close>, \<open>Pollers\<close>, \<open>EPollers\<close>, \<open>Poll_Pollers\<close> (net/Channel, EPoller, Poller): the callbacks an event
    is due; the contract of a multiplexer as locales, that the kernel watches exactly what the
    channels ask for under epoll, and what the poll version does and does not keep of it.
  \<^item> \<open>Event_Loop\<close> (net/EventLoop): the loop and the threads that post to it as a transition system;
    functors run in the order they were queued, no wake-up is lost once the loop runs, and what is
    lost before.
  \<^item> \<open>Sockets\<close> (net/SocketsOps, InetAddress, Socket): addresses as text and back, checks of results.
  \<^item> \<open>Tcp_Connection\<close>, \<open>Tcp_Lifecycle\<close> (net/TcpConnection): bytes leave in the order they were sent
    under every pattern of partial writes; the state only advances; the life of a connection.
  \<^item> \<open>Tcp_Server\<close> (net/TcpServer, Acceptor, EventLoopThreadPool): round-robin accepting, orderly
    closing across loops, and three ways in which closing goes wrong. The state is that of the loop
    whose thread runs, with the memories of the other loops set aside; \<open>switch\<close> changes over.
  \<^item> \<open>Connectors\<close>, \<open>Tcp_Client\<close> (net/Connector, TcpClient): the schedule of retries, and a connection
    from the first attempt until it is established.
  \<^item> \<open>Log_Streams\<close>, \<open>Log_Lines\<close>, \<open>Log_Files\<close> (base/logging): numbers are printed as decimals, streams never
    overflow, a log statement writes its line, files hold every line whole and in order.
  \<^item> \<open>Async_Logging\<close> (base/logging/AsyncLoggingDoubleBuffering): the front end and the logging thread as
    interleaved steps; nothing is lost or reordered unless a drop is announced, the thread ends after
    \<open>stop()\<close>, and what \<open>stop()\<close> loses.
  \<^item> \<open>Queue_Logging\<close> (base/logging/AsyncLoggingQueue): the logger on a queue, over any type of messages that
    keeps the contract \<open>message\<close>; it is complete and ends, and an empty line aborts it.
  \<^item> \<open>Monitors\<close> (base/thread/Mutex, Condition): threads as programs of instructions, interleaved; a
    type system for the use of locks and a rule for annotated programs, both proved sound for every
    schedule, as the locale \<open>monitor\<close>.
  \<^item> \<open>Blocking_Queues\<close>, \<open>Latches\<close>, \<open>Thread_Pools\<close> (base/thread/BlockingQueue, BoundedBlockingQueue,
    CountDownLatch, ThreadPool): the queues are first-in first-out and bounded, the latch opens, the
    pool can hang and drop tasks when it is stopped.
  \<^item> \<open>Event_Loop_Threads\<close> (net/EventLoopThread): \<open>startLoop\<close> hands over a loop that exists under every
    schedule, and how the destructor can race with the thread.
  \<^item> \<open>Signal_Slots\<close> (base/thread/SignalSlot): copy-on-write lists of slots owned by reference counts; no
    interleaving breaks them, and a call runs exactly the slots of its snapshot that live.
  \<^item> \<open>Threads\<close> (base/thread/Thread, Atomic): the ids and names of threads through starting, joining and
    forking; atomic counters and the width of their numbers.

  \<^bold>\<open>Bounds and loops.\<close> No definition needs fuel. Loops over finite data recurse on it; the digit loops
  and the write loop of a log file have a measure; the event loop and the threads are transition
  systems whose runs have any length. Integers are \<open>int\<close> where the code's cannot overflow on the
  inputs a property allows, which it then bounds, and words where bits or wrap-around matter.

  \<^bold>\<open>Not modelled.\<close> \<open>Singleton\<close>, \<open>ThreadLocal\<close>, \<open>WeakCallback\<close>
  and \<open>Exception\<close> are thin wrappers of system facilities. Real
  time, memory exhaustion and data races on single words are outside the model, as are the tests
  and the examples.
\<close>

end
